(* ===== verification/Prelude.thy ===== *)
theory Prelude
  imports Main "HOL-Library.Word"
begin

text \<open>
  Shared ground of the development: the C integer types as machine words, the wrap-around of
  \<^verbatim>\<open>size_t\<close>, the result of running a C function (it returns, it reports failure, or the process
  is lost), the combinators in which the models of the stream based code are written, and the
  lemmas on lists and words that the components share.
\<close>

section \<open>Machine integers\<close>

unbundle bit_operations_syntax

type_synonym byte = "8 word"
type_synonym u16 = "16 word"
type_synonym u32 = "32 word"
type_synonym u64 = "64 word"

text \<open>
  A \<^verbatim>\<open>size_t\<close> is a natural number; where the C code adds or multiplies sizes and the result
  can leave the 64-bit range, the wrap-around is written with \<open>wrap64\<close>.
\<close>

definition wrap64 :: "nat \<Rightarrow> nat" where
  "wrap64 n = n mod 2 ^ 64"

lemma wrap64_id [simp]: "n < 2 ^ 64 \<Longrightarrow> wrap64 n = n"
  by (simp add: wrap64_def)

lemma wrap64_less [simp]: "wrap64 n < 2 ^ 64"
  by (simp add: wrap64_def)

section \<open>Outcomes of C functions\<close>

text \<open>
  A function that returns a \<^verbatim>\<open>BOOL\<close> and mutates a structure either succeeds with a value and
  the new structure (\<open>Done\<close>), returns \<^verbatim>\<open>FALSE\<close> with the structure as it was left (\<open>Failed\<close>), or
  never returns to its caller (\<open>Fault\<close>): a failed assertion aborts, a null pointer or an address
  outside an allocation is touched, an integer is divided by zero, a loop does not end.
\<close>

datatype fault = AssertionFailed | NullDereference | OutOfBounds | DivisionByZero | NonTermination

datatype ('s, 'a) outcome = Done 'a 's | Failed 's | Fault fault

type_synonym ('s, 'a) prog = "'s \<Rightarrow> ('s, 'a) outcome"

definition ret :: "'a \<Rightarrow> ('s, 'a) prog" where
  "ret x s = Done x s"

definition fail :: "('s, 'a) prog" where
  "fail s = Failed s"

definition fault :: "fault \<Rightarrow> ('s, 'a) prog" where
  "fault e s = Fault e"

definition bind :: "('s, 'a) prog \<Rightarrow> ('a \<Rightarrow> ('s, 'b) prog) \<Rightarrow> ('s, 'b) prog" where
  "bind m f s = (case m s of Done x s' \<Rightarrow> f x s' | Failed s' \<Rightarrow> Failed s' | Fault e \<Rightarrow> Fault e)"

definition seq :: "('s, 'a) prog \<Rightarrow> ('s, 'b) prog \<Rightarrow> ('s, 'b) prog" where
  "seq m n = bind m (\<lambda>_. n)"

text \<open>\<open>assert_that\<close> is \<^verbatim>\<open>WINPR_ASSERT(c)\<close>; \<open>require\<close> is \<^verbatim>\<open>if (!c) return FALSE;\<close>.\<close>

definition assert_that :: "('s \<Rightarrow> bool) \<Rightarrow> ('s, unit) prog" where
  "assert_that c s = (if c s then Done () s else Fault AssertionFailed)"

definition require :: "bool \<Rightarrow> ('s, unit) prog" where
  "require c s = (if c then Done () s else Failed s)"

definition gets :: "('s \<Rightarrow> 'a) \<Rightarrow> ('s, 'a) prog" where
  "gets f s = Done (f s) s"

definition modify :: "('s \<Rightarrow> 's) \<Rightarrow> ('s, unit) prog" where
  "modify f s = Done () (f s)"

named_theorems prog_simps \<open>evaluation of the combinators\<close>

lemma ret_run [simp, prog_simps]: "ret x s = Done x s"
  by (simp add: ret_def)

lemma fail_run [simp, prog_simps]: "fail s = Failed s"
  by (simp add: fail_def)

lemma fault_run [simp, prog_simps]: "fault e s = Fault e"
  by (simp add: fault_def)

lemma gets_run [simp, prog_simps]: "gets f s = Done (f s) s"
  by (simp add: gets_def)

lemma modify_run [simp, prog_simps]: "modify f s = Done () (f s)"
  by (simp add: modify_def)

lemma assert_run [simp, prog_simps]:
  "c s \<Longrightarrow> assert_that c s = Done () s"
  "\<not> c s \<Longrightarrow> assert_that c s = Fault AssertionFailed"
  by (simp_all add: assert_that_def)

lemma require_run [simp, prog_simps]:
  "require True s = Done () s"
  "require False s = Failed s"
  by (simp_all add: require_def)

lemma bind_Done [simp, prog_simps]: "m s = Done x s' \<Longrightarrow> bind m f s = f x s'"
  by (simp add: bind_def)

lemma bind_Failed [simp, prog_simps]: "m s = Failed s' \<Longrightarrow> bind m f s = Failed s'"
  by (simp add: bind_def)

lemma bind_Fault [simp, prog_simps]: "m s = Fault e \<Longrightarrow> bind m f s = Fault e"
  by (simp add: bind_def)

lemma seq_Done [simp, prog_simps]: "m s = Done x s' \<Longrightarrow> seq m n s = n s'"
  by (simp add: seq_def)

lemma seq_Failed [simp, prog_simps]: "m s = Failed s' \<Longrightarrow> seq m n s = Failed s'"
  by (simp add: seq_def)

lemma seq_Fault [simp, prog_simps]: "m s = Fault e \<Longrightarrow> seq m n s = Fault e"
  by (simp add: seq_def)

text \<open>\<open>or_value v m\<close> turns the failure of \<open>m\<close> into the return value \<open>v\<close>.\<close>

definition or_value :: "'a \<Rightarrow> ('s, 'a) prog \<Rightarrow> ('s, 'a) prog" where
  "or_value v m s = (case m s of Failed s' \<Rightarrow> Done v s' | r \<Rightarrow> r)"

section \<open>Total correctness triples\<close>

text \<open>
  \<open>triple P m Q E\<close>: started in a state that satisfies \<open>P\<close>, \<open>m\<close> does not fault; if it succeeds the
  result satisfies \<open>Q\<close>, if it reports failure the state it leaves satisfies \<open>E\<close>.
\<close>

definition triple ::
  "('s \<Rightarrow> bool) \<Rightarrow> ('s, 'a) prog \<Rightarrow> ('a \<Rightarrow> 's \<Rightarrow> bool) \<Rightarrow> ('s \<Rightarrow> bool) \<Rightarrow> bool" where
  "triple P m Q E \<longleftrightarrow>
     (\<forall>s. P s \<longrightarrow> (case m s of Done x s' \<Rightarrow> Q x s' | Failed s' \<Rightarrow> E s' | Fault _ \<Rightarrow> False))"

lemma tripleI:
  "(\<And>s. P s \<Longrightarrow> case m s of Done x s' \<Rightarrow> Q x s' | Failed s' \<Rightarrow> E s' | Fault _ \<Rightarrow> False)
     \<Longrightarrow> triple P m Q E"
  by (simp add: triple_def)

lemma triple_no_fault: "triple P m Q E \<Longrightarrow> P s \<Longrightarrow> m s \<noteq> Fault e"
  by (auto simp: triple_def split: outcome.splits)

lemma triple_Done: "triple P m Q E \<Longrightarrow> P s \<Longrightarrow> m s = Done x s' \<Longrightarrow> Q x s'"
  by (auto simp: triple_def split: outcome.splits)

lemma triple_Failed: "triple P m Q E \<Longrightarrow> P s \<Longrightarrow> m s = Failed s' \<Longrightarrow> E s'"
  by (auto simp: triple_def split: outcome.splits)

lemma triple_ret: "(\<And>s. P s \<Longrightarrow> Q x s) \<Longrightarrow> triple P (ret x) Q E"
  by (simp add: triple_def)

lemma triple_fail: "(\<And>s. P s \<Longrightarrow> E s) \<Longrightarrow> triple P fail Q E"
  by (simp add: triple_def)

lemma triple_bind:
  assumes "triple P m R E" and "\<And>x. triple (R x) (f x) Q E"
  shows "triple P (bind m f) Q E"
  using assms by (fastforce simp: triple_def bind_def split: outcome.splits)

lemma triple_seq:
  assumes "triple P m (\<lambda>_. R) E" and "triple R n Q E"
  shows "triple P (seq m n) Q E"
  using assms by (auto simp: seq_def intro: triple_bind)

lemma triple_if:
  assumes "c \<Longrightarrow> triple P m Q E" and "\<not> c \<Longrightarrow> triple P n Q E"
  shows "triple P (if c then m else n) Q E"
  using assms by simp

lemma triple_weaken:
  assumes "triple P m Q E" and "\<And>s. P' s \<Longrightarrow> P s"
    and "\<And>x s. Q x s \<Longrightarrow> Q' x s" and "\<And>s. E s \<Longrightarrow> E' s"
  shows "triple P' m Q' E'"
  using assms by (fastforce simp: triple_def split: outcome.splits)

section \<open>Bytes of a number\<close>

text \<open>
  The reference encodings the stream accessors are compared with: the \<open>n\<close> low bytes of a number,
  least significant first, and the number a byte string denotes.
\<close>

fun bytes_le :: "nat \<Rightarrow> nat \<Rightarrow> byte list" where
  "bytes_le 0 v = []"
| "bytes_le (Suc n) v = word_of_nat v # bytes_le n (v div 256)"

fun nat_le :: "byte list \<Rightarrow> nat" where
  "nat_le [] = 0"
| "nat_le (b # bs) = unat b + 256 * nat_le bs"

definition bytes_be :: "nat \<Rightarrow> nat \<Rightarrow> byte list" where
  "bytes_be n v = rev (bytes_le n v)"

definition nat_be :: "byte list \<Rightarrow> nat" where
  "nat_be bs = nat_le (rev bs)"

lemma byte_less [simp]: "unat (b :: byte) < 256"
  using unsigned_less [of b] by simp

lemma unat_u16_less [simp]: "unat (v :: u16) < 65536"
  using unsigned_less [of v] by simp

lemma unat_u32_less [simp]: "unat (v :: u32) < 4294967296"
  using unsigned_less [of v] by simp

lemma unat_u64_less [simp]: "unat (v :: u64) < 18446744073709551616"
  using unsigned_less [of v] by simp

lemma unat_mod_width [simp]:
  "unat (b :: byte) mod 256 = unat b"
  "unat (v :: u16) mod 65536 = unat v"
  "unat (w :: u32) mod 4294967296 = unat w"
  "unat (x :: u64) mod 18446744073709551616 = unat x"
  by simp_all

lemma length_bytes_le [simp]: "length (bytes_le n v) = n"
  by (induction n arbitrary: v) simp_all

lemma length_bytes_be [simp]: "length (bytes_be n v) = n"
  by (simp add: bytes_be_def)

lemma nat_le_bytes_le: "nat_le (bytes_le n v) = v mod 256 ^ n"
proof (induction n arbitrary: v)
  case 0
  show ?case by simp
next
  case (Suc n)
  have "unat (word_of_nat v :: byte) = v mod 256"
    by (simp add: unat_of_nat)
  with Suc show ?case by (simp add: mod_mult2_eq)
qed

lemma nat_be_bytes_be: "nat_be (bytes_be n v) = v mod 256 ^ n"
  by (simp add: nat_be_def bytes_be_def nat_le_bytes_le)

lemma nat_le_less: "nat_le bs < 256 ^ length bs"
proof (induction bs)
  case Nil
  show ?case by simp
next
  case (Cons b bs)
  have "unat b + 256 * nat_le bs < 256 * Suc (nat_le bs)"
    using byte_less [of b] by (simp del: byte_less)
  also have "\<dots> \<le> 256 * 256 ^ length bs"
    using Cons by (intro mult_le_mono2) simp
  finally show ?case by simp
qed

lemma bytes_le_nat_le: "bytes_le (length bs) (nat_le bs) = bs"
proof (induction bs)
  case Nil
  show ?case by simp
next
  case (Cons b bs)
  have "word_of_nat (unat b + 256 * nat_le bs) = (b :: byte)"
  proof -
    have "(word_of_nat (256 * nat_le bs) :: byte) = 0"
      by (simp add: word_of_nat_eq_0_iff del: of_nat_mult)
    then show ?thesis by simp
  qed
  moreover have "(unat b + 256 * nat_le bs) div 256 = nat_le bs"
    by simp
  ultimately show ?case using Cons by simp
qed

section \<open>Words and bytes\<close>

lemma word_of_nat_unat [simp]:
  "(word_of_nat (unat (b :: 'a::len word)) :: 'b::len word) = ucast b"
  by transfer simp

lemma ucast_mask_byte [simp]: "(ucast (v AND 0xFF :: 'a::len word) :: byte) = ucast v"
proof -
  have "v AND 0xFF = take_bit 8 v"
    by (simp add: take_bit_eq_mask mask_eq_exp_minus_1)
  then show ?thesis
    by (auto intro!: bit_word_eqI simp: bit_simps dest: bit_imp_le_length)
qed

lemma unat_drop_bit_div: "unat (drop_bit n v :: 'a::len word) = unat v div 2 ^ n"
  by (simp add: unat_drop_bit_eq drop_bit_eq_div [of n "unat v"])

lemma ucast_drop_bit_byte:
  "(ucast (drop_bit n v :: 'a::len word) :: byte) = word_of_nat (unat v div 2 ^ n)"
  by (metis unat_drop_bit_div word_of_nat_unat)

lemma unat_ucast_mod: "unat (ucast (v :: 'a::len word) :: 'b::len word) = unat v mod 2 ^ LENGTH('b)"
  by (simp add: unsigned_ucast_eq take_bit_eq_mod)

lemma ucast_ucast_small:
  assumes "unat (v :: 'a::len word) < 2 ^ LENGTH('b)"
  shows "(ucast (ucast v :: 'b::len word) :: 'a word) = v"
  using assms by (metis unat_ucast_mod mod_less word_of_nat_unat ucast_id)

lemma byte_top_bit: "((b :: byte) AND 0x80 = 0) \<longleftrightarrow> unat b < 128"
proof -
  have "(b AND 0x80 = 0) \<longleftrightarrow> \<not> bit b 7"
    using and_exp_eq_0_iff_not_bit [of b 7] by simp
  also have "bit b 7 \<longleftrightarrow> odd (unat b div 128)"
    using bit_unsigned_iff [where ?'a = nat, of b 7] by (simp add: bit_iff_odd)
  also have "odd (unat b div 128) \<longleftrightarrow> \<not> unat b < 128"
  proof (cases "unat b < 128")
    case True then show ?thesis by simp
  next
    case False
    then have "unat b div 128 = 1" using byte_less [of b] by (simp add: div_nat_eqI del: byte_less)
    with False show ?thesis by simp
  qed
  finally show ?thesis by simp
qed

lemma byte_clear_top: "unat ((b :: byte) AND NOT 0x80) = unat b mod 128"
proof -
  have "(NOT 0x80 :: byte) = mask 7" by (simp add: mask_eq_exp_minus_1)
  then have "b AND NOT 0x80 = take_bit 7 b" by (simp only: take_bit_eq_mask)
  then have "unat (b AND NOT 0x80) = take_bit 7 (unat b)" by (simp only: unsigned_take_bit_eq)
  then show ?thesis by (simp add: take_bit_eq_mod)
qed

lemma u16_set_top:
  assumes "unat (v :: u16) < 0x8000"
  shows "unat (v OR 0x8000) = unat v + 0x8000"
proof -
  have "\<not> bit v n \<or> \<not> bit (0x8000 :: u16) n" for n
  proof (cases "n = 15")
    case True
    have "\<not> bit v 15" using assms bit_unsigned_iff [where ?'a = nat, of v 15] by (simp add: bit_iff_odd)
    with True show ?thesis by simp
  next
    case False
    have "(0x8000::u16) = push_bit 15 1" by simp
    then have "\<not> bit (0x8000 :: u16) n"
      using False by (simp only: bit_push_bit_iff) auto
    then show ?thesis ..
  qed
  then have "v OR 0x8000 = v + 0x8000"
    by (simp add: disjunctive_add)
  with assms show ?thesis by (simp add: unat_word_ariths)
qed

section \<open>Lists as memory\<close>

text \<open>\<open>splice_at i bs xs\<close> is \<^verbatim>\<open>memcpy(xs + i, bs, length bs)\<close> for a copy that stays inside \<open>xs\<close>.\<close>

definition splice_at :: "nat \<Rightarrow> 'a list \<Rightarrow> 'a list \<Rightarrow> 'a list" where
  "splice_at i bs xs = take i xs @ bs @ drop (i + length bs) xs"

lemma length_splice_at [simp]:
  "i + length bs \<le> length xs \<Longrightarrow> length (splice_at i bs xs) = length xs"
  by (simp add: splice_at_def)

lemma splice_at_Nil [simp]: "splice_at i [] xs = xs"
  by (simp add: splice_at_def)

lemma splice_at_append:
  assumes "i + length bs + length cs \<le> length xs"
  shows "splice_at (i + length bs) cs (splice_at i bs xs) = splice_at i (bs @ cs) xs"
proof -
  have "length xs \<le> i \<Longrightarrow> bs = [] \<and> cs = []"
    using assms by (cases bs; cases cs) auto
  then show ?thesis
    using assms by (auto simp: splice_at_def min_def ac_simps)
qed

lemma take_splice_at [simp]:
  "i \<le> length xs \<Longrightarrow> take i (splice_at i bs xs) = take i xs"
  by (simp add: splice_at_def)

lemma nth_splice_at:
  assumes "i + length bs \<le> length xs" and "j < length xs"
  shows "splice_at i bs xs ! j =
    (if i \<le> j \<and> j < i + length bs then bs ! (j - i) else xs ! j)"
  using assms by (auto simp: splice_at_def nth_append min_def)

lemma drop_splice_at:
  "i + length bs \<le> length xs \<Longrightarrow> drop i (splice_at i bs xs) = bs @ drop (i + length bs) xs"
  by (simp add: splice_at_def)

lemma drop_take_splice_at:
  assumes "i + length bs \<le> n" and "n \<le> length xs"
  shows "drop i (take n (splice_at i bs xs)) = bs @ drop (i + length bs) (take n xs)"
  using assms by (simp add: drop_take drop_splice_at)

end
