(* ===== verification/Stream.thy ===== *)
theory Stream
  imports Prelude
begin

text \<open>
  The byte stream \<^verbatim>\<open>wStream\<close> of WinPR (\<^verbatim>\<open>winpr/include/winpr/stream.h\<close>,
  \<^verbatim>\<open>winpr/libwinpr/utils/stream.c\<close>), on which every protocol encoder and parser of the program
  is written: its accessors with their assertions, the checks parsers make before they read, and
  the growth of the buffer. The lemmas reduce every accessor to two operations on the byte list
  of the buffer, reading a prefix of the unread bytes and overwriting a segment, and state the
  contracts parsers and encoders are proved against.
\<close>

section \<open>State\<close>

text \<open>
  \<open>buffer\<close> is the memory the C buffer points to, \<open>pointer\<close> the distance of the C pointer from its
  start. The reference count and the owning pool are left to the pool that uses them.
  \<open>malloc_ok\<close> is the environment: which request sizes the allocator satisfies.
\<close>

record wStream =
  buffer :: "byte list"
  pointer :: nat
  s_length :: nat
  capacity :: nat
  isAllocatedStream :: bool
  isOwner :: bool
  malloc_ok :: "nat \<Rightarrow> bool"

type_synonym 'a sprog = "(wStream, 'a) prog"

section \<open>Position, length and capacity\<close>

definition Stream_GetRemainingCapacity :: "nat sprog" where
  "Stream_GetRemainingCapacity =
     seq (assert_that (\<lambda>s. pointer s \<le> capacity s))
         (gets (\<lambda>s. capacity s - pointer s))"

definition Stream_GetRemainingLength :: "nat sprog" where
  "Stream_GetRemainingLength =
     seq (assert_that (\<lambda>s. s_length s \<le> capacity s))
    (seq (assert_that (\<lambda>s. pointer s \<le> s_length s))
         (gets (\<lambda>s. s_length s - pointer s)))"

definition Stream_GetPosition :: "nat sprog" where
  "Stream_GetPosition = gets pointer"

definition Stream_SetPosition :: "nat \<Rightarrow> unit sprog" where
  "Stream_SetPosition p s =
     (if p > capacity s then Failed (s\<lparr>pointer := 0\<rparr>) else Done () (s\<lparr>pointer := p\<rparr>))"

definition Stream_SetLength :: "nat \<Rightarrow> unit sprog" where
  "Stream_SetLength l s =
     (if l > capacity s then Failed (s\<lparr>s_length := 0\<rparr>) else Done () (s\<lparr>s_length := l\<rparr>))"

definition Stream_SealLength :: "unit sprog" where
  "Stream_SealLength =
     seq (assert_that (\<lambda>s. pointer s \<le> capacity s))
         (modify (\<lambda>s. s\<lparr>s_length := pointer s\<rparr>))"

definition Stream_EnsureValidity :: "unit sprog" where
  "Stream_EnsureValidity =
     seq (assert_that (\<lambda>s. pointer s \<le> capacity s))
         (assert_that (\<lambda>s. s_length s \<le> capacity s))"

definition Stream_Seek :: "nat \<Rightarrow> unit sprog" where
  "Stream_Seek n =
     bind Stream_GetRemainingCapacity (\<lambda>r.
     seq (assert_that (\<lambda>_. r \<ge> n))
         (modify (\<lambda>s. s\<lparr>pointer := pointer s + n\<rparr>)))"

definition Stream_Rewind :: "nat \<Rightarrow> unit sprog" where
  "Stream_Rewind n =
     seq (assert_that (\<lambda>s. pointer s \<ge> n))
         (modify (\<lambda>s. s\<lparr>pointer := pointer s - n\<rparr>))"

text \<open>
  The checks a parser or an encoder makes on untrusted sizes, with the element size \<open>sz\<close> that
  the macro without \<^verbatim>\<open>OfSize\<close> sets to 1. The message they log is not part of the model.
\<close>

definition Stream_CheckAndLogRequiredLengthOfSize :: "nat \<Rightarrow> nat \<Rightarrow> unit sprog" where
  "Stream_CheckAndLogRequiredLengthOfSize nmemb sz =
     seq (assert_that (\<lambda>_. sz > 0))
    (bind Stream_GetRemainingLength (\<lambda>r.
     let actual = r div sz in
     if actual < nmemb then fail else ret ()))"

definition Stream_CheckAndLogRequiredLength :: "nat \<Rightarrow> unit sprog" where
  "Stream_CheckAndLogRequiredLength len = Stream_CheckAndLogRequiredLengthOfSize len 1"

definition Stream_CheckAndLogRequiredCapacityOfSize :: "nat \<Rightarrow> nat \<Rightarrow> unit sprog" where
  "Stream_CheckAndLogRequiredCapacityOfSize nmemb sz =
     seq (assert_that (\<lambda>_. sz \<noteq> 0))
    (bind Stream_GetRemainingCapacity (\<lambda>r.
     let actual = r div sz in
     if actual < nmemb then fail else ret ()))"

definition Stream_CheckAndLogRequiredCapacity :: "nat \<Rightarrow> unit sprog" where
  "Stream_CheckAndLogRequiredCapacity len = Stream_CheckAndLogRequiredCapacityOfSize len 1"

definition Stream_SafeSeek :: "nat \<Rightarrow> unit sprog" where
  "Stream_SafeSeek n = seq (Stream_CheckAndLogRequiredLength n) (Stream_Seek n)"

section \<open>Reading\<close>

text \<open>
  \<open>stream_fetch\<close> is what the typed readers share: the assertion on the remaining length, the
  \<open>n\<close> bytes at the pointer, and the optional seek.
\<close>

definition peek_bytes :: "nat \<Rightarrow> byte list sprog" where
  "peek_bytes n s =
     (if pointer s + n \<le> length (buffer s) then Done (take n (drop (pointer s) (buffer s))) s
      else Fault OutOfBounds)"

definition stream_fetch :: "nat \<Rightarrow> bool \<Rightarrow> byte list sprog" where
  "stream_fetch n seek =
     bind Stream_GetRemainingLength (\<lambda>r.
     seq (assert_that (\<lambda>_. r \<ge> n))
    (bind (peek_bytes n) (\<lambda>bs.
     seq (if seek then Stream_Seek n else ret ())
         (ret bs))))"

definition stream_read_u8 :: "bool \<Rightarrow> byte sprog" where
  "stream_read_u8 seek = bind (stream_fetch 1 seek) (\<lambda>b. ret (b ! 0))"

definition stream_read_i8 :: "bool \<Rightarrow> int sprog" where
  "stream_read_i8 seek = bind (stream_fetch 1 seek) (\<lambda>b. ret (sint (b ! 0)))"

definition stream_read_u16_le :: "bool \<Rightarrow> u16 sprog" where
  "stream_read_u16_le seek = bind (stream_fetch 2 seek) (\<lambda>b.
     ret (ucast (b ! 0) + push_bit 8 (ucast (b ! 1))))"

definition stream_read_u16_be :: "bool \<Rightarrow> u16 sprog" where
  "stream_read_u16_be seek = bind (stream_fetch 2 seek) (\<lambda>b.
     ret (push_bit 8 (ucast (b ! 0)) + ucast (b ! 1)))"

definition stream_read_u32_le :: "bool \<Rightarrow> u32 sprog" where
  "stream_read_u32_le seek = bind (stream_fetch 4 seek) (\<lambda>b.
     ret (push_bit 0 (ucast (b ! 0)) + push_bit 8 (ucast (b ! 1)) +
          push_bit 16 (ucast (b ! 2)) + push_bit 24 (ucast (b ! 3))))"

definition stream_read_u32_be :: "bool \<Rightarrow> u32 sprog" where
  "stream_read_u32_be seek = bind (stream_fetch 4 seek) (\<lambda>b.
     ret (push_bit 24 (ucast (b ! 0)) + push_bit 16 (ucast (b ! 1)) +
          push_bit 8 (ucast (b ! 2)) + push_bit 0 (ucast (b ! 3))))"

definition stream_read_u64_le :: "bool \<Rightarrow> u64 sprog" where
  "stream_read_u64_le seek = bind (stream_fetch 8 seek) (\<lambda>b.
     ret (push_bit 0 (ucast (b ! 0)) + push_bit 8 (ucast (b ! 1)) +
          push_bit 16 (ucast (b ! 2)) + push_bit 24 (ucast (b ! 3)) +
          push_bit 32 (ucast (b ! 4)) + push_bit 40 (ucast (b ! 5)) +
          push_bit 48 (ucast (b ! 6)) + push_bit 56 (ucast (b ! 7))))"

definition stream_read_u64_be :: "bool \<Rightarrow> u64 sprog" where
  "stream_read_u64_be seek = bind (stream_fetch 8 seek) (\<lambda>b.
     ret (push_bit 56 (ucast (b ! 0)) + push_bit 48 (ucast (b ! 1)) +
          push_bit 40 (ucast (b ! 2)) + push_bit 32 (ucast (b ! 3)) +
          push_bit 24 (ucast (b ! 4)) + push_bit 16 (ucast (b ! 5)) +
          push_bit 8 (ucast (b ! 6)) + push_bit 0 (ucast (b ! 7))))"

text \<open>
  The signed readers return the same bits read as two's complement, except that the two 16-bit
  ones are declared to return \<^verbatim>\<open>UINT16\<close>: their value is the unsigned one.
\<close>

definition stream_read_i16_le :: "bool \<Rightarrow> u16 sprog" where
  "stream_read_i16_le seek = bind (stream_fetch 2 seek) (\<lambda>b.
     ret (ucast (b ! 0) + push_bit 8 (ucast (b ! 1))))"

definition stream_read_i16_be :: "bool \<Rightarrow> u16 sprog" where
  "stream_read_i16_be seek = bind (stream_fetch 2 seek) (\<lambda>b.
     ret (push_bit 8 (ucast (b ! 0)) + ucast (b ! 1)))"

definition stream_read_i32_le :: "bool \<Rightarrow> int sprog" where
  "stream_read_i32_le seek = bind (stream_read_u32_le seek) (\<lambda>v. ret (sint v))"

definition stream_read_i32_be :: "bool \<Rightarrow> int sprog" where
  "stream_read_i32_be seek = bind (stream_read_u32_be seek) (\<lambda>v. ret (sint v))"

definition stream_read_i64_le :: "bool \<Rightarrow> int sprog" where
  "stream_read_i64_le seek = bind (stream_read_u64_le seek) (\<lambda>v. ret (sint v))"

definition stream_read_i64_be :: "bool \<Rightarrow> int sprog" where
  "stream_read_i64_be seek = bind (stream_read_u64_be seek) (\<lambda>v. ret (sint v))"

text \<open>The untyped copies check the capacity, not the length.\<close>

definition Stream_Peek :: "nat \<Rightarrow> byte list sprog" where
  "Stream_Peek n =
     bind Stream_GetRemainingCapacity (\<lambda>r.
     seq (assert_that (\<lambda>_. r \<ge> n)) (peek_bytes n))"

definition Stream_Read :: "nat \<Rightarrow> byte list sprog" where
  "Stream_Read n =
     bind Stream_GetRemainingCapacity (\<lambda>r.
     seq (assert_that (\<lambda>_. r \<ge> n))
    (bind (peek_bytes n) (\<lambda>bs.
     seq (Stream_Seek n) (ret bs))))"

section \<open>Writing\<close>

definition assert_capacity :: "nat \<Rightarrow> unit sprog" where
  "assert_capacity n =
     bind Stream_GetRemainingCapacity (\<lambda>r. assert_that (\<lambda>_. r \<ge> n))"

text \<open>\<open>poke b\<close> is \<^verbatim>\<open>*s->pointer++ = b\<close>; \<open>store bs\<close> is \<^verbatim>\<open>memcpy(s->pointer, bs, n)\<close>.\<close>

definition poke :: "byte \<Rightarrow> unit sprog" where
  "poke b s =
     (if pointer s < length (buffer s)
      then Done () (s\<lparr>buffer := (buffer s)[pointer s := b], pointer := pointer s + 1\<rparr>)
      else Fault OutOfBounds)"

definition store :: "byte list \<Rightarrow> unit sprog" where
  "store bs s =
     (if pointer s + length bs \<le> length (buffer s)
      then Done () (s\<lparr>buffer := splice_at (pointer s) bs (buffer s)\<rparr>)
      else Fault OutOfBounds)"

definition Stream_Write_UINT8 :: "byte \<Rightarrow> unit sprog" where
  "Stream_Write_UINT8 v = seq (assert_capacity 1) (poke v)"

definition Stream_Write_UINT16 :: "u16 \<Rightarrow> unit sprog" where
  "Stream_Write_UINT16 v =
     seq (assert_capacity 2)
    (seq (poke (ucast (v AND 0xFF)))
         (poke (ucast (drop_bit 8 v AND 0xFF))))"

definition Stream_Write_UINT16_BE :: "u16 \<Rightarrow> unit sprog" where
  "Stream_Write_UINT16_BE v =
     seq (assert_capacity 2)
    (seq (poke (ucast (drop_bit 8 v AND 0xFF)))
         (poke (ucast (v AND 0xFF))))"

definition Stream_Write_UINT24_BE :: "u32 \<Rightarrow> unit sprog" where
  "Stream_Write_UINT24_BE v =
     seq (assert_that (\<lambda>_. v \<le> 0x00FFFFFF))
    (seq (assert_capacity 3)
    (seq (poke (ucast (drop_bit 16 v AND 0xFF)))
    (seq (poke (ucast (drop_bit 8 v AND 0xFF)))
         (poke (ucast (v AND 0xFF))))))"

definition Stream_Write_UINT32 :: "u32 \<Rightarrow> unit sprog" where
  "Stream_Write_UINT32 v =
     seq (assert_capacity 4)
    (seq (poke (ucast (v AND 0xFF)))
    (seq (poke (ucast (drop_bit 8 v AND 0xFF)))
    (seq (poke (ucast (drop_bit 16 v AND 0xFF)))
         (poke (ucast (drop_bit 24 v AND 0xFF))))))"

definition Stream_Write_UINT32_BE :: "u32 \<Rightarrow> unit sprog" where
  "Stream_Write_UINT32_BE v =
     seq (assert_capacity 4)
    (seq (Stream_Write_UINT16_BE (ucast (drop_bit 16 v AND 0xFFFF)))
         (Stream_Write_UINT16_BE (ucast (v AND 0xFFFF))))"

definition Stream_Write_UINT64 :: "u64 \<Rightarrow> unit sprog" where
  "Stream_Write_UINT64 v =
     seq (assert_capacity 8)
    (seq (poke (ucast (v AND 0xFF)))
    (seq (poke (ucast (drop_bit 8 v AND 0xFF)))
    (seq (poke (ucast (drop_bit 16 v AND 0xFF)))
    (seq (poke (ucast (drop_bit 24 v AND 0xFF)))
    (seq (poke (ucast (drop_bit 32 v AND 0xFF)))
    (seq (poke (ucast (drop_bit 40 v AND 0xFF)))
    (seq (poke (ucast (drop_bit 48 v AND 0xFF)))
         (poke (ucast (drop_bit 56 v AND 0xFF))))))))))"

text \<open>The signed writers store the same bytes as the unsigned ones.\<close>

definition Stream_Write_INT16 :: "u16 \<Rightarrow> unit sprog" where
  "Stream_Write_INT16 v =
     seq (assert_capacity 2)
    (seq (poke (ucast (v AND 0xFF)))
         (poke (ucast (drop_bit 8 v AND 0xFF))))"

definition Stream_Write_INT32 :: "u32 \<Rightarrow> unit sprog" where
  "Stream_Write_INT32 v =
     seq (assert_capacity 4)
    (seq (poke (ucast (v AND 0xFF)))
    (seq (poke (ucast (drop_bit 8 v AND 0xFF)))
    (seq (poke (ucast (drop_bit 16 v AND 0xFF)))
         (poke (ucast (drop_bit 24 v AND 0xFF))))))"

definition Stream_Write :: "byte list \<Rightarrow> unit sprog" where
  "Stream_Write bs =
     (if length bs > 0
      then seq (assert_capacity (length bs))
          (seq (store bs) (Stream_Seek (length bs)))
      else ret ())"

definition Stream_Fill :: "byte \<Rightarrow> nat \<Rightarrow> unit sprog" where
  "Stream_Fill v n =
     seq (assert_capacity n) (seq (store (replicate n v)) (Stream_Seek n))"

definition Stream_Zero :: "nat \<Rightarrow> unit sprog" where
  "Stream_Zero n =
     seq (assert_capacity n) (seq (store (replicate n 0)) (Stream_Seek n))"

definition Stream_Clear :: "unit sprog" where
  "Stream_Clear = modify (\<lambda>s. s\<lparr>buffer := replicate (capacity s) 0\<rparr>)"

text \<open>\<open>Stream_Copy\<close> works on two streams, source first.\<close>

definition Stream_Copy :: "nat \<Rightarrow> (wStream \<times> wStream, unit) prog" where
  "Stream_Copy n p = (case p of (src, dst) \<Rightarrow>
     (case Stream_Peek n src of
        Done bs _ \<Rightarrow>
          (case seq (assert_capacity n) (seq (store bs) (Stream_Seek n)) dst of
             Done _ dst' \<Rightarrow>
               (case Stream_Seek n src of
                  Done _ src' \<Rightarrow> Done () (src', dst')
                | Failed src' \<Rightarrow> Failed (src', dst')
                | Fault e \<Rightarrow> Fault e)
           | Failed dst' \<Rightarrow> Failed (src, dst')
           | Fault e \<Rightarrow> Fault e)
      | Failed src' \<Rightarrow> Failed (src', dst)
      | Fault e \<Rightarrow> Fault e))"

fun write_units :: "u16 list \<Rightarrow> unit sprog" where
  "write_units [] = ret ()"
| "write_units (c # cs) = seq (Stream_Write_UINT16 c) (write_units cs)"

definition Stream_Write_UTF16_String :: "u16 list \<Rightarrow> unit sprog" where
  "Stream_Write_UTF16_String src =
     seq (Stream_CheckAndLogRequiredCapacityOfSize (length src) 2) (write_units src)"

fun read_units :: "nat \<Rightarrow> u16 list sprog" where
  "read_units 0 = ret []"
| "read_units (Suc n) = bind (stream_read_u16_le True) (\<lambda>c.
     bind (read_units n) (\<lambda>cs. ret (c # cs)))"

definition Stream_Read_UTF16_String :: "nat \<Rightarrow> u16 list sprog" where
  "Stream_Read_UTF16_String n =
     seq (Stream_CheckAndLogRequiredLengthOfSize n 2) (read_units n)"

section \<open>Allocation and growth\<close>

text \<open>
  The doubling loop of \<^verbatim>\<open>Stream_EnsureCapacity\<close> computes in \<^verbatim>\<open>size_t\<close>; \<open>None\<close> is a loop that never
  ends.
\<close>

partial_function (option) grow_capacity :: "nat \<Rightarrow> nat \<Rightarrow> nat option" where
  "grow_capacity c n =
     (let c' = wrap64 (c * 2) in if c' < n then grow_capacity c' n else Some c')"

text \<open>
  A stream that does not own its buffer copies it into fresh memory before the result of
  \<^verbatim>\<open>malloc\<close> is tested; one that owns it uses \<^verbatim>\<open>realloc\<close>, whose failure leaves the stream alone.
\<close>

definition Stream_EnsureCapacity :: "nat \<Rightarrow> unit sprog" where
  "Stream_EnsureCapacity n s =
     (if capacity s < n then
        (case grow_capacity (capacity s) n of
           None \<Rightarrow> Fault NonTermination
         | Some nc \<Rightarrow>
             if \<not> malloc_ok s nc then (if isOwner s then Failed s else Fault NullDereference)
             else
               (let position = pointer s;
                    s1 = s\<lparr>isOwner := True,
                           buffer := buffer s @ replicate (nc - capacity s) 0,
                           capacity := nc, s_length := nc\<rparr>
                in case Stream_SetPosition position s1 of
                     Done _ s2 \<Rightarrow> Done () s2
                   | Failed s2 \<Rightarrow> Done () s2
                   | Fault e \<Rightarrow> Fault e))
      else Done () s)"

definition Stream_EnsureRemainingCapacity :: "nat \<Rightarrow> unit sprog" where
  "Stream_EnsureRemainingCapacity n s =
     (if wrap64 (pointer s + n) > capacity s
      then Stream_EnsureCapacity (wrap64 (capacity s + n)) s
      else Done () s)"

text \<open>
  \<open>Stream_New mok buf n junk\<close>: a stream over the caller's buffer, or over \<open>n\<close> fresh bytes whose
  contents \<open>junk\<close> the allocator chooses. 56 is \<^verbatim>\<open>sizeof(wStream)\<close> on a 64-bit target.
\<close>

definition Stream_New ::
  "(nat \<Rightarrow> bool) \<Rightarrow> byte list option \<Rightarrow> nat \<Rightarrow> byte list \<Rightarrow> wStream option" where
  "Stream_New mok buf n junk =
     (if buf = None \<and> n = 0 then None
      else if \<not> mok 56 then None
      else case (case buf of Some b \<Rightarrow> Some b
                           | None \<Rightarrow> if mok n then Some (take n junk) else None) of
             None \<Rightarrow> None
           | Some b \<Rightarrow> Some \<lparr>buffer = b, pointer = 0, s_length = n, capacity = n,
                              isAllocatedStream = True, isOwner = True, malloc_ok = mok\<rparr>)"

definition Stream_StaticInit :: "(nat \<Rightarrow> bool) \<Rightarrow> byte list \<Rightarrow> nat \<Rightarrow> wStream" where
  "Stream_StaticInit mok b n =
     \<lparr>buffer = b, pointer = 0, s_length = n, capacity = n,
      isAllocatedStream = False, isOwner = False, malloc_ok = mok\<rparr>"

section \<open>Well-formed streams and the unread bytes\<close>

definition stream_ok :: "wStream \<Rightarrow> bool" where
  "stream_ok s \<longleftrightarrow>
     length (buffer s) = capacity s \<and> pointer s \<le> capacity s \<and>
     s_length s \<le> capacity s \<and> capacity s < 2 ^ 64"

definition read_ok :: "wStream \<Rightarrow> bool" where
  "read_ok s \<longleftrightarrow> stream_ok s \<and> pointer s \<le> s_length s"

definition rem :: "wStream \<Rightarrow> byte list" where
  "rem s = drop (pointer s) (take (s_length s) (buffer s))"

definition adv :: "nat \<Rightarrow> wStream \<Rightarrow> wStream" where
  "adv n s = s\<lparr>pointer := pointer s + n\<rparr>"

definition room :: "wStream \<Rightarrow> nat" where
  "room s = capacity s - pointer s"

definition put :: "byte list \<Rightarrow> wStream \<Rightarrow> wStream" where
  "put bs s = s\<lparr>buffer := splice_at (pointer s) bs (buffer s), pointer := pointer s + length bs\<rparr>"

lemma read_ok_stream_ok [simp]: "read_ok s \<Longrightarrow> stream_ok s"
  by (simp add: read_ok_def)

lemma length_rem: "read_ok s \<Longrightarrow> length (rem s) = s_length s - pointer s"
  by (simp add: rem_def read_ok_def stream_ok_def)

lemma rem_adv [simp]: "rem (adv n s) = drop n (rem s)"
  by (simp add: rem_def adv_def add.commute)

lemma adv_0 [simp]: "adv 0 s = s"
  by (simp add: adv_def)

lemma adv_adv [simp]: "adv m (adv n s) = adv (n + m) s"
  by (simp add: adv_def add.assoc)

lemma read_ok_adv [simp]: "read_ok s \<Longrightarrow> n \<le> length (rem s) \<Longrightarrow> read_ok (adv n s)"
  by (simp add: length_rem) (auto simp: read_ok_def stream_ok_def adv_def)

lemma take_rem: "take n (rem s) = take n (drop (pointer s) (buffer s))" if "pointer s + n \<le> s_length s"
  using that by (simp add: rem_def drop_take min_def)

subsection \<open>Readers on the unread bytes\<close>

named_theorems stream_read \<open>what a reader does, in terms of the unread bytes\<close>

lemma remaining_length [stream_read]:
  "read_ok s \<Longrightarrow> Stream_GetRemainingLength s = Done (length (rem s)) s"
  by (simp add: Stream_GetRemainingLength_def length_rem) (simp add: read_ok_def stream_ok_def)

lemma position_run: "Stream_GetPosition s = Done (pointer s) s"
  by (simp add: Stream_GetPosition_def)

lemma remaining_capacity: "stream_ok s \<Longrightarrow> Stream_GetRemainingCapacity s = Done (room s) s"
  by (simp add: Stream_GetRemainingCapacity_def room_def stream_ok_def)

lemma rem_le_room: "read_ok s \<Longrightarrow> length (rem s) \<le> room s"
  by (simp add: length_rem room_def) (auto simp: read_ok_def stream_ok_def)

lemma seek_adv: "stream_ok s \<Longrightarrow> n \<le> room s \<Longrightarrow> Stream_Seek n s = Done () (adv n s)"
  by (simp add: Stream_Seek_def remaining_capacity adv_def)

lemma seek_rem [stream_read]:
  "read_ok s \<Longrightarrow> n \<le> length (rem s) \<Longrightarrow> Stream_Seek n s = Done () (adv n s)"
  using rem_le_room by (intro seek_adv) fastforce+

lemma check_length [stream_read]:
  assumes "read_ok s"
  shows "Stream_CheckAndLogRequiredLength n s = (if length (rem s) < n then Failed s else Done () s)"
  using assms
  by (simp add: Stream_CheckAndLogRequiredLength_def Stream_CheckAndLogRequiredLengthOfSize_def
      remaining_length)

lemma check_length_of_size [stream_read]:
  assumes "read_ok s" and "0 < k"
  shows "Stream_CheckAndLogRequiredLengthOfSize n k s =
    (if length (rem s) < n * k then Failed s else Done () s)"
proof -
  have "length (rem s) div k < n \<longleftrightarrow> length (rem s) < n * k"
    using \<open>0 < k\<close> by (simp add: div_less_iff_less_mult)
  with assms show ?thesis
    by (simp add: Stream_CheckAndLogRequiredLengthOfSize_def remaining_length)
qed

lemma safe_seek [stream_read]:
  "read_ok s \<Longrightarrow>
     Stream_SafeSeek n s = (if length (rem s) < n then Failed s else Done () (adv n s))"
  by (simp add: Stream_SafeSeek_def stream_read)

lemma peek_bytes_rem [stream_read]:
  assumes "read_ok s" and "n \<le> length (rem s)"
  shows "peek_bytes n s = Done (take n (rem s)) s"
proof -
  have "pointer s + n \<le> s_length s" and "s_length s \<le> length (buffer s)"
    using assms by (auto simp: length_rem read_ok_def stream_ok_def)
  then show ?thesis by (simp add: peek_bytes_def take_rem)
qed

lemma fetch [stream_read]:
  assumes "read_ok s" and "n \<le> length (rem s)"
  shows "stream_fetch n seek s = Done (take n (rem s)) (if seek then adv n s else s)"
  using assms by (simp add: stream_fetch_def stream_read)

lemma read_bytes [stream_read]:
  assumes "read_ok s" and "n \<le> length (rem s)"
  shows "Stream_Read n s = Done (take n (rem s)) (adv n s)"
  using assms rem_le_room [of s]
  by (simp add: Stream_Read_def remaining_capacity peek_bytes_rem seek_adv)

lemma fetch_fault:
  assumes "read_ok s" and "length (rem s) < n"
  shows "stream_fetch n seek s = Fault AssertionFailed"
  using assms by (simp add: stream_fetch_def stream_read)

subsection \<open>Typed readers\<close>

lemma read_u8 [stream_read]:
  assumes "read_ok s" and "rem s = b # r"
  shows "stream_read_u8 seek s = Done b (if seek then adv 1 s else s)"
  using assms by (simp add: stream_read_u8_def stream_read)

lemma take_numeral_list:
  assumes "n \<le> length xs"
  shows "take n xs = map ((!) xs) [0..<n]"
  using assms by (intro nth_equalityI) simp_all

text \<open>
  Each typed reader returns the number its bytes denote in the byte order it is named for, and
  moves the pointer by its width when asked to.
\<close>

lemma read_u16_le [stream_read]:
  assumes "read_ok s" and "2 \<le> length (rem s)"
  shows "stream_read_u16_le seek s =
    Done (word_of_nat (nat_le (take 2 (rem s)))) (if seek then adv 2 s else s)"
  using assms
  by (simp add: stream_read_u16_le_def fetch take_numeral_list upt_conv_Cons
      push_bit_eq_mult nat_be_def algebra_simps)

lemma read_u16_be [stream_read]:
  assumes "read_ok s" and "2 \<le> length (rem s)"
  shows "stream_read_u16_be seek s =
    Done (word_of_nat (nat_be (take 2 (rem s)))) (if seek then adv 2 s else s)"
  using assms
  by (simp add: stream_read_u16_be_def fetch take_numeral_list upt_conv_Cons
      push_bit_eq_mult nat_be_def algebra_simps)

lemma read_u32_le [stream_read]:
  assumes "read_ok s" and "4 \<le> length (rem s)"
  shows "stream_read_u32_le seek s =
    Done (word_of_nat (nat_le (take 4 (rem s)))) (if seek then adv 4 s else s)"
  using assms
  by (simp add: stream_read_u32_le_def fetch take_numeral_list upt_conv_Cons
      push_bit_eq_mult nat_be_def algebra_simps)

lemma read_u32_be [stream_read]:
  assumes "read_ok s" and "4 \<le> length (rem s)"
  shows "stream_read_u32_be seek s =
    Done (word_of_nat (nat_be (take 4 (rem s)))) (if seek then adv 4 s else s)"
  using assms
  by (simp add: stream_read_u32_be_def fetch take_numeral_list upt_conv_Cons
      push_bit_eq_mult nat_be_def algebra_simps)

lemma read_u64_le [stream_read]:
  assumes "read_ok s" and "8 \<le> length (rem s)"
  shows "stream_read_u64_le seek s =
    Done (word_of_nat (nat_le (take 8 (rem s)))) (if seek then adv 8 s else s)"
  using assms
  by (simp add: stream_read_u64_le_def fetch take_numeral_list upt_conv_Cons
      push_bit_eq_mult nat_be_def algebra_simps)

lemma read_u64_be [stream_read]:
  assumes "read_ok s" and "8 \<le> length (rem s)"
  shows "stream_read_u64_be seek s =
    Done (word_of_nat (nat_be (take 8 (rem s)))) (if seek then adv 8 s else s)"
  using assms
  by (simp add: stream_read_u64_be_def fetch take_numeral_list upt_conv_Cons
      push_bit_eq_mult nat_be_def algebra_simps)

subsection \<open>Writers as overwritten segments\<close>

named_theorems stream_write \<open>what a writer does, as the segment it overwrites\<close>

lemma put_Nil [simp]: "put [] s = s"
  by (simp add: put_def)

lemma room_put [simp]: "room (put bs s) = room s - length bs"
  by (simp add: room_def put_def)

lemma pointer_put [simp]: "pointer (put bs s) = pointer s + length bs"
  by (simp add: put_def)

lemma put_fields [simp]:
  "capacity (put bs s) = capacity s" "s_length (put bs s) = s_length s"
  "isOwner (put bs s) = isOwner s" "malloc_ok (put bs s) = malloc_ok s"
  by (simp_all add: put_def)

lemma stream_ok_put [simp]:
  "stream_ok s \<Longrightarrow> length bs \<le> room s \<Longrightarrow> stream_ok (put bs s)"
  by (auto simp: stream_ok_def room_def put_def)

lemma put_put [simp]:
  assumes "stream_ok s" and "length xs + length ys \<le> room s"
  shows "put ys (put xs s) = put (xs @ ys) s"
proof -
  have "pointer s + length xs + length ys \<le> length (buffer s)"
    using assms by (auto simp: stream_ok_def room_def)
  then show ?thesis
    by (simp add: put_def splice_at_append add.assoc)
qed

lemma poke_put [stream_write]:
  assumes "stream_ok s" and "1 \<le> room s"
  shows "poke b s = Done () (put [b] s)"
  using assms
  by (auto simp: poke_def put_def stream_ok_def room_def splice_at_def upd_conv_take_nth_drop)

lemma store_put:
  assumes "stream_ok s" and "length bs \<le> room s"
  shows "seq (store bs) (Stream_Seek (length bs)) s = Done () (put bs s)"
proof -
  let ?t = "s\<lparr>buffer := splice_at (pointer s) bs (buffer s)\<rparr>"
  have st: "store bs s = Done () ?t"
    using assms by (auto simp: store_def stream_ok_def room_def)
  have "stream_ok ?t" and "length bs \<le> room ?t"
    using assms by (auto simp: stream_ok_def room_def)
  then have "Stream_Seek (length bs) ?t = Done () (adv (length bs) ?t)"
    by (rule seek_adv)
  with st show ?thesis by (simp add: adv_def put_def)
qed

lemma assert_capacity_run [stream_write]:
  "stream_ok s \<Longrightarrow> n \<le> room s \<Longrightarrow> assert_capacity n s = Done () s"
  by (simp add: assert_capacity_def remaining_capacity)

lemma assert_capacity_fault:
  "stream_ok s \<Longrightarrow> room s < n \<Longrightarrow> assert_capacity n s = Fault AssertionFailed"
  by (simp add: assert_capacity_def remaining_capacity)

lemma check_capacity [stream_write]:
  "stream_ok s \<Longrightarrow> Stream_CheckAndLogRequiredCapacity n s = (if room s < n then Failed s else Done () s)"
  by (simp add: Stream_CheckAndLogRequiredCapacity_def Stream_CheckAndLogRequiredCapacityOfSize_def
      remaining_capacity)

lemma write_u8 [stream_write]:
  "stream_ok s \<Longrightarrow> 1 \<le> room s \<Longrightarrow> Stream_Write_UINT8 v s = Done () (put [v] s)"
  by (simp add: Stream_Write_UINT8_def stream_write)

lemma bytes_le_map: "bytes_le n v = map (\<lambda>i. word_of_nat (v div 2 ^ (8 * i))) [0..<n]"
proof (induction n arbitrary: v)
  case 0
  show ?case by simp
next
  case (Suc n)
  have "v div 256 div 2 ^ (8 * i) = v div 2 ^ (8 * Suc i)" for i
    by (simp add: div_mult2_eq power_add)
  with Suc show ?case
    by (simp add: upt_conv_Cons map_Suc_upt [symmetric] del: upt_Suc)
qed

lemma bytes_le_numeral:
  "bytes_le 2 v = [word_of_nat v, word_of_nat (v div 2 ^ 8)]"
  "bytes_le 3 v = [word_of_nat v, word_of_nat (v div 2 ^ 8), word_of_nat (v div 2 ^ 16)]"
  "bytes_le 4 v = [word_of_nat v, word_of_nat (v div 2 ^ 8), word_of_nat (v div 2 ^ 16),
     word_of_nat (v div 2 ^ 24)]"
  "bytes_le 8 v = [word_of_nat v, word_of_nat (v div 2 ^ 8), word_of_nat (v div 2 ^ 16),
     word_of_nat (v div 2 ^ 24), word_of_nat (v div 2 ^ 32), word_of_nat (v div 2 ^ 40),
     word_of_nat (v div 2 ^ 48), word_of_nat (v div 2 ^ 56)]"
  by (simp_all add: bytes_le_map upt_conv_Cons)

lemma write_u16_le [stream_write]:
  "stream_ok s \<Longrightarrow> 2 \<le> room s \<Longrightarrow>
     Stream_Write_UINT16 v s = Done () (put (bytes_le 2 (unat v)) s)"
  by (simp add: Stream_Write_UINT16_def stream_write ucast_drop_bit_byte bytes_le_numeral)

lemma write_u16_be [stream_write]:
  "stream_ok s \<Longrightarrow> 2 \<le> room s \<Longrightarrow>
     Stream_Write_UINT16_BE v s = Done () (put (bytes_be 2 (unat v)) s)"
  by (simp add: Stream_Write_UINT16_BE_def stream_write ucast_drop_bit_byte bytes_be_def bytes_le_numeral)

lemma write_u24_be [stream_write]:
  "stream_ok s \<Longrightarrow> 3 \<le> room s \<Longrightarrow> unat v < 2 ^ 24 \<Longrightarrow>
     Stream_Write_UINT24_BE v s = Done () (put (bytes_be 3 (unat v)) s)"
  by (simp add: Stream_Write_UINT24_BE_def stream_write ucast_drop_bit_byte bytes_be_def
      word_le_nat_alt bytes_le_numeral)

lemma write_u32_le [stream_write]:
  "stream_ok s \<Longrightarrow> 4 \<le> room s \<Longrightarrow>
     Stream_Write_UINT32 v s = Done () (put (bytes_le 4 (unat v)) s)"
  by (simp add: Stream_Write_UINT32_def stream_write ucast_drop_bit_byte bytes_le_numeral)

lemma write_u64_le [stream_write]:
  "stream_ok s \<Longrightarrow> 8 \<le> room s \<Longrightarrow>
     Stream_Write_UINT64 v s = Done () (put (bytes_le 8 (unat v)) s)"
  by (simp add: Stream_Write_UINT64_def stream_write ucast_drop_bit_byte bytes_le_numeral)

lemma ucast_mask_u16: "(ucast (v AND 0xFFFF :: 'a::len word) :: u16) = ucast v"
proof -
  have "v AND 0xFFFF = take_bit 16 v"
    by (simp add: take_bit_eq_mask mask_eq_exp_minus_1)
  then show ?thesis
    by (auto intro!: bit_word_eqI simp: bit_simps dest: bit_imp_le_length)
qed

lemma write_u32_be [stream_write]:
  "stream_ok s \<Longrightarrow> 4 \<le> room s \<Longrightarrow>
     Stream_Write_UINT32_BE v s = Done () (put (bytes_be 4 (unat v)) s)"
proof -
  have hi: "unat (ucast (drop_bit 16 v AND 0xFFFF) :: u16) = unat v div 2 ^ 16"
  proof -
    have "unat v < 2 ^ 32" using unsigned_less [of v] by simp
    then have "unat v div 2 ^ 16 < 2 ^ 16" by (simp add: less_mult_imp_div_less)
    then show ?thesis
      by (simp add: ucast_mask_u16 unsigned_ucast_eq unat_drop_bit_div take_bit_nat_eq_self_iff)
  qed
  have lo: "unat (ucast (v AND 0xFFFF) :: u16) = unat v mod 2 ^ 16"
    by (simp add: ucast_mask_u16 unsigned_ucast_eq take_bit_eq_mod)
  have mod1: "(word_of_nat (n mod 65536) :: byte) = word_of_nat n" for n
    by (simp add: word_of_nat_eq_iff take_bit_eq_mod mod_mod_cancel)
  have mod2: "(word_of_nat (n mod 65536 div 256) :: byte) = word_of_nat (n div 256)" for n
    using mod_mult2_eq [of n 256 256] by (simp add: word_of_nat_eq_iff take_bit_eq_mod)
  assume "stream_ok s" "4 \<le> room s"
  then show ?thesis
    by (simp add: Stream_Write_UINT32_BE_def stream_write bytes_be_def hi lo mod1 mod2 bytes_le_numeral div_mult2_eq [symmetric])
qed

lemma write_bytes [stream_write]:
  "stream_ok s \<Longrightarrow> length bs \<le> room s \<Longrightarrow> Stream_Write bs s = Done () (put bs s)"
  using store_put [of s bs] by (cases "bs = []") (simp_all add: Stream_Write_def stream_write)

lemma write_zero [stream_write]:
  "stream_ok s \<Longrightarrow> n \<le> room s \<Longrightarrow> Stream_Zero n s = Done () (put (replicate n 0) s)"
  using store_put [of s "replicate n 0"] by (simp add: Stream_Zero_def stream_write)

section \<open>Contracts of parsers and encoders\<close>

text \<open>
  \<open>reader k rd k'\<close>: on every well-formed stream with at least \<open>k\<close> unread bytes, \<open>rd\<close> neither
  faults nor touches the stream except for moving the pointer forward inside the unread bytes,
  whether it succeeds or not; after success at least \<open>k'\<close> unread bytes are left. A parser of
  untrusted input satisfies \<open>reader 0 rd 0\<close>.
\<close>

definition reader :: "nat \<Rightarrow> 'a sprog \<Rightarrow> nat \<Rightarrow> bool" where
  "reader k rd k' \<longleftrightarrow>
     (\<forall>s. read_ok s \<and> k \<le> length (rem s) \<longrightarrow>
        (case rd s of
           Done _ s' \<Rightarrow> (\<exists>n \<le> length (rem s). s' = adv n s \<and> k' \<le> length (rem s'))
         | Failed s' \<Rightarrow> (\<exists>n \<le> length (rem s). s' = adv n s)
         | Fault _ \<Rightarrow> False))"

named_theorems reader_intros \<open>rules that derive the reader contract\<close>

lemma reader_ret [reader_intros]: "k' \<le> k \<Longrightarrow> reader k (ret x) k'"
  by (auto simp: reader_def intro!: exI [of _ 0])

lemma reader_fail [reader_intros]: "reader k fail k'"
  by (auto simp: reader_def intro!: exI [of _ 0])

lemma reader_require [reader_intros]: "k' \<le> k \<Longrightarrow> reader k (require c) k'"
  by (cases c) (auto simp: reader_def intro!: exI [of _ 0])

lemma reader_bind [reader_intros]:
  assumes m: "reader k m k1" and f: "\<And>x. reader k1 (f x) k2"
  shows "reader k (bind m f) k2"
  unfolding reader_def
proof (intro allI impI)
  fix s
  assume s: "read_ok s \<and> k \<le> length (rem s)"
  show "case bind m f s of
      Done _ s' \<Rightarrow> \<exists>n\<le>length (rem s). s' = adv n s \<and> k2 \<le> length (rem s')
    | Failed s' \<Rightarrow> \<exists>n\<le>length (rem s). s' = adv n s | Fault _ \<Rightarrow> False"
  proof (cases "m s")
    case (Done x s1)
    with m s obtain n where n: "n \<le> length (rem s)" "s1 = adv n s" "k1 \<le> length (rem s1)"
      by (fastforce simp: reader_def)
    with s have "read_ok s1" by simp
    with n(3) f [of x] have "case f x s1 of
        Done _ s' \<Rightarrow> \<exists>i\<le>length (rem s1). s' = adv i s1 \<and> k2 \<le> length (rem s')
      | Failed s' \<Rightarrow> \<exists>i\<le>length (rem s1). s' = adv i s1 | Fault _ \<Rightarrow> False"
      unfolding reader_def by blast
    moreover have "\<exists>j\<le>length (rem s). adv i s1 = adv j s" if "i \<le> length (rem s1)" for i
      using that n by (intro exI [of _ "n + i"]) simp
    ultimately show ?thesis
      using Done by (auto split: outcome.splits)
  next
    case (Failed s1)
    with m s show ?thesis by (fastforce simp: reader_def)
  next
    case (Fault e)
    with m s show ?thesis by (fastforce simp: reader_def)
  qed
qed

lemma reader_seq [reader_intros]:
  "reader k m k1 \<Longrightarrow> reader k1 n k2 \<Longrightarrow> reader k (seq m n) k2"
  unfolding seq_def by (rule reader_bind)

lemma reader_if [reader_intros]:
  "(c \<Longrightarrow> reader k m k') \<Longrightarrow> (\<not> c \<Longrightarrow> reader k n k') \<Longrightarrow> reader k (if c then m else n) k'"
  by simp

lemma reader_weaken:
  "reader k rd k' \<Longrightarrow> k \<le> j \<Longrightarrow> j' \<le> k' \<Longrightarrow> reader j rd j'"
  by (fastforce simp: reader_def split: outcome.splits)

lemma reader_sub: "reader 0 rd 0 \<Longrightarrow> reader k rd 0"
  by (rule reader_weaken [of 0 rd 0]) simp_all

lemma reader_advI:
  assumes "\<And>s. read_ok s \<Longrightarrow> n \<le> length (rem s) \<Longrightarrow> \<exists>x. rd s = Done x (adv n s)" and "n \<le> k"
  shows "reader k rd (k - n)"
  unfolding reader_def
proof (intro allI impI)
  fix s
  assume s: "read_ok s \<and> k \<le> length (rem s)"
  with assms obtain x where "rd s = Done x (adv n s)" by fastforce
  with s \<open>n \<le> k\<close> show "case rd s of
      Done _ s' \<Rightarrow> \<exists>i\<le>length (rem s). s' = adv i s \<and> k - n \<le> length (rem s')
    | Failed s' \<Rightarrow> \<exists>i\<le>length (rem s). s' = adv i s | Fault _ \<Rightarrow> False"
    by (auto intro!: exI [of _ n])
qed

lemma reader_check [reader_intros]: "reader k (Stream_CheckAndLogRequiredLength n) n"
  by (auto simp: reader_def check_length intro!: exI [of _ 0])

lemma reader_check_of_size [reader_intros]:
  "0 < c \<Longrightarrow> reader k (Stream_CheckAndLogRequiredLengthOfSize n c) (n * c)"
  by (auto simp: reader_def check_length_of_size intro!: exI [of _ 0])

lemma reader_seek [reader_intros]: "n \<le> k \<Longrightarrow> reader k (Stream_Seek n) (k - n)"
  by (rule reader_advI) (simp_all add: stream_read stream_read_u8_def)

lemma reader_safe_seek [reader_intros]: "reader k (Stream_SafeSeek n) (k - n)"
  by (auto simp: reader_def safe_seek intro: exI [of _ 0] exI [of _ n])

lemma reader_u8 [reader_intros]: "1 \<le> k \<Longrightarrow> reader k (stream_read_u8 True) (k - 1)"
  by (rule reader_advI) (simp_all add: stream_read stream_read_u8_def)

lemma reader_peek_u8 [reader_intros]: "1 \<le> k \<Longrightarrow> reader k (stream_read_u8 False) k"
  by (auto simp: reader_def stream_read_u8_def fetch intro!: exI [of _ 0])

lemma reader_u16_le [reader_intros]: "2 \<le> k \<Longrightarrow> reader k (stream_read_u16_le True) (k - 2)"
  by (rule reader_advI) (simp_all add: stream_read stream_read_u8_def)

lemma reader_u16_be [reader_intros]: "2 \<le> k \<Longrightarrow> reader k (stream_read_u16_be True) (k - 2)"
  by (rule reader_advI) (simp_all add: stream_read stream_read_u8_def)

lemma reader_u32_le [reader_intros]: "4 \<le> k \<Longrightarrow> reader k (stream_read_u32_le True) (k - 4)"
  by (rule reader_advI) (simp_all add: stream_read stream_read_u8_def)

lemma reader_u32_be [reader_intros]: "4 \<le> k \<Longrightarrow> reader k (stream_read_u32_be True) (k - 4)"
  by (rule reader_advI) (simp_all add: stream_read stream_read_u8_def)

lemma reader_u64_le [reader_intros]: "8 \<le> k \<Longrightarrow> reader k (stream_read_u64_le True) (k - 8)"
  by (rule reader_advI) (simp_all add: stream_read stream_read_u8_def)

lemma reader_remaining [reader_intros]: "reader k Stream_GetRemainingLength k"
  by (auto simp: reader_def remaining_length intro!: exI [of _ 0])

lemma reader_position [reader_intros]: "reader k Stream_GetPosition k"
  by (auto simp: reader_def Stream_GetPosition_def intro!: exI [of _ 0])

lemma reader_read [reader_intros]: "n \<le> k \<Longrightarrow> reader k (Stream_Read n) (k - n)"
  by (rule reader_advI) (simp_all add: read_bytes)

lemma reader_peek [reader_intros]: "n \<le> k \<Longrightarrow> reader k (Stream_Peek n) k"
  unfolding reader_def
proof (intro allI impI)
  fix s
  assume "n \<le> k" and s: "read_ok s \<and> k \<le> length (rem s)"
  then have "n \<le> length (rem s)" by simp
  moreover have "pointer s + n \<le> length (buffer s)" "n \<le> room s"
    using s \<open>n \<le> k\<close> by (auto simp: length_rem read_ok_def stream_ok_def room_def)
  ultimately show "case Stream_Peek n s of
      Done _ s' \<Rightarrow> \<exists>i\<le>length (rem s). s' = adv i s \<and> k \<le> length (rem s')
    | Failed s' \<Rightarrow> \<exists>i\<le>length (rem s). s' = adv i s | Fault _ \<Rightarrow> False"
    using s by (auto simp: Stream_Peek_def remaining_capacity peek_bytes_def intro!: exI [of _ 0])
qed

lemma reader_rem: "(\<And>s. read_ok s \<Longrightarrow> k \<le> length (rem s) \<Longrightarrow> rd s = Done (f s) s) \<Longrightarrow> reader k rd k"
  unfolding reader_def by (auto intro!: exI [of _ 0])

lemma reader_peek_bytes [reader_intros]: "n \<le> k \<Longrightarrow> reader k (peek_bytes n) k"
  by (rule reader_rem) (simp add: peek_bytes_rem)

lemma reader_case_option [reader_intros]:
  "reader k f k' \<Longrightarrow> (\<And>x. reader k (g x) k') \<Longrightarrow>
   reader k (case opt of None \<Rightarrow> f | Some x \<Rightarrow> g x) k'"
  by (cases opt) simp_all

lemma reader_case_prod [reader_intros]:
  "(\<And>a b. reader k (f a b) k') \<Longrightarrow> reader k (case p of (a, b) \<Rightarrow> f a b) k'"
  by (cases p) simp

lemma reader_or_value [reader_intros]:
  assumes "reader k m k'" shows "reader k (or_value v m) 0"
  unfolding reader_def
proof (intro allI impI)
  fix s
  assume "read_ok s \<and> k \<le> length (rem s)"
  with assms show "case or_value v m s of
      Done _ s' \<Rightarrow> \<exists>n\<le>length (rem s). s' = adv n s \<and> 0 \<le> length (rem s')
    | Failed s' \<Rightarrow> \<exists>n\<le>length (rem s). s' = adv n s | Fault _ \<Rightarrow> False"
    by (cases "m s") (fastforce simp: reader_def or_value_def)+
qed

text \<open>The same rules for a read in last position, after which nothing need be left.\<close>

lemma reader_end: "reader k rd k' \<Longrightarrow> reader k rd 0"
  by (rule reader_weaken [of k rd k']) simp_all

lemmas reader_last =
  reader_seek [THEN reader_end] reader_safe_seek [THEN reader_end] reader_u8 [THEN reader_end]
  reader_peek_u8 [THEN reader_end] reader_u16_le [THEN reader_end] reader_u16_be [THEN reader_end]
  reader_u32_le [THEN reader_end] reader_u32_be [THEN reader_end] reader_u64_le [THEN reader_end]
  reader_read [THEN reader_end] reader_check [THEN reader_end]

lemma reader_safe:
  assumes "reader 0 rd 0" and "read_ok s"
  shows "(\<exists>x n. n \<le> length (rem s) \<and> rd s = Done x (adv n s)) \<or>
         (\<exists>n. n \<le> length (rem s) \<and> rd s = Failed (adv n s))"
  using assms by (cases "rd s") (fastforce simp: reader_def)+

text \<open>Position after a read never leaves the sealed part of the buffer.\<close>

subsection \<open>Encodings that are written and read back\<close>

text \<open>
  The interface between the protocol encoders and the stream: \<open>enc v\<close> is the wire form of \<open>v\<close>,
  \<open>wr v\<close> stores exactly it when there is room, \<open>rd\<close> recovers \<open>v\<close> from a stream that starts
  with it and consumes nothing else.
\<close>

locale codec =
  fixes enc :: "'a \<Rightarrow> byte list"
    and wr :: "'a \<Rightarrow> unit sprog"
    and rd :: "'a sprog"
    and valid :: "'a \<Rightarrow> bool"
  assumes wr_put:
    "stream_ok s \<Longrightarrow> valid v \<Longrightarrow> length (enc v) \<le> room s \<Longrightarrow> wr v s = Done () (put (enc v) s)"
  and rd_enc:
    "read_ok s \<Longrightarrow> valid v \<Longrightarrow> rem s = enc v @ r \<Longrightarrow> rd s = Done v (adv (length (enc v)) s)"
begin

lemma read_back:
  assumes "stream_ok s" and "valid v" and "pointer s + length (enc v) \<le> s_length s"
  shows "\<exists>s'. wr v s = Done () s' \<and> pointer s' = pointer s + length (enc v) \<and>
    rd (s'\<lparr>pointer := pointer s\<rparr>) = Done v s'"
proof -
  let ?s = "put (enc v) s" and ?t = "(put (enc v) s)\<lparr>pointer := pointer s\<rparr>"
  have room: "length (enc v) \<le> room s"
    using assms by (auto simp: stream_ok_def room_def)
  then have wr: "wr v s = Done () ?s"
    using assms by (intro wr_put)
  have ok: "read_ok ?t"
    using assms room by (auto simp: read_ok_def stream_ok_def room_def put_def)
  have "rem ?t = enc v @ drop (pointer s + length (enc v)) (take (s_length s) (buffer s))"
    using assms by (simp add: rem_def put_def stream_ok_def drop_take_splice_at)
  from rd_enc [OF ok \<open>valid v\<close> this] have "rd ?t = Done v (adv (length (enc v)) ?t)" .
  moreover have "adv (length (enc v)) ?t = ?s"
    by (simp add: adv_def put_def)
  ultimately show ?thesis using wr by auto
qed

lemma unambiguous:
  assumes "valid v" and "valid w" and "enc v @ r = enc w @ r'" and "length (enc v @ r) < 2 ^ 64"
  shows "v = w \<and> r = r'"
proof -
  let ?n = "length (enc v @ r)"
  let ?s = "Stream_StaticInit (\<lambda>_. True) (enc v @ r) ?n"
  have ok: "read_ok ?s"
    using assms(4) by (simp add: read_ok_def stream_ok_def Stream_StaticInit_def)
  have "rem ?s = enc v @ r"
    by (simp add: rem_def Stream_StaticInit_def)
  then have "Done v (adv (length (enc v)) ?s) = Done w (adv (length (enc w)) ?s)"
    using rd_enc [OF ok \<open>valid v\<close>] rd_enc [OF ok \<open>valid w\<close>] assms(3) by metis
  then have "v = w" by simp
  with assms(3) show ?thesis by simp
qed

end

text \<open>Values written one after the other are read back one after the other.\<close>

fun write_all :: "('a \<Rightarrow> unit sprog) \<Rightarrow> 'a list \<Rightarrow> unit sprog" where
  "write_all wr [] = ret ()"
| "write_all wr (v # vs) = seq (wr v) (write_all wr vs)"

fun read_all :: "'a sprog \<Rightarrow> nat \<Rightarrow> 'a list sprog" where
  "read_all rd 0 = ret []"
| "read_all rd (Suc n) = bind rd (\<lambda>v. bind (read_all rd n) (\<lambda>vs. ret (v # vs)))"

context codec
begin

lemma write_all_put:
  assumes "stream_ok s" and "list_all valid vs" and "length (concat (map enc vs)) \<le> room s"
  shows "write_all wr vs s = Done () (put (concat (map enc vs)) s)"
  using assms
proof (induction vs arbitrary: s)
  case Nil
  then show ?case by simp
next
  case (Cons v vs)
  then have "wr v s = Done () (put (enc v) s)"
    by (intro wr_put) simp_all
  with Cons show ?case by simp
qed

lemma read_all_enc:
  assumes "read_ok s" and "list_all valid vs" and "rem s = concat (map enc vs) @ r"
  shows "read_all rd (length vs) s = Done vs (adv (length (concat (map enc vs))) s)"
  using assms
proof (induction vs arbitrary: s)
  case Nil
  then show ?case by simp
next
  case (Cons v vs)
  then have "rd s = Done v (adv (length (enc v)) s)"
    by (intro rd_enc [of s v "concat (map enc vs) @ r"]) simp_all
  with Cons show ?case by simp
qed

end

text \<open>
  Some writers return the number of bytes they wrote and have a function that predicts it. \<open>sized_codec\<close> is the contract of such a triple: the writer stores exactly the wire
  form and returns its size, and the predicted size is the size.
\<close>

locale sized_codec =
  fixes enc :: "'a \<Rightarrow> byte list"
    and wr :: "'a \<Rightarrow> nat sprog"
    and rd :: "'a sprog"
    and valid :: "'a \<Rightarrow> bool"
    and size_of :: "'a \<Rightarrow> nat"
  assumes wr_sized:
    "stream_ok s \<Longrightarrow> valid v \<Longrightarrow> length (enc v) \<le> room s \<Longrightarrow> wr v s = Done (size_of v) (put (enc v) s)"
  and size_enc: "valid v \<Longrightarrow> size_of v = length (enc v)"
  and rd_sized:
    "read_ok s \<Longrightarrow> valid v \<Longrightarrow> rem s = enc v @ r \<Longrightarrow> rd s = Done v (adv (length (enc v)) s)"

sublocale sized_codec \<subseteq> codec enc "\<lambda>v. seq (wr v) (ret ())" rd valid
  by unfold_locales (simp_all add: wr_sized rd_sized)

context sized_codec
begin

lemma sized_read_back:
  assumes "stream_ok s" and "valid v" and "pointer s + size_of v \<le> s_length s"
  shows "\<exists>s'. wr v s = Done (size_of v) s' \<and> pointer s' = pointer s + size_of v \<and>
    rd (s'\<lparr>pointer := pointer s\<rparr>) = Done v s'"
proof -
  have le: "pointer s + length (enc v) \<le> s_length s" using assms by (simp add: size_enc)
  then have "length (enc v) \<le> room s"
    using assms(1) by (auto simp: stream_ok_def room_def)
  with assms have wr: "wr v s = Done (size_of v) (put (enc v) s)"
    by (simp add: wr_sized)
  with read_back [OF assms(1,2) le] assms(2) show ?thesis by (auto simp: size_enc)
qed

end

text \<open>What a writer put into a stream is what a reader finds when the pointer is set back.\<close>

lemma put_rewound:
  assumes "stream_ok s" and "pointer s + length bs \<le> s_length s"
  shows "read_ok ((put bs s)\<lparr>pointer := pointer s\<rparr>)"
    and "\<exists>r. rem ((put bs s)\<lparr>pointer := pointer s\<rparr>) = bs @ r"
    and "length bs \<le> room s"
    and "adv (length bs) ((put bs s)\<lparr>pointer := pointer s\<rparr>) = put bs s"
proof -
  show room: "length bs \<le> room s"
    using assms by (auto simp: stream_ok_def room_def)
  show "read_ok ((put bs s)\<lparr>pointer := pointer s\<rparr>)"
    using assms room by (auto simp: read_ok_def stream_ok_def room_def put_def)
  show "\<exists>r. rem ((put bs s)\<lparr>pointer := pointer s\<rparr>) = bs @ r"
    using assms by (simp add: rem_def put_def stream_ok_def drop_take_splice_at)
  show "adv (length bs) ((put bs s)\<lparr>pointer := pointer s\<rparr>) = put bs s"
    by (simp add: adv_def put_def)
qed


section \<open>Growth\<close>

lemma grow_capacity_terminates:
  assumes "0 < c" and "n \<le> 2 ^ 63" and "c < n"
  shows "\<exists>k. grow_capacity c n = Some (c * 2 ^ k) \<and> n \<le> c * 2 ^ k \<and> c * 2 ^ k < 2 * n"
  using assms
proof (induction "n - c" arbitrary: c rule: less_induct)
  case less
  then have w: "wrap64 (c * 2) = c * 2" by simp
  show ?case
  proof (cases "c * 2 < n")
    case True
    with less obtain k where "grow_capacity (c * 2) n = Some (c * 2 * 2 ^ k)"
      "n \<le> c * 2 * 2 ^ k" "c * 2 * 2 ^ k < 2 * n"
      by (metis diff_less_mono2 mult_2_right less_add_same_cancel1 add_strict_increasing2 less_eq_nat.simps(1) trans_less_add1)
    with True w show ?thesis
      by (intro exI [of _ "Suc k"]) (simp add: grow_capacity.simps [of c n] mult.assoc)
  next
    case False
    with less.prems w show ?thesis
      by (intro exI [of _ 1]) (simp add: grow_capacity.simps [of c n])
  qed
qed

lemma wrap64_double: "wrap64 (wrap64 (c * 2) * 2 ^ k) = wrap64 (c * 2 ^ Suc k)"
  unfolding wrap64_def by (simp add: mod_mult_left_eq mult.assoc)

lemma grow_capacity_reaches:
  assumes "n \<le> wrap64 (c * 2 ^ Suc k)"
  shows "grow_capacity c n \<noteq> None"
  using assms
proof (induction k arbitrary: c)
  case 0
  then show ?case by (subst grow_capacity.simps) (simp add: Let_def mult.commute)
next
  case (Suc k)
  then have "n \<le> wrap64 (wrap64 (c * 2) * 2 ^ Suc k)" by (simp only: wrap64_double)
  from Suc.IH [OF this] show ?case by (subst grow_capacity.simps) (simp add: Let_def)
qed

lemma grow_capacity_stuck:
  assumes "\<forall>k. wrap64 (c * 2 ^ Suc k) < n"
  shows "grow_capacity c n = None"
proof (rule ccontr)
  assume "grow_capacity c n \<noteq> None"
  then obtain r where ret: "grow_capacity c n = Some r" by auto
  have "\<exists>k. n \<le> wrap64 (c * 2 ^ Suc k)"
  proof (rule grow_capacity.raw_induct [where P = "\<lambda>c n r. \<exists>k. n \<le> wrap64 (c * 2 ^ Suc k)", OF _ ret])
    fix f c n r
    assume IH: "\<And>c n r. f c n = Some r \<Longrightarrow> \<exists>k. n \<le> wrap64 (c * 2 ^ Suc k)"
      and eq: "(let c' = wrap64 (c * 2) in if c' < n then f c' n else Some c') = Some r"
    show "\<exists>k. n \<le> wrap64 (c * 2 ^ Suc k)"
    proof (cases "wrap64 (c * 2) < n")
      case True
      with eq have "f (wrap64 (c * 2)) n = Some r" by (simp add: Let_def)
      from IH [OF this] obtain k where "n \<le> wrap64 (wrap64 (c * 2) * 2 ^ Suc k)" by blast
      then show ?thesis unfolding wrap64_double by blast
    next
      case False
      then show ?thesis by (intro exI [of _ 0]) (simp add: mult.commute)
    qed
  qed
  then show False using assms not_le by blast
qed

lemma grow_capacity_None: "grow_capacity c n = None \<longleftrightarrow> (\<forall>k. wrap64 (c * 2 ^ Suc k) < n)"
  using grow_capacity_reaches [of n c] grow_capacity_stuck [of c n] not_le by blast

lemma ensure_capacity_faults: "Stream_EnsureCapacity n s = Fault NonTermination \<longleftrightarrow>
    capacity s < n \<and> grow_capacity (capacity s) n = None"
  by (simp add: Stream_EnsureCapacity_def Stream_SetPosition_def Let_def split: option.split)

lemma ensure_room [stream_write]:
  assumes "stream_ok s" and "n \<le> room s"
  shows "Stream_EnsureRemainingCapacity n s = Done () s"
proof -
  have "pointer s + n \<le> capacity s" and "capacity s < 2 ^ 64"
    using assms by (auto simp: stream_ok_def room_def)
  then show ?thesis by (simp add: Stream_EnsureRemainingCapacity_def)
qed

lemma ensure_grows:
  assumes ok: "stream_ok s" and small: "room s < n" and pos: "0 < capacity s" and lim: "capacity s + n \<le> 2 ^ 63"
  shows "\<exists>nc. capacity s + n \<le> nc \<and> nc < 2 * (capacity s + n) \<and>
    Stream_EnsureRemainingCapacity n s =
      (if malloc_ok s nc
       then Done () (s\<lparr>buffer := buffer s @ replicate (nc - capacity s) 0, capacity := nc, s_length := nc, isOwner := True\<rparr>)
       else if isOwner s then Failed s else Fault NullDereference)"
proof -
  obtain k where k: "grow_capacity (capacity s) (capacity s + n) = Some (capacity s * 2 ^ k)"
      "capacity s + n \<le> capacity s * 2 ^ k" "capacity s * 2 ^ k < 2 * (capacity s + n)"
    using grow_capacity_terminates [of "capacity s" "capacity s + n"] pos lim small by auto
  have "pointer s + n > capacity s" and le: "pointer s \<le> capacity s"
    using ok small by (auto simp: stream_ok_def room_def)
  then have gt: "wrap64 (pointer s + n) > capacity s"
    using lim by simp
  have grow: "capacity s < wrap64 (capacity s + n)" and wc: "wrap64 (capacity s + n) = capacity s + n"
    using lim small by simp_all
  show ?thesis
    using gt grow wc k le
    by (intro exI [of _ "capacity s * 2 ^ k"])
      (simp add: Stream_EnsureRemainingCapacity_def Stream_EnsureCapacity_def Stream_SetPosition_def)
qed

section \<open>The typed accessors are codecs\<close>

interpretation u16_le: codec "\<lambda>v. bytes_le 2 (unat v)" Stream_Write_UINT16 "stream_read_u16_le True" "\<lambda>_. True"
  by unfold_locales (simp_all add: stream_write stream_read nat_le_bytes_le)

interpretation u16_be: codec "\<lambda>v. bytes_be 2 (unat v)" Stream_Write_UINT16_BE "stream_read_u16_be True" "\<lambda>_. True"
  by unfold_locales (simp_all add: stream_write stream_read nat_be_bytes_be)

interpretation u32_le: codec "\<lambda>v. bytes_le 4 (unat v)" Stream_Write_UINT32 "stream_read_u32_le True" "\<lambda>_. True"
  by unfold_locales (simp_all add: stream_write stream_read nat_le_bytes_le)

interpretation u32_be: codec "\<lambda>v. bytes_be 4 (unat v)" Stream_Write_UINT32_BE "stream_read_u32_be True" "\<lambda>_. True"
  by unfold_locales (simp_all add: stream_write stream_read nat_be_bytes_be)

interpretation u64_le: codec "\<lambda>v. bytes_le 8 (unat v)" Stream_Write_UINT64 "stream_read_u64_le True" "\<lambda>_. True"
  by unfold_locales (simp_all add: stream_write stream_read nat_le_bytes_le)

section \<open>Properties\<close>

text \<open>
  C15. Every typed writer and the reader of the same width and byte order are inverse: on a
  well-formed stream with eight bytes left before its length, what is written is what is read
  back, from the same position to the same position, for every 16-, 32- and 64-bit value.
\<close>

theorem typed_access_roundtrip:
  assumes "stream_ok s" and "pointer s + 8 \<le> s_length s"
  shows "(\<exists>s'. Stream_Write_UINT16 a s = Done () s' \<and>
              stream_read_u16_le True (s'\<lparr>pointer := pointer s\<rparr>) = Done a s') \<and>
         (\<exists>s'. Stream_Write_UINT16_BE a s = Done () s' \<and>
              stream_read_u16_be True (s'\<lparr>pointer := pointer s\<rparr>) = Done a s') \<and>
         (\<exists>s'. Stream_Write_UINT32 b s = Done () s' \<and>
              stream_read_u32_le True (s'\<lparr>pointer := pointer s\<rparr>) = Done b s') \<and>
         (\<exists>s'. Stream_Write_UINT32_BE b s = Done () s' \<and>
              stream_read_u32_be True (s'\<lparr>pointer := pointer s\<rparr>) = Done b s') \<and>
         (\<exists>s'. Stream_Write_UINT64 c s = Done () s' \<and>
              stream_read_u64_le True (s'\<lparr>pointer := pointer s\<rparr>) = Done c s')"
  using u16_le.read_back [of s a] u16_be.read_back [of s a] u32_le.read_back [of s b]
    u32_be.read_back [of s b] u64_le.read_back [of s c] assms
  by auto

definition demo_stream :: "nat \<Rightarrow> wStream" where
  "demo_stream n = Stream_StaticInit (\<lambda>_. True) (replicate n 0) n"

lemma demo_stream_ok [simp]:
  assumes "n < 2 ^ 64"
  shows "stream_ok (demo_stream n)" "pointer (demo_stream n) = 0" "s_length (demo_stream n) = n"
    "capacity (demo_stream n) = n" "room (demo_stream n) = n" "malloc_ok (demo_stream n) k"
    "isOwner (demo_stream n) = False"
  using assms by (simp_all add: demo_stream_def Stream_StaticInit_def stream_ok_def room_def)

theorem typed_access_roundtrip_witness:
  "stream_ok (demo_stream 8) \<and> pointer (demo_stream 8) + 8 \<le> s_length (demo_stream 8) \<and>
   (\<exists>s'. Stream_Write_UINT32_BE 0xDEADBEEF (demo_stream 8) = Done () s' \<and>
      stream_read_u32_be True (s'\<lparr>pointer := 0\<rparr>) = Done 0xDEADBEEF s')"
  using typed_access_roundtrip [of "demo_stream 8" _ "0xDEADBEEF"] by simp

text \<open>
  C17. \<^verbatim>\<open>Stream_EnsureRemainingCapacity\<close> makes room. On a well-formed stream whose capacity is not
  zero, with a total of at most \<open>2 ^ 63\<close>, it always returns or fails as follows. With room for \<open>n\<close> more
  bytes nothing changes. Otherwise a size \<open>nc\<close> is requested that holds the old capacity and \<open>n\<close> more
  bytes and is less than twice that. When it is granted, the bytes and the pointer are kept, the new
  tail is zero, and both the capacity and the length are \<open>nc\<close>: the stream is well-formed with room for
  \<open>n\<close> bytes. When it is refused, a stream that owns its buffer is left as it was and failure is
  reported; one that does not copies its bytes through the null pointer.
\<close>

theorem ensure_remaining_capacity:
  assumes "stream_ok s" and "0 < capacity s" and "capacity s + n \<le> 2 ^ 63"
  shows "\<exists>nc s'. capacity s + n \<le> nc \<and> nc < 2 * (capacity s + n) \<and>
    s' = s\<lparr>buffer := buffer s @ replicate (nc - capacity s) 0, capacity := nc, s_length := nc, isOwner := True\<rparr> \<and>
    stream_ok s' \<and> n \<le> room s' \<and>
    Stream_EnsureRemainingCapacity n s =
      (if n \<le> room s then Done () s
       else if malloc_ok s nc then Done () s'
       else if isOwner s then Failed s else Fault NullDereference)"
proof -
  obtain nc where nc: "capacity s + n \<le> nc" "nc < 2 * (capacity s + n)"
      "Stream_EnsureRemainingCapacity n s =
      (if n \<le> room s then Done () s
       else if malloc_ok s nc
       then Done () (s\<lparr>buffer := buffer s @ replicate (nc - capacity s) 0, capacity := nc, s_length := nc, isOwner := True\<rparr>)
       else if isOwner s then Failed s else Fault NullDereference)"
  proof (cases "n \<le> room s")
    case True
    with assms show ?thesis by (intro that [of "capacity s + n"]) (simp_all add: ensure_room)
  next
    case False
    then show ?thesis using ensure_grows [OF assms(1) _ assms(2,3)] that by auto
  qed
  let ?s = "s\<lparr>buffer := buffer s @ replicate (nc - capacity s) 0, capacity := nc, s_length := nc, isOwner := True\<rparr>"
  have "stream_ok ?s" "n \<le> room ?s" using assms nc(1,2) by (auto simp: stream_ok_def room_def)
  with nc show ?thesis by blast
qed

theorem ensure_remaining_capacity_witness:
  "(\<exists>s'. Stream_EnsureRemainingCapacity 5 (demo_stream 2) = Done () s' \<and> stream_ok s' \<and> 5 \<le> room s' \<and>
     s_length s' = capacity s') \<and>
   Stream_EnsureRemainingCapacity 5 ((demo_stream 2)\<lparr>malloc_ok := (\<lambda>_. False)\<rparr>) = Fault NullDereference \<and>
   (let s = (demo_stream 2)\<lparr>malloc_ok := (\<lambda>_. False), isOwner := True\<rparr>
    in Stream_EnsureRemainingCapacity 5 s = Failed s)"
proof -
  note cap = ensure_remaining_capacity [where n = 5]
  have ok: "stream_ok ((demo_stream 2)\<lparr>malloc_ok := m\<rparr>)" "stream_ok ((demo_stream 2)\<lparr>malloc_ok := m, isOwner := b\<rparr>)"
      "room ((demo_stream 2)\<lparr>malloc_ok := m\<rparr>) = 2" "room ((demo_stream 2)\<lparr>malloc_ok := m, isOwner := b\<rparr>) = 2" for m b
    by (simp_all add: demo_stream_def Stream_StaticInit_def stream_ok_def room_def)
  have "Stream_EnsureRemainingCapacity 5 ((demo_stream 2)\<lparr>malloc_ok := (\<lambda>_. False)\<rparr>) = Fault NullDereference"
    using cap [OF ok(1) [where m = "\<lambda>_. False"]] ok by auto
  moreover have "let s = (demo_stream 2)\<lparr>malloc_ok := (\<lambda>_. False), isOwner := True\<rparr>
      in Stream_EnsureRemainingCapacity 5 s = Failed s"
    using cap [OF ok(2) [where m = "\<lambda>_. False" and b = True]] ok by auto
  moreover have "\<exists>s'. Stream_EnsureRemainingCapacity 5 (demo_stream 2) = Done () s' \<and> stream_ok s' \<and> 5 \<le> room s' \<and>
      s_length s' = capacity s'"
    using cap [of "demo_stream 2"] by auto
  ultimately show ?thesis by blast
qed

text \<open>
  C36. \<^verbatim>\<open>Stream_EnsureCapacity\<close> never returns exactly when the request exceeds the capacity and no
  doubling of the capacity, computed in 64 bits, reaches it. This is so for every positive request on
  a stream of capacity zero, whose doubling loop stays at zero.
\<close>

theorem ensure_capacity_diverges_iff:
  "(Stream_EnsureCapacity n s = Fault NonTermination \<longleftrightarrow>
      capacity s < n \<and> (\<forall>k. wrap64 (capacity s * 2 ^ Suc k) < n)) \<and>
   (capacity s = 0 \<and> 0 < n \<longrightarrow> Stream_EnsureCapacity n s = Fault NonTermination)"
  unfolding ensure_capacity_faults grow_capacity_None by (simp add: wrap64_def)

theorem ensure_capacity_diverges_iff_witness:
  "capacity (demo_stream 0) = 0 \<and> Stream_EnsureCapacity 1 (demo_stream 0) = Fault NonTermination \<and>
   Stream_EnsureCapacity 9 (demo_stream 2) \<noteq> Fault NonTermination"
proof -
  have "\<not> (\<forall>k. wrap64 (2 * 2 ^ Suc k) < 9)" by (rule notI, drule spec [of _ 2]) (simp add: wrap64_def)
  then show ?thesis
    using ensure_capacity_diverges_iff [of 1 "demo_stream 0"] ensure_capacity_diverges_iff [of 9 "demo_stream 2"] by simp
qed

end
