(* ===== verification/Per.thy ===== *)
theory Per
  imports Stream
begin

text \<open>
  The aligned PER subset of \<^verbatim>\<open>libfreerdp/crypto/per.c\<close>, with which the T.125 and T.124 PDUs of
  the connection sequence are encoded: length determinants, choices, selections, set counts,
  padding, integers, enumerations, object identifiers, octet and numeric strings. Shown here:
  every reader is safe on arbitrary input, every pair of writer and reader is a codec on the
  values it covers, and what happens to the values it does not cover.
\<close>

section \<open>Operations\<close>

definition per_read_length :: "u16 sprog" where
  "per_read_length =
     seq (Stream_CheckAndLogRequiredLength 1)
    (bind (stream_read_u8 True) (\<lambda>byte.
     if byte AND 0x80 \<noteq> 0 then
       seq (Stream_CheckAndLogRequiredLength 1)
      (let byte1 = byte AND NOT 0x80;
           len = push_bit 8 (ucast byte1) in
       bind (stream_read_u8 True) (\<lambda>byte2. ret (len + ucast byte2)))
     else ret (ucast byte)))"

definition per_write_length :: "u16 \<Rightarrow> unit sprog" where
  "per_write_length len =
     (if len > 0x7F then
        seq (Stream_EnsureRemainingCapacity 2) (Stream_Write_UINT16_BE (len OR 0x8000))
      else
        seq (Stream_EnsureRemainingCapacity 1) (Stream_Write_UINT8 (ucast len)))"

definition per_read_choice :: "byte sprog" where
  "per_read_choice = seq (Stream_CheckAndLogRequiredLength 1) (stream_read_u8 True)"

definition per_write_choice :: "byte \<Rightarrow> unit sprog" where
  "per_write_choice choice =
     seq (Stream_EnsureRemainingCapacity 1) (Stream_Write_UINT8 choice)"

definition per_read_selection :: "byte sprog" where
  "per_read_selection = seq (Stream_CheckAndLogRequiredLength 1) (stream_read_u8 True)"

definition per_write_selection :: "byte \<Rightarrow> unit sprog" where
  "per_write_selection selection =
     seq (Stream_EnsureRemainingCapacity 1) (Stream_Write_UINT8 selection)"

definition per_read_number_of_sets :: "byte sprog" where
  "per_read_number_of_sets = seq (Stream_CheckAndLogRequiredLength 1) (stream_read_u8 True)"

definition per_write_number_of_sets :: "byte \<Rightarrow> unit sprog" where
  "per_write_number_of_sets number =
     seq (Stream_EnsureRemainingCapacity 1) (Stream_Write_UINT8 number)"

definition per_read_padding :: "u16 \<Rightarrow> unit sprog" where
  "per_read_padding len =
     seq (Stream_CheckAndLogRequiredLength (unat len)) (Stream_Seek (unat len))"

definition per_write_padding :: "u16 \<Rightarrow> unit sprog" where
  "per_write_padding len =
     seq (Stream_EnsureRemainingCapacity (unat len)) (Stream_Zero (unat len))"

definition per_read_integer :: "u32 sprog" where
  "per_read_integer =
     bind per_read_length (\<lambda>len.
     seq (Stream_CheckAndLogRequiredLength (unat len))
    (if len = 0 then ret 0
     else if len = 1 then bind (stream_read_u8 True) (\<lambda>b. ret (ucast b))
     else if len = 2 then bind (stream_read_u16_be True) (\<lambda>w. ret (ucast w))
     else fail))"

definition per_write_integer :: "u32 \<Rightarrow> unit sprog" where
  "per_write_integer integer =
     (if integer \<le> 0xFF then
        seq (per_write_length 1)
       (seq (Stream_EnsureRemainingCapacity 1) (Stream_Write_UINT8 (ucast integer)))
      else if integer \<le> 0xFFFF then
        seq (per_write_length 2)
       (seq (Stream_EnsureRemainingCapacity 2) (Stream_Write_UINT16_BE (ucast integer)))
      else
        seq (per_write_length 4)
       (seq (Stream_EnsureRemainingCapacity 4) (Stream_Write_UINT32_BE integer)))"

definition per_read_integer16 :: "u16 \<Rightarrow> u16 sprog" where
  "per_read_integer16 mn =
     seq (Stream_CheckAndLogRequiredLength 2)
    (bind (stream_read_u16_be True) (\<lambda>integer.
     if unat integer > 0xFFFF - unat mn then fail else ret (integer + mn)))"

definition per_write_integer16 :: "u16 \<Rightarrow> u16 \<Rightarrow> unit sprog" where
  "per_write_integer16 mn integer =
     seq (Stream_EnsureRemainingCapacity 2) (Stream_Write_UINT16_BE (integer - mn))"

definition per_read_enumerated :: "byte \<Rightarrow> byte sprog" where
  "per_read_enumerated count =
     seq (Stream_CheckAndLogRequiredLength 1)
    (bind (stream_read_u8 True) (\<lambda>enumerated.
     if unat enumerated + 1 > unat count then fail else ret enumerated))"

definition per_write_enumerated :: "byte \<Rightarrow> byte \<Rightarrow> unit sprog" where
  "per_write_enumerated count enumerated =
     seq (Stream_EnsureRemainingCapacity 1) (Stream_Write_UINT8 enumerated)"

definition per_check_oid_and_log_mismatch :: "byte list \<Rightarrow> byte list \<Rightarrow> unit sprog" where
  "per_check_oid_and_log_mismatch got expect = (if got = expect then ret () else fail)"

text \<open>An object identifier has six components; the first two share a byte.\<close>

definition per_read_object_identifier :: "byte list \<Rightarrow> unit sprog" where
  "per_read_object_identifier oid =
     bind per_read_length (\<lambda>len.
     if len \<noteq> 5 then fail else
     seq (Stream_CheckAndLogRequiredLength (unat len))
    (bind (stream_read_u8 True) (\<lambda>t12.
     bind (stream_read_u8 True) (\<lambda>o2.
     bind (stream_read_u8 True) (\<lambda>o3.
     bind (stream_read_u8 True) (\<lambda>o4.
     bind (stream_read_u8 True) (\<lambda>o5.
     per_check_oid_and_log_mismatch [t12 div 40, t12 mod 40, o2, o3, o4, o5] oid)))))))"

definition per_write_object_identifier :: "byte list \<Rightarrow> unit sprog" where
  "per_write_object_identifier oid =
     (let t12 = (oid ! 0) * 40 + oid ! 1 in
      seq (Stream_EnsureRemainingCapacity 6)
     (seq (Stream_Write_UINT8 5)
     (seq (Stream_Write_UINT8 t12)
     (seq (Stream_Write_UINT8 (oid ! 2))
     (seq (Stream_Write_UINT8 (oid ! 3))
     (seq (Stream_Write_UINT8 (oid ! 4))
          (Stream_Write_UINT8 (oid ! 5))))))))"

text \<open>
  \<open>per_write_string\<close> and the loops of the string writers store one byte after the other. In
  \<open>per_read_octet_string\<close> the comparison of lengths is made in \<^verbatim>\<open>int\<close>. A string shorter than the
  length given for it is read outside its memory.
\<close>

fun per_write_string :: "byte list \<Rightarrow> unit sprog" where
  "per_write_string [] = ret ()"
| "per_write_string (b # bs) = seq (Stream_Write_UINT8 b) (per_write_string bs)"

definition per_read_octet_string :: "byte list \<Rightarrow> u16 \<Rightarrow> u16 \<Rightarrow> unit sprog" where
  "per_read_octet_string oct_str len mn =
     bind per_read_length (\<lambda>mlength.
     if unat mlength + unat mn \<noteq> unat len then fail else
     seq (Stream_CheckAndLogRequiredLength (unat len))
    (bind (Stream_Peek (unat len)) (\<lambda>a_oct_str.
     seq (Stream_Seek (unat len))
    (if length oct_str < unat len then fault OutOfBounds
     else per_check_oid_and_log_mismatch a_oct_str (take (unat len) oct_str)))))"

definition per_write_octet_string :: "byte list \<Rightarrow> u16 \<Rightarrow> u16 \<Rightarrow> unit sprog" where
  "per_write_octet_string oct_str len mn =
     (let mlength = (if len \<ge> mn then len - mn else mn) in
      seq (per_write_length mlength)
     (seq (Stream_EnsureRemainingCapacity (unat len))
     (if length oct_str < unat len then fault OutOfBounds
      else per_write_string (take (unat len) oct_str))))"

definition per_read_numeric_string :: "u16 \<Rightarrow> unit sprog" where
  "per_read_numeric_string mn =
     bind per_read_length (\<lambda>mlength.
     let len = (unat mlength + unat mn + 1) div 2 in
     seq (Stream_CheckAndLogRequiredLength len) (Stream_Seek len))"

text \<open>
  The loop of \<^verbatim>\<open>per_write_numeric_string\<close> packs two digits per byte; the last digit of a string
  of odd length is paired with \<^verbatim>\<open>'0'\<close>. The subtraction is made in \<^verbatim>\<open>int\<close>, and \<^verbatim>\<open>%\<close> rounds towards
  zero, so a character below \<^verbatim>\<open>'0'\<close> leaves a negative remainder that the store truncates. The
  index is a \<^verbatim>\<open>UINT16\<close> and wraps; the recursion ends because every round stores a byte.
\<close>

definition per_digit :: "byte \<Rightarrow> byte" where
  "per_digit c =
     (let d = int (unat c) - 0x30 in word_of_int (sgn d * (\<bar>d\<bar> mod 10)))"

lemma write_u8_progress:
  "Stream_Write_UINT8 v s = Done x s' \<Longrightarrow> length (buffer s') - pointer s' < length (buffer s) - pointer s"
  by (auto simp: Stream_Write_UINT8_def seq_def bind_def poke_def assert_capacity_def
      Stream_GetRemainingCapacity_def assert_that_def gets_def split: outcome.splits if_splits)

function per_numeric_loop :: "byte list \<Rightarrow> u16 \<Rightarrow> u16 \<Rightarrow> unit sprog" where
  "per_numeric_loop num_str len i s =
     (if i < len then
        (let c1 = per_digit (num_str ! unat i);
             c2 = per_digit (if unat i + 1 < unat len then num_str ! (unat i + 1) else 0x30) in
         case Stream_Write_UINT8 (push_bit 4 c1 OR c2) s of
           Done _ s' \<Rightarrow> per_numeric_loop num_str len (i + 2) s'
         | Failed s' \<Rightarrow> Failed s'
         | Fault e \<Rightarrow> Fault e)
      else Done () s)"
  by pat_completeness auto
termination
  by (relation "measure (\<lambda>(_, _, _, s). length (buffer s) - pointer s)")
    (auto dest: write_u8_progress)

declare per_numeric_loop.simps [simp del]

definition per_write_numeric_string :: "byte list \<Rightarrow> u16 \<Rightarrow> u16 \<Rightarrow> unit sprog" where
  "per_write_numeric_string num_str len mn =
     (let mlength = (if len \<ge> mn then len - mn else mn) in
      seq (per_write_length mlength)
     (seq (Stream_EnsureRemainingCapacity (unat len))
     (if length num_str < unat len then fault OutOfBounds
      else per_numeric_loop num_str len 0)))"

section \<open>Every reader is safe\<close>

lemma reader_per_length [reader_intros]: "reader k per_read_length 0"
  unfolding per_read_length_def Let_def
  by (rule reader_intros reader_last | simp)+

lemma reader_per_choice [reader_intros]: "reader k per_read_choice 0"
  unfolding per_read_choice_def by (rule reader_intros reader_last | simp)+

lemma reader_per_selection [reader_intros]: "reader k per_read_selection 0"
  unfolding per_read_selection_def by (rule reader_intros reader_last | simp)+

lemma reader_per_number_of_sets [reader_intros]: "reader k per_read_number_of_sets 0"
  unfolding per_read_number_of_sets_def by (rule reader_intros reader_last | simp)+

lemma reader_per_padding [reader_intros]: "reader k (per_read_padding n) 0"
  unfolding per_read_padding_def
  by (rule reader_intros reader_last | simp)+

lemma reader_per_integer [reader_intros]: "reader k per_read_integer 0"
  unfolding per_read_integer_def by (rule reader_intros reader_last | simp)+

lemma reader_per_integer16 [reader_intros]: "reader k (per_read_integer16 mn) 0"
  unfolding per_read_integer16_def by (rule reader_intros reader_last | simp)+

lemma reader_per_enumerated [reader_intros]: "reader k (per_read_enumerated c) 0"
  unfolding per_read_enumerated_def by (rule reader_intros reader_last | simp)+

lemma reader_per_object_identifier [reader_intros]: "reader k (per_read_object_identifier oid) 0"
  unfolding per_read_object_identifier_def per_check_oid_and_log_mismatch_def
  by (rule reader_intros reader_last | simp)+

lemma reader_per_numeric_string [reader_intros]: "reader k (per_read_numeric_string mn) 0"
  unfolding per_read_numeric_string_def Let_def
  by (rule reader_intros reader_last | simp)+

lemma reader_per_octet_string [reader_intros]:
  assumes "unat len \<le> length oct_str"
  shows "reader k (per_read_octet_string oct_str len mn) 0"
  unfolding per_read_octet_string_def per_check_oid_and_log_mismatch_def
  by (insert assms) (rule reader_intros reader_last | simp)+

section \<open>Wire forms\<close>

definition enc_length :: "u16 \<Rightarrow> byte list" where
  "enc_length len = (if len > 0x7F then bytes_be 2 (unat (len OR 0x8000)) else [ucast len])"

definition enc_integer :: "u32 \<Rightarrow> byte list" where
  "enc_integer v =
     (if v \<le> 0xFF then [1, ucast v]
      else if v \<le> 0xFFFF then 2 # bytes_be 2 (unat v)
      else 4 # bytes_be 4 (unat v))"

lemma length_enc_length: "length (enc_length len) = (if len > 0x7F then 2 else 1)"
  by (simp add: enc_length_def)

lemma per_write_length_put [stream_write]:
  assumes "stream_ok s" and "length (enc_length len) \<le> room s"
  shows "per_write_length len s = Done () (put (enc_length len) s)"
  using assms by (simp add: per_write_length_def enc_length_def stream_write split: if_splits)

lemma per_read_length_short:
  assumes "read_ok s" and "rem s = b # r" and "unat b < 128"
  shows "per_read_length s = Done (ucast b) (adv 1 s)"
  using assms by (simp add: per_read_length_def stream_read byte_top_bit)

lemma per_read_length_long:
  assumes "read_ok s" and "rem s = b # c # r" and "128 \<le> unat b"
  shows "per_read_length s = Done (word_of_nat (256 * (unat b - 128) + unat c)) (adv 2 s)"
proof -
  have "unat b mod 128 = unat b - 128"
    using assms(3) byte_less [of b] by (simp add: mod_nat_eqI del: byte_less)
  then have "(ucast (b AND NOT 0x80) :: u16) = word_of_nat (unat b - 128)"
    by (metis byte_clear_top word_of_nat_unat)
  with assms show ?thesis
    by (simp add: per_read_length_def stream_read byte_top_bit push_bit_eq_mult numeral_2_eq_2
        del: of_nat_diff)
qed

lemma per_read_length_enc:
  assumes "read_ok s" and "unat len < 0x8000" and "rem s = enc_length len @ r"
  shows "per_read_length s = Done len (adv (length (enc_length len)) s)"
proof (cases "len > 0x7F")
  case True
  let ?b = "word_of_nat ((unat len + 0x8000) div 256) :: byte"
    and ?c = "word_of_nat (unat len + 0x8000) :: byte"
  have b: "unat ?b = 128 + unat len div 256"
    using assms(2) by (simp add: unat_of_nat less_mult_imp_div_less)
  have c: "unat ?c = unat len mod 256"
  proof -
    have "(unat len + 32768) mod 256 = unat len mod 256"
      using mod_mult_self1 [of "unat len" 128 256] by simp
    then show ?thesis by (simp only: unat_of_nat) simp
  qed
  have "rem s = ?b # ?c # r"
    using assms True by (simp add: enc_length_def u16_set_top bytes_be_def bytes_le_numeral)
  moreover have "128 \<le> unat ?b" using b by simp
  ultimately have "per_read_length s = Done (word_of_nat (256 * (unat ?b - 128) + unat ?c)) (adv 2 s)"
    by (rule per_read_length_long [OF assms(1)])
  moreover have "256 * (unat ?b - 128) + unat ?c = unat len"
    unfolding b c by simp
  ultimately show ?thesis using True by (simp only: length_enc_length) simp
next
  case False
  then have "unat len < 128" by (simp add: word_le_nat_alt linorder_not_less)
  then have "unat (ucast len :: byte) = unat len"
    by (simp add: unsigned_ucast_eq take_bit_eq_mod)
  moreover have "(ucast (ucast len :: byte) :: u16) = len"
    using calculation by (metis word_of_nat_unat ucast_id)
  ultimately show ?thesis
    using per_read_length_short [of s "ucast len"] assms False \<open>unat len < 128\<close>
    by (simp add: enc_length_def)
qed

interpretation per_length: codec enc_length per_write_length per_read_length "\<lambda>v. unat v < 0x8000"
  by unfold_locales (simp_all add: per_write_length_put per_read_length_enc)

lemma per_write_integer_put:
  assumes "stream_ok s" and "length (enc_integer v) \<le> room s"
  shows "per_write_integer v s = Done () (put (enc_integer v) s)"
proof -
  have "unat (ucast v :: u16) = unat v" if "v \<le> 0xFFFF"
    using that by (simp add: unat_ucast_mod word_le_nat_alt)
  with assms show ?thesis
    by (cases "v \<le> 0xFF"; cases "v \<le> 0xFFFF")
      (simp_all add: per_write_integer_def enc_integer_def enc_length_def stream_write)
qed

lemma per_read_integer_enc:
  assumes "read_ok s" and "unat v < 0x10000" and "rem s = enc_integer v @ r"
  shows "per_read_integer s = Done v (adv (length (enc_integer v)) s)"
proof (cases "v \<le> 0xFF")
  case True
  then have v: "(ucast (ucast v :: byte) :: u32) = v"
    by (intro ucast_ucast_small) (simp add: word_le_nat_alt)
  have r: "rem s = 1 # ucast v # r" using assms True by (simp add: enc_integer_def)
  then have "per_read_length s = Done 1 (adv 1 s)"
    using per_read_length_short [OF assms(1)] by simp
  with r v True assms(1) show ?thesis
    by (simp add: per_read_integer_def enc_integer_def stream_read numeral_2_eq_2)
next
  case False
  have le: "v \<le> 0xFFFF" using assms(2) by (simp add: word_le_nat_alt)
  have v: "(ucast (ucast v :: u16) :: u32) = v"
    using assms(2) by (intro ucast_ucast_small) simp
  have r: "rem s = 2 # bytes_be 2 (unat v) @ r" using assms False le by (simp add: enc_integer_def)
  then have "per_read_length s = Done 2 (adv 1 s)"
    using per_read_length_short [OF assms(1)] by simp
  with r le v False assms show ?thesis
    by (simp add: per_read_integer_def enc_integer_def stream_read nat_be_bytes_be numeral_2_eq_2 [symmetric])
qed

interpretation per_integer: codec enc_integer per_write_integer per_read_integer "\<lambda>v. unat v < 0x10000"
  by unfold_locales (simp_all add: per_write_integer_put per_read_integer_enc)

lemma per_read_integer_long:
  assumes "read_ok s" and "0x10000 \<le> unat v" and "rem s = enc_integer v @ r"
  shows "per_read_integer s = Failed (adv 1 s)"
proof -
  have "\<not> v \<le> 0xFF" "\<not> v \<le> 0xFFFF" using assms(2) by (simp_all add: word_le_nat_alt)
  then have r: "rem s = 4 # bytes_be 4 (unat v) @ r" using assms by (simp add: enc_integer_def)
  then have "per_read_length s = Done 4 (adv 1 s)"
    using per_read_length_short [OF assms(1)] by simp
  with r assms(1) show ?thesis
    by (simp add: per_read_integer_def stream_read)
qed

interpretation per_integer16: codec "\<lambda>v. bytes_be 2 (unat (v - mn))" "per_write_integer16 mn"
  "per_read_integer16 mn" "\<lambda>v. unat mn \<le> unat v" for mn
proof
  fix s and v :: u16
  assume "stream_ok s" "unat mn \<le> unat v" "length (bytes_be 2 (unat (v - mn))) \<le> room s"
  then show "per_write_integer16 mn v s = Done () (put (bytes_be 2 (unat (v - mn))) s)"
    by (simp add: per_write_integer16_def stream_write)
next
  fix s r and v :: u16
  assume s: "read_ok s" and mn: "unat mn \<le> unat v" and r: "rem s = bytes_be 2 (unat (v - mn)) @ r"
  have "unat (v - mn) = unat v - unat mn"
    using mn by (simp add: unat_sub word_le_nat_alt)
  moreover have "unat v \<le> 0xFFFF" using unat_u16_less [of v] by (simp del: unat_u16_less)
  ultimately have "\<not> unat (v - mn) > 0xFFFF - unat mn" by simp
  with s r show "per_read_integer16 mn s = Done v (adv (length (bytes_be 2 (unat (v - mn)))) s)"
    by (simp add: per_read_integer16_def stream_read nat_be_bytes_be)
qed

interpretation per_enumerated: codec "\<lambda>v. [v]" "per_write_enumerated count"
  "per_read_enumerated count" "\<lambda>v. unat v < unat count" for count
  by unfold_locales
    (simp_all add: per_write_enumerated_def per_read_enumerated_def stream_write stream_read)

interpretation per_choice: codec "\<lambda>v. [v]" per_write_choice per_read_choice "\<lambda>_. True"
  by unfold_locales (simp_all add: per_write_choice_def per_read_choice_def stream_write stream_read)

interpretation per_selection: codec "\<lambda>v. [v]" per_write_selection per_read_selection "\<lambda>_. True"
  by unfold_locales
    (simp_all add: per_write_selection_def per_read_selection_def stream_write stream_read)

interpretation per_number_of_sets: codec "\<lambda>v. [v]" per_write_number_of_sets per_read_number_of_sets "\<lambda>_. True"
  by unfold_locales
    (simp_all add: per_write_number_of_sets_def per_read_number_of_sets_def stream_write stream_read)


lemma per_write_string_put [stream_write]:
  "stream_ok s \<Longrightarrow> length bs \<le> room s \<Longrightarrow> per_write_string bs s = Done () (put bs s)"
proof (induction bs arbitrary: s)
  case Nil
  then show ?case by simp
next
  case (Cons b bs)
  then show ?case by (simp add: stream_write)
qed

text \<open>
  An object identifier of six components whose first is at most 2 and whose second is below 40
  keeps its first two components apart in one byte.
\<close>

definition oid_ok :: "byte list \<Rightarrow> bool" where
  "oid_ok oid \<longleftrightarrow> length oid = 6 \<and> unat (oid ! 0) \<le> 5 \<and> unat (oid ! 1) < 40"

definition enc_oid :: "byte list \<Rightarrow> byte list" where
  "enc_oid oid = [5, (oid ! 0) * 40 + oid ! 1, oid ! 2, oid ! 3, oid ! 4, oid ! 5]"

lemma per_write_oid_put [stream_write]:
  "stream_ok s \<Longrightarrow> 6 \<le> room s \<Longrightarrow> per_write_object_identifier oid s = Done () (put (enc_oid oid) s)"
  by (simp add: per_write_object_identifier_def enc_oid_def stream_write Let_def)

lemma per_read_oid_enc:
  assumes "read_ok s" and "oid_ok oid" and "rem s = enc_oid oid @ r"
  shows "per_read_object_identifier oid s = Done () (adv 6 s)"
proof -
  obtain a b c d e f where oid: "oid = [a, b, c, d, e, f]"
    using assms(2) by (auto simp: oid_ok_def eval_nat_numeral length_Suc_conv)
  have ab: "unat a \<le> 5" "unat b < 40"
    using assms(2) oid by (auto simp: oid_ok_def)
  then have u: "unat (a * 40 + b) = unat a * 40 + unat b"
    by (simp add: unat_word_ariths)
  have dm: "(a * 40 + b) div 40 = a" "(a * 40 + b) mod 40 = b"
    using ab u by (simp_all add: word_unat_eq_iff unat_div unat_mod)
  have "per_read_length s = Done 5 (adv 1 s)"
    using per_read_length_short [of s 5] assms by (simp add: enc_oid_def)
  then show ?thesis
    using assms(1,3)
    by (simp add: oid per_read_object_identifier_def per_check_oid_and_log_mismatch_def enc_oid_def
        stream_read dm numeral_2_eq_2 [symmetric])
qed

text \<open>The digits of a numeric string, two to a byte.\<close>

fun pack_digits :: "byte list \<Rightarrow> byte list" where
  "pack_digits [] = []"
| "pack_digits [c1] = [push_bit 4 (per_digit c1) OR per_digit 0x30]"
| "pack_digits (c1 # c2 # cs) = (push_bit 4 (per_digit c1) OR per_digit c2) # pack_digits cs"

lemma length_pack_digits: "length (pack_digits cs) = (length cs + 1) div 2"
  by (induction cs rule: pack_digits.induct) simp_all

lemma pack_digits_step:
  assumes "i < n" and "n \<le> length xs"
  shows "pack_digits (drop i (take n xs)) =
    (push_bit 4 (per_digit (xs ! i)) OR per_digit (if i + 1 < n then xs ! (i + 1) else 0x30)) #
    pack_digits (drop (i + 2) (take n xs))"
proof (cases "i + 1 < n")
  case True
  then have "drop i (take n xs) = xs ! i # xs ! (i + 1) # drop (i + 2) (take n xs)"
    using assms Cons_nth_drop_Suc [of i "take n xs"] Cons_nth_drop_Suc [of "Suc i" "take n xs"]
    by simp
  with True show ?thesis by simp
next
  case False
  then have "drop i (take n xs) = [xs ! i]" and "drop (i + 2) (take n xs) = []"
    using assms Cons_nth_drop_Suc [of i "take n xs"] by simp_all
  with False show ?thesis by simp
qed

lemma per_numeric_loop_put:
  assumes "stream_ok s" and "unat len \<le> length num_str" and "unat len < 0xFFFF"
    and "unat i \<le> unat len + 1"
    and "length (pack_digits (drop (unat i) (take (unat len) num_str))) \<le> room s"
  shows "per_numeric_loop num_str len i s =
    Done () (put (pack_digits (drop (unat i) (take (unat len) num_str))) s)"
  using assms
proof (induction num_str len i s rule: per_numeric_loop.induct)
  case (1 num_str len i s)
  show ?case
  proof (cases "i < len")
    case False
    then have "drop (unat i) (take (unat len) num_str) = []" by (simp add: word_less_nat_alt)
    with False show ?thesis by (simp add: per_numeric_loop.simps [of _ _ i])
  next
    case True
    then have il: "unat i < unat len" by (simp add: word_less_nat_alt)
    let ?b = "push_bit 4 (per_digit (num_str ! unat i)) OR
      per_digit (if unat i + 1 < unat len then num_str ! (unat i + 1) else 0x30)"
    let ?bs = "pack_digits (drop (unat i + 2) (take (unat len) num_str))"
    have i2: "unat (i + 2) = unat i + 2"
      using il "1.prems"(3) by (simp add: unat_word_ariths)
    have split: "pack_digits (drop (unat i) (take (unat len) num_str)) = ?b # ?bs"
      using pack_digits_step [OF il "1.prems"(2)] .
    with "1.prems" have room: "1 + length ?bs \<le> room s" by simp
    then have w: "Stream_Write_UINT8 ?b s = Done () (put [?b] s)"
      using "1.prems"(1) by (intro write_u8) simp_all
    have "per_numeric_loop num_str len (i + 2) (put [?b] s) = Done () (put ?bs (put [?b] s))"
      using "1.IH" [OF True refl refl w] "1.prems" il i2 room by simp
    then show ?thesis
      using True w split room "1.prems"(1) by (simp add: per_numeric_loop.simps [of _ _ i s] Let_def)
  qed
qed

lemma per_write_octet_string_put:
  assumes "stream_ok s" and "unat len \<le> length str" and "mn \<le> len"
    and "length (enc_length (len - mn)) + unat len \<le> room s"
  shows "per_write_octet_string str len mn s =
    Done () (put (enc_length (len - mn) @ take (unat len) str) s)"
  using assms by (simp add: per_write_octet_string_def stream_write Let_def)

lemma peek_rem:
  assumes "read_ok s" and "n \<le> length (rem s)"
  shows "Stream_Peek n s = Done (take n (rem s)) s"
  using assms rem_le_room [of s]
  by (simp add: Stream_Peek_def remaining_capacity peek_bytes_rem)

lemma per_read_octet_string_enc:
  assumes "read_ok s" and "unat len \<le> length str" and "mn \<le> len" and "unat len - unat mn < 0x8000"
    and "rem s = enc_length (len - mn) @ take (unat len) str @ r"
  shows "per_read_octet_string str len mn s =
    Done () (adv (length (enc_length (len - mn)) + unat len) s)"
proof -
  have sub: "unat (len - mn) = unat len - unat mn"
    using assms(3) by (simp add: unat_sub)
  have l: "per_read_length s = Done (len - mn) (adv (length (enc_length (len - mn))) s)"
    using assms sub by (intro per_read_length_enc) simp_all
  moreover have "unat (len - mn) + unat mn = unat len"
    using assms(3) sub by (simp add: word_le_nat_alt)
  ultimately show ?thesis
    using assms
    by (simp add: per_read_octet_string_def stream_read peek_rem per_check_oid_and_log_mismatch_def)
qed

lemma length_enc_length_le: "length (enc_length v) \<le> 2"
  by (simp add: length_enc_length)

lemma length_enc_integer_le: "length (enc_integer v) \<le> 5"
  by (simp add: enc_integer_def)

section \<open>Properties\<close>

text \<open>
  C19. Every PER reader is safe on arbitrary input: from any well-formed stream it neither aborts
  on an assertion nor reads outside the buffer, and whether it accepts or rejects the input it
  only moves the pointer forward, inside the unread bytes. For octet strings the expected string
  must be as long as the length given for it.
\<close>

theorem per_readers_safe:
  "reader 0 per_read_length 0 \<and> reader 0 per_read_choice 0 \<and> reader 0 per_read_selection 0 \<and>
   reader 0 per_read_number_of_sets 0 \<and> reader 0 (per_read_padding n) 0 \<and>
   reader 0 per_read_integer 0 \<and> reader 0 (per_read_integer16 mn) 0 \<and>
   reader 0 (per_read_enumerated c) 0 \<and> reader 0 (per_read_object_identifier oid) 0 \<and>
   reader 0 (per_read_octet_string str (word_of_nat (length str mod 65536)) mn) 0 \<and>
   reader 0 (per_read_numeric_string mn) 0"
proof -
  have "unat (word_of_nat (length str mod 65536) :: u16) \<le> length str"
    by (simp add: unat_of_nat)
  then show ?thesis by (simp add: reader_intros)
qed

text \<open>
  C22. PER length determinants below \<open>0x8000\<close> survive the wire: written to a well-formed stream
  with two bytes left before its length and read back from the same position, the value is the
  one written and the reader stops where the writer stopped.
\<close>

theorem per_length_roundtrip:
  assumes "stream_ok s" and "unat len < 0x8000" and "pointer s + 2 \<le> s_length s"
  shows "\<exists>s'. per_write_length len s = Done () s' \<and>
    per_read_length (s'\<lparr>pointer := pointer s\<rparr>) = Done len s'"
  using per_length.read_back [of s len] assms length_enc_length_le [of len] by auto

theorem per_length_roundtrip_witness:
  "\<exists>s'. per_write_length 300 (demo_stream 4) = Done () s' \<and>
    per_read_length (s'\<lparr>pointer := 0\<rparr>) = Done 300 s'"
  using per_length_roundtrip [of "demo_stream 4" 300] by simp

text \<open>
  C24. A PER integer is read back exactly when it fits 16 bits: \<^verbatim>\<open>per_read_integer\<close> accepts what
  \<^verbatim>\<open>per_write_integer\<close> wrote for a value below \<open>0x10000\<close> and returns it, and rejects the four-byte
  form that \<^verbatim>\<open>per_write_integer\<close> writes for every larger value.
\<close>

theorem per_integer_roundtrip_iff:
  assumes "stream_ok s" and "pointer s + 5 \<le> s_length s"
  shows "\<exists>s'. per_write_integer v s = Done () s' \<and>
    (if unat v < 0x10000 then per_read_integer (s'\<lparr>pointer := pointer s\<rparr>) = Done v s'
     else per_read_integer (s'\<lparr>pointer := pointer s\<rparr>) = Failed (s'\<lparr>pointer := pointer s + 1\<rparr>))"
proof (cases "unat v < 0x10000")
  case True
  then show ?thesis
    using per_integer.read_back [of s v] assms length_enc_integer_le [of v] by auto
next
  case False
  let ?s = "put (enc_integer v) s"
  let ?t = "?s\<lparr>pointer := pointer s\<rparr>"
  have n: "length (enc_integer v) = 5"
    using False by (simp add: enc_integer_def word_le_nat_alt)
  have room: "5 \<le> room s" using assms by (auto simp: stream_ok_def room_def)
  then have w: "per_write_integer v s = Done () ?s"
    using assms n by (simp add: per_write_integer_put)
  have "read_ok ?t"
    using assms room n by (auto simp: read_ok_def stream_ok_def room_def put_def)
  moreover have "rem ?t = enc_integer v @ drop (pointer s + 5) (take (s_length s) (buffer s))"
    using assms n by (simp add: rem_def put_def stream_ok_def drop_take_splice_at)
  ultimately have "per_read_integer ?t = Failed (adv 1 ?t)"
    using False by (intro per_read_integer_long) simp_all
  with False w show ?thesis by (simp add: adv_def)
qed

theorem per_integer_roundtrip_iff_witness:
  "(\<exists>s'. per_write_integer 1000 (demo_stream 8) = Done () s' \<and>
      per_read_integer (s'\<lparr>pointer := 0\<rparr>) = Done 1000 s') \<and>
   (\<exists>s'. per_write_integer 70000 (demo_stream 8) = Done () s' \<and>
      per_read_integer (s'\<lparr>pointer := 0\<rparr>) = Failed (s'\<lparr>pointer := 1\<rparr>))"
  using per_integer_roundtrip_iff [of "demo_stream 8" 1000]
    per_integer_roundtrip_iff [of "demo_stream 8" 70000] by simp

text \<open>
  An octet string written with \<^verbatim>\<open>per_write_octet_string\<close> is accepted by
  \<^verbatim>\<open>per_read_octet_string\<close> for the same string and minimum, provided the minimum does not exceed
  the length and the difference fits a length determinant.
\<close>

theorem per_octet_string_roundtrip:
  assumes "stream_ok s" and "unat len \<le> length str" and "mn \<le> len"
    and "unat len - unat mn < 0x8000" and "pointer s + 2 + unat len \<le> s_length s"
  shows "\<exists>s'. per_write_octet_string str len mn s = Done () s' \<and>
    per_read_octet_string str len mn (s'\<lparr>pointer := pointer s\<rparr>) = Done () s'"
proof -
  let ?e = "enc_length (len - mn) @ take (unat len) str"
  let ?s = "put ?e s"
  let ?t = "?s\<lparr>pointer := pointer s\<rparr>"
  have n: "length ?e \<le> 2 + unat len" "length ?e = length (enc_length (len - mn)) + unat len"
    using assms(2) by (simp_all add: length_enc_length)
  then have room: "length ?e \<le> room s" and le: "pointer s + length ?e \<le> s_length s"
    using assms(1,5) by (auto simp: stream_ok_def room_def)
  then have "per_write_octet_string str len mn s = Done () ?s"
    using assms n by (intro per_write_octet_string_put) simp_all
  moreover have "read_ok ?t"
    using assms(1) room le by (auto simp: read_ok_def stream_ok_def room_def put_def)
  moreover have "rem ?t = ?e @ drop (pointer s + length ?e) (take (s_length s) (buffer s))"
    using assms(1) le by (simp add: rem_def put_def stream_ok_def drop_take_splice_at)
  ultimately show ?thesis
    using per_read_octet_string_enc [of ?t len str mn] assms n by (simp add: adv_def put_def)
qed

theorem per_octet_string_roundtrip_witness:
  "\<exists>s'. per_write_octet_string [0x44, 0x75, 0x63, 0x61] 4 4 (demo_stream 8) = Done () s' \<and>
    per_read_octet_string [0x44, 0x75, 0x63, 0x61] 4 4 (s'\<lparr>pointer := 0\<rparr>) = Done () s'"
  using per_octet_string_roundtrip [of "demo_stream 8" 4 "[0x44, 0x75, 0x63, 0x61]" 4] by simp

end
