(* ===== verification/Ber.thy ===== *)
theory Ber
  imports Stream
begin

text \<open>
  The BER encoding of CredSSP and of the MCS connect PDUs, \<^verbatim>\<open>libfreerdp/crypto/ber.c\<close> with the
  constants of \<^verbatim>\<open>ber.h\<close>: all readers, writers and size functions, on the stream of theory Stream.
  The readers are safe on arbitrary input; lengths, tags, integers and octet strings are
  \<open>sized_codec\<close>s, so what is written is read back and the predicted sizes are the sizes written.
\<close>

section \<open>Tags and lengths\<close>

text \<open>
  The constants of \<^verbatim>\<open>ber.h\<close>. A \<^verbatim>\<open>size_t*\<close> result of a reader is its value; a \<^verbatim>\<open>size_t\<close> result of a
  writer, the number of bytes it wrote, is its value too.
\<close>

definition BER_CLASS_UNIV :: byte where "BER_CLASS_UNIV = 0x00"
definition BER_CLASS_APPL :: byte where "BER_CLASS_APPL = 0x40"
definition BER_CLASS_CTXT :: byte where "BER_CLASS_CTXT = 0x80"
definition BER_CONSTRUCT :: byte where "BER_CONSTRUCT = 0x20"
definition BER_PRIMITIVE :: byte where "BER_PRIMITIVE = 0x00"
definition BER_TAG_MASK :: byte where "BER_TAG_MASK = 0x1F"
definition BER_TAG_BOOLEAN :: byte where "BER_TAG_BOOLEAN = 0x01"
definition BER_TAG_INTEGER :: byte where "BER_TAG_INTEGER = 0x02"
definition BER_TAG_BIT_STRING :: byte where "BER_TAG_BIT_STRING = 0x03"
definition BER_TAG_OCTET_STRING :: byte where "BER_TAG_OCTET_STRING = 0x04"
definition BER_TAG_ENUMERATED :: byte where "BER_TAG_ENUMERATED = 0x0A"
definition BER_TAG_SEQUENCE :: byte where "BER_TAG_SEQUENCE = 0x10"
definition BER_TAG_SEQUENCE_OF :: byte where "BER_TAG_SEQUENCE_OF = 0x10"

definition BER_PC :: "bool \<Rightarrow> byte" where
  "BER_PC pc = (if pc then BER_CONSTRUCT else BER_PRIMITIVE)"

lemmas ber_consts = BER_CLASS_UNIV_def BER_CLASS_APPL_def BER_CLASS_CTXT_def BER_CONSTRUCT_def
  BER_PRIMITIVE_def BER_TAG_MASK_def BER_TAG_BOOLEAN_def BER_TAG_INTEGER_def BER_TAG_BIT_STRING_def
  BER_TAG_OCTET_STRING_def BER_TAG_ENUMERATED_def BER_TAG_SEQUENCE_def BER_TAG_SEQUENCE_OF_def
  BER_PC_def

definition ber_read_length :: "nat sprog" where
  "ber_read_length =
     seq (Stream_CheckAndLogRequiredLength 1)
    (bind (stream_read_u8 True) (\<lambda>byte.
     if byte AND 0x80 \<noteq> 0
     then
       (let byte = byte AND NOT 0x80 in
        seq (Stream_CheckAndLogRequiredLength (unat byte))
       (if byte = 1 then bind (stream_read_u8 True) (\<lambda>v. ret (unat v))
        else if byte = 2 then bind (stream_read_u16_be True) (\<lambda>v. ret (unat v))
        else fail))
     else ret (unat byte)))"

definition ber_write_length :: "nat \<Rightarrow> nat sprog" where
  "ber_write_length len =
     (if len > 0xFF
      then seq (assert_that (\<lambda>_. len \<le> 0xFFFF))
          (seq (assert_capacity 3)
          (seq (Stream_Write_UINT8 (0x80 XOR 2))
          (seq (Stream_Write_UINT16_BE (word_of_nat len))
               (ret 3))))
      else seq (assert_that (\<lambda>_. len \<le> 0xFF))
          (if len > 0x7F
           then seq (assert_capacity 2)
               (seq (Stream_Write_UINT8 (0x80 XOR 1))
               (seq (Stream_Write_UINT8 (word_of_nat len))
                    (ret 2)))
           else seq (assert_capacity 1)
               (seq (Stream_Write_UINT8 (word_of_nat len))
                    (ret 1))))"

definition ber_sizeof_length :: "nat \<Rightarrow> nat" where
  "ber_sizeof_length len = (if len > 0xFF then 3 else if len > 0x7F then 2 else 1)"

definition ber_read_universal_tag :: "byte \<Rightarrow> bool \<Rightarrow> unit sprog" where
  "ber_read_universal_tag tag pc =
     (let expect = (BER_CLASS_UNIV OR BER_PC pc) OR (BER_TAG_MASK AND tag) in
      seq (Stream_CheckAndLogRequiredLength 1)
     (bind (stream_read_u8 True) (\<lambda>byte. if byte \<noteq> expect then fail else ret ())))"

definition ber_write_universal_tag :: "byte \<Rightarrow> bool \<Rightarrow> nat sprog" where
  "ber_write_universal_tag tag pc =
     seq (Stream_Write_UINT8 ((BER_CLASS_UNIV OR BER_PC pc) OR (BER_TAG_MASK AND tag))) (ret 1)"

definition ber_read_application_tag :: "byte \<Rightarrow> nat sprog" where
  "ber_read_application_tag tag =
     (if tag > 30
      then
        (let expect = (BER_CLASS_APPL OR BER_CONSTRUCT) OR BER_TAG_MASK in
         seq (Stream_CheckAndLogRequiredLength 2)
        (bind (stream_read_u8 True) (\<lambda>byte.
         if byte \<noteq> expect then fail
         else bind (stream_read_u8 True) (\<lambda>byte.
              if byte \<noteq> tag then fail else ber_read_length))))
      else
        (let expect = (BER_CLASS_APPL OR BER_CONSTRUCT) OR (BER_TAG_MASK AND tag) in
         seq (Stream_CheckAndLogRequiredLength 1)
        (bind (stream_read_u8 True) (\<lambda>byte.
         if byte \<noteq> expect then fail else ber_read_length))))"

definition ber_write_application_tag :: "byte \<Rightarrow> nat \<Rightarrow> unit sprog" where
  "ber_write_application_tag tag len =
     (if tag > 30
      then seq (assert_capacity 2)
          (seq (Stream_Write_UINT8 ((BER_CLASS_APPL OR BER_CONSTRUCT) OR BER_TAG_MASK))
          (seq (Stream_Write_UINT8 tag)
          (seq (ber_write_length len) (ret ()))))
      else seq (assert_capacity 1)
          (seq (Stream_Write_UINT8 ((BER_CLASS_APPL OR BER_CONSTRUCT) OR (BER_TAG_MASK AND tag)))
          (seq (ber_write_length len) (ret ()))))"

definition ber_read_contextual_tag :: "byte \<Rightarrow> bool \<Rightarrow> nat sprog" where
  "ber_read_contextual_tag tag pc =
     (let expect = (BER_CLASS_CTXT OR BER_PC pc) OR (BER_TAG_MASK AND tag) in
      bind Stream_GetRemainingLength (\<lambda>r.
      if r < 1 then fail
      else bind (stream_read_u8 True) (\<lambda>byte.
           if byte \<noteq> expect then seq (Stream_Rewind 1) fail else ber_read_length)))"

definition ber_write_contextual_tag :: "byte \<Rightarrow> nat \<Rightarrow> bool \<Rightarrow> nat sprog" where
  "ber_write_contextual_tag tag len pc =
     seq (assert_capacity 1)
    (seq (Stream_Write_UINT8 ((BER_CLASS_CTXT OR BER_PC pc) OR (BER_TAG_MASK AND tag)))
    (bind (ber_write_length len) (\<lambda>n. ret (1 + n))))"

definition ber_sizeof_contextual_tag :: "nat \<Rightarrow> nat" where
  "ber_sizeof_contextual_tag len = 1 + ber_sizeof_length len"

definition ber_read_sequence_tag :: "nat sprog" where
  "ber_read_sequence_tag =
     (let expect = (BER_CLASS_UNIV OR BER_CONSTRUCT) OR BER_TAG_SEQUENCE_OF in
      seq (Stream_CheckAndLogRequiredLength 1)
     (bind (stream_read_u8 True) (\<lambda>byte. if byte \<noteq> expect then fail else ber_read_length)))"

definition ber_write_sequence_tag :: "nat \<Rightarrow> nat sprog" where
  "ber_write_sequence_tag len =
     seq (Stream_Write_UINT8 ((BER_CLASS_UNIV OR BER_CONSTRUCT) OR (BER_TAG_MASK AND BER_TAG_SEQUENCE)))
    (bind (ber_write_length len) (\<lambda>n. ret (1 + n)))"

definition ber_sizeof_sequence :: "nat \<Rightarrow> nat" where
  "ber_sizeof_sequence len = 1 + ber_sizeof_length len + len"

definition ber_sizeof_sequence_tag :: "nat \<Rightarrow> nat" where
  "ber_sizeof_sequence_tag len = 1 + ber_sizeof_length len"

section \<open>Values\<close>

definition ber_read_enumerated :: "byte \<Rightarrow> byte sprog" where
  "ber_read_enumerated count =
     seq (ber_read_universal_tag BER_TAG_ENUMERATED False)
    (bind ber_read_length (\<lambda>len.
     if len \<noteq> 1 then fail
     else seq (Stream_CheckAndLogRequiredLength 1)
         (bind (stream_read_u8 True) (\<lambda>enumerated.
          if unat enumerated + 1 > unat count then fail else ret enumerated))))"

definition ber_write_enumerated :: "byte \<Rightarrow> byte \<Rightarrow> unit sprog" where
  "ber_write_enumerated enumerated count =
     seq (ber_write_universal_tag BER_TAG_ENUMERATED False)
    (seq (ber_write_length 1) (Stream_Write_UINT8 enumerated))"

definition ber_read_bit_string :: "(nat \<times> byte) sprog" where
  "ber_read_bit_string =
     seq (ber_read_universal_tag BER_TAG_BIT_STRING False)
    (bind ber_read_length (\<lambda>len.
     seq (Stream_CheckAndLogRequiredLength 1)
    (bind (stream_read_u8 True) (\<lambda>padding. ret (len, padding)))))"

definition ber_write_octet_string :: "byte list \<Rightarrow> nat sprog" where
  "ber_write_octet_string oct_str =
     bind (ber_write_universal_tag BER_TAG_OCTET_STRING False) (\<lambda>a.
     bind (ber_write_length (length oct_str)) (\<lambda>b.
     seq (Stream_Write oct_str) (ret (a + b + length oct_str))))"

definition ber_sizeof_octet_string :: "nat \<Rightarrow> nat" where
  "ber_sizeof_octet_string len = 1 + ber_sizeof_length len + len"

definition ber_write_contextual_octet_string :: "byte \<Rightarrow> byte list \<Rightarrow> nat sprog" where
  "ber_write_contextual_octet_string tag oct_str =
     bind (ber_write_contextual_tag tag (ber_sizeof_octet_string (length oct_str)) True) (\<lambda>n.
     if n = 0 then ret 0
     else bind (ber_write_octet_string oct_str) (\<lambda>r. if r = 0 then ret 0 else ret (n + r)))"

text \<open>
  The conversion from UTF-8 is a parameter: \<open>conv src n\<close> are the UTF-16 units \<^verbatim>\<open>ConvertUtf8NToWChar\<close>
  stores for \<open>src\<close> with room for \<open>n\<close> of them, \<open>None\<close> for an error. \<open>utf16_bytes\<close> is how they lie in
  memory. A result of \<open>-1\<close> of \<^verbatim>\<open>Stream_Write_UTF16_String_From_UTF8\<close> is \<open>Failed\<close>.
\<close>

type_synonym to_utf16 = "byte list \<Rightarrow> nat \<Rightarrow> u16 list option"

definition utf16_bytes :: "u16 list \<Rightarrow> byte list" where
  "utf16_bytes us = concat (map (\<lambda>u. bytes_le 2 (unat u)) us)"

definition Stream_Write_UTF16_String_From_UTF8 ::
    "to_utf16 \<Rightarrow> nat \<Rightarrow> byte list \<Rightarrow> bool \<Rightarrow> nat sprog" where
  "Stream_Write_UTF16_String_From_UTF8 conv dlen src fill =
     (if length src = 0 then ret 0
      else seq (Stream_CheckAndLogRequiredCapacityOfSize dlen 2)
        (case conv src dlen of
           None \<Rightarrow> fail
         | Some us \<Rightarrow>
             seq (store (utf16_bytes us))
            (seq (Stream_Seek (length us * 2))
            (seq (if fill then Stream_Zero ((dlen - length us) * 2) else ret ())
                 (ret (length us))))))"

definition ber_write_char_to_unicode_octet_string :: "to_utf16 \<Rightarrow> byte list \<Rightarrow> nat sprog" where
  "ber_write_char_to_unicode_octet_string conv str =
     (let len = length str + 1 in
      bind (ber_write_universal_tag BER_TAG_OCTET_STRING False) (\<lambda>a.
      bind (ber_write_length (len * 2)) (\<lambda>b.
      or_value 0 (seq (Stream_Write_UTF16_String_From_UTF8 conv len (str @ [0]) True)
                   (ret (a + b + len * 2))))))"

definition ber_write_contextual_unicode_octet_string :: "byte \<Rightarrow> u16 list \<Rightarrow> nat sprog" where
  "ber_write_contextual_unicode_octet_string tag str =
     (let len = length str * 2;
          inner_len = ber_sizeof_octet_string len in
      bind (ber_write_contextual_tag tag inner_len True) (\<lambda>n.
      bind (ber_write_octet_string (utf16_bytes str)) (\<lambda>r. ret (n + r))))"

definition ber_write_contextual_char_to_unicode_octet_string ::
    "to_utf16 \<Rightarrow> byte \<Rightarrow> byte list \<Rightarrow> nat sprog" where
  "ber_write_contextual_char_to_unicode_octet_string conv tag str =
     (let len = length str;
          inner_len = ber_sizeof_octet_string (len * 2) in
      bind Stream_GetRemainingCapacity (\<lambda>cap.
      seq (assert_that (\<lambda>_. cap < ber_sizeof_contextual_tag inner_len + inner_len))
     (bind (ber_write_contextual_tag tag inner_len True) (\<lambda>a.
      bind (ber_write_universal_tag BER_TAG_OCTET_STRING False) (\<lambda>b.
      bind (ber_write_length (len * 2)) (\<lambda>c.
      or_value 0 (seq (Stream_Write_UTF16_String_From_UTF8 conv len str True)
                   (ret (a + b + c + len)))))))))"

definition ber_read_octet_string_tag :: "nat sprog" where
  "ber_read_octet_string_tag =
     seq (ber_read_universal_tag BER_TAG_OCTET_STRING False) ber_read_length"

text \<open>\<open>alloc n\<close> is an allocation of \<open>n\<close> bytes checked against \<^verbatim>\<open>NULL\<close>.\<close>

definition alloc :: "nat \<Rightarrow> unit sprog" where
  "alloc n s = (if malloc_ok s n then Done () s else Failed s)"

text \<open>The block of \<open>len + 2\<close> zeroed bytes with the string copied in and a unit cleared behind it.\<close>

definition ber_read_unicode_octet_string :: "byte list sprog" where
  "ber_read_unicode_octet_string =
     bind ber_read_octet_string_tag (\<lambda>len.
     seq (Stream_CheckAndLogRequiredLength len)
    (seq (alloc (len + 2))
    (bind (peek_bytes len) (\<lambda>bs.
     seq (Stream_Seek len)
         (ret (splice_at (len div 2 * 2) [0, 0] (bs @ [0, 0])))))))"

text \<open>\<open>conv8 bs\<close> is what \<^verbatim>\<open>ConvertWCharNToUtf8Alloc\<close> makes of the UTF-16 text \<open>bs\<close>.\<close>

definition ber_read_char_from_unicode_octet_string ::
    "(byte list \<Rightarrow> byte list option) \<Rightarrow> byte list sprog" where
  "ber_read_char_from_unicode_octet_string conv8 =
     bind ber_read_octet_string_tag (\<lambda>len.
     let dlen = len div 2 in
     seq (Stream_CheckAndLogRequiredLength (dlen * 2))
    (bind (peek_bytes (dlen * 2)) (\<lambda>bs.
     seq (Stream_Seek (dlen * 2))
         (case conv8 bs of None \<Rightarrow> fail | Some str \<Rightarrow> ret str))))"

definition ber_read_octet_string :: "byte list sprog" where
  "ber_read_octet_string =
     bind ber_read_octet_string_tag (\<lambda>len.
     seq (Stream_CheckAndLogRequiredLength len)
    (seq (alloc len) (Stream_Read len)))"

definition ber_write_octet_string_tag :: "nat \<Rightarrow> nat sprog" where
  "ber_write_octet_string_tag len =
     seq (ber_write_universal_tag BER_TAG_OCTET_STRING False)
    (seq (ber_write_length len) (ret (1 + ber_sizeof_length len)))"

definition ber_sizeof_contextual_octet_string :: "nat \<Rightarrow> nat" where
  "ber_sizeof_contextual_octet_string len =
     (let n = ber_sizeof_octet_string len in ber_sizeof_contextual_tag n + n)"

definition ber_read_BOOL :: "bool sprog" where
  "ber_read_BOOL =
     seq (ber_read_universal_tag BER_TAG_BOOLEAN False)
    (bind ber_read_length (\<lambda>len.
     if len \<noteq> 1 then fail
     else seq (Stream_CheckAndLogRequiredLength 1)
         (bind (stream_read_u8 True) (\<lambda>v. ret (v \<noteq> 0)))))"

definition ber_write_BOOL :: "int \<Rightarrow> unit sprog" where
  "ber_write_BOOL v =
     seq (ber_write_universal_tag BER_TAG_BOOLEAN False)
    (seq (ber_write_length 1) (Stream_Write_UINT8 (if v = 1 then 0xFF else 0)))"

text \<open>\<open>want = False\<close> is a null \<open>value\<close> pointer: the integer is skipped and \<open>0\<close> stands for no value.\<close>

definition ber_read_integer :: "bool \<Rightarrow> u32 sprog" where
  "ber_read_integer want =
     seq (ber_read_universal_tag BER_TAG_INTEGER False)
    (bind ber_read_length (\<lambda>len.
     seq (Stream_CheckAndLogRequiredLength len)
    (if \<not> want then seq (Stream_SafeSeek len) (ret 0)
     else if len = 1 then bind (stream_read_u8 True) (\<lambda>v. ret (ucast v))
     else if len = 2 then bind (stream_read_u16_be True) (\<lambda>v. ret (ucast v))
     else if len = 3
     then bind (stream_read_u8 True) (\<lambda>byte.
          bind (stream_read_u16_be True) (\<lambda>v. ret (ucast v + push_bit 16 (ucast byte))))
     else if len = 4 then stream_read_u32_be True
     else if len = 8 then fail
     else fail)))"

definition ber_write_integer :: "u32 \<Rightarrow> nat sprog" where
  "ber_write_integer v =
     (if v < 0x80
      then seq (ber_write_universal_tag BER_TAG_INTEGER False)
          (seq (ber_write_length 1)
          (seq (Stream_Write_UINT8 (ucast v)) (ret 3)))
      else if v < 0x8000
      then seq (ber_write_universal_tag BER_TAG_INTEGER False)
          (seq (ber_write_length 2)
          (seq (Stream_Write_UINT16_BE (ucast v)) (ret 4)))
      else if v < 0x800000
      then seq (ber_write_universal_tag BER_TAG_INTEGER False)
          (seq (ber_write_length 3)
          (seq (Stream_Write_UINT8 (ucast (drop_bit 16 v)))
          (seq (Stream_Write_UINT16_BE (ucast (v AND 0xFFFF))) (ret 5))))
      else if v < 0x80000000
      then seq (ber_write_universal_tag BER_TAG_INTEGER False)
          (seq (ber_write_length 4)
          (seq (Stream_Write_UINT32_BE v) (ret 6)))
      else seq (ber_write_universal_tag BER_TAG_INTEGER False)
          (seq (ber_write_length 4)
          (seq (Stream_Write_UINT32_BE v) (ret 6))))"

definition ber_sizeof_integer :: "u32 \<Rightarrow> nat" where
  "ber_sizeof_integer v =
     (if v < 0x80 then 3 else if v < 0x8000 then 4 else if v < 0x800000 then 5
      else if v < 0x80000000 then 6 else 6)"

text \<open>The growth happens inside the argument of \<^verbatim>\<open>WINPR_ASSERT\<close>.\<close>

definition ber_write_contextual_integer :: "byte \<Rightarrow> u32 \<Rightarrow> nat sprog" where
  "ber_write_contextual_integer tag v =
     (let len = ber_sizeof_integer v in
      seq (\<lambda>s. case Stream_EnsureRemainingCapacity (len + 5) s of
                  Failed _ \<Rightarrow> Fault AssertionFailed | r \<Rightarrow> r)
     (bind (ber_write_contextual_tag tag len True) (\<lambda>n.
      seq (ber_write_integer v) (ret (len + n)))))"

definition ber_sizeof_contextual_integer :: "u32 \<Rightarrow> nat" where
  "ber_sizeof_contextual_integer v =
     (let n = ber_sizeof_integer v in ber_sizeof_contextual_tag n + n)"

definition ber_read_integer_length :: "nat sprog" where
  "ber_read_integer_length =
     seq (ber_read_universal_tag BER_TAG_INTEGER False) ber_read_length"

section \<open>Readers on untrusted input\<close>

lemma reader_alloc [reader_intros]: "reader k (alloc n) k"
  unfolding reader_def by (auto simp: alloc_def intro!: exI [of _ 0])

lemma reader_ber_length [reader_intros]: "reader k ber_read_length 0"
  unfolding ber_read_length_def Let_def
  by (rule reader_intros reader_last | simp)+

lemma reader_ber_universal [reader_intros]: "reader k (ber_read_universal_tag tag pc) 0"
  unfolding ber_read_universal_tag_def Let_def by (rule reader_intros reader_last | simp)+

lemma reader_ber_application [reader_intros]: "reader k (ber_read_application_tag tag) 0"
  unfolding ber_read_application_tag_def Let_def by (rule reader_intros reader_last | simp)+

lemma reader_ber_sequence [reader_intros]: "reader k ber_read_sequence_tag 0"
  unfolding ber_read_sequence_tag_def Let_def by (rule reader_intros reader_last | simp)+

lemma reader_ber_enumerated [reader_intros]: "reader k (ber_read_enumerated count) 0"
  unfolding ber_read_enumerated_def by (rule reader_intros reader_last | simp)+

lemma reader_ber_bit_string [reader_intros]: "reader k ber_read_bit_string 0"
  unfolding ber_read_bit_string_def by (rule reader_intros reader_last | simp)+

lemma reader_ber_octet_tag [reader_intros]: "reader k ber_read_octet_string_tag 0"
  unfolding ber_read_octet_string_tag_def by (rule reader_intros reader_last | simp)+

lemma reader_ber_octet [reader_intros]: "reader k ber_read_octet_string 0"
  unfolding ber_read_octet_string_def by (rule reader_intros reader_last | simp)+

lemma reader_ber_unicode [reader_intros]: "reader k ber_read_unicode_octet_string 0"
  unfolding ber_read_unicode_octet_string_def by (rule reader_intros reader_last | simp)+

lemma reader_ber_char [reader_intros]: "reader k (ber_read_char_from_unicode_octet_string conv8) 0"
  unfolding ber_read_char_from_unicode_octet_string_def Let_def
  by (rule reader_intros reader_last | simp)+

lemma reader_ber_BOOL [reader_intros]: "reader k ber_read_BOOL 0"
  unfolding ber_read_BOOL_def by (rule reader_intros reader_last | simp)+

lemma reader_ber_integer [reader_intros]: "reader k (ber_read_integer want) 0"
  unfolding ber_read_integer_def by (rule reader_intros reader_last | simp)+

lemma reader_ber_integer_length [reader_intros]: "reader k ber_read_integer_length 0"
  unfolding ber_read_integer_length_def by (rule reader_intros reader_last | simp)+

text \<open>A rejected contextual tag is put back: the pointer is where it was.\<close>

definition ctxt_tag :: "byte \<Rightarrow> bool \<Rightarrow> byte" where
  "ctxt_tag tag pc = (BER_CLASS_CTXT OR BER_PC pc) OR (BER_TAG_MASK AND tag)"

lemma ber_contextual_cases:
  assumes "read_ok s"
  shows "ber_read_contextual_tag tag pc s =
    (case rem s of
       [] \<Rightarrow> Failed s
     | b # _ \<Rightarrow> if b = ctxt_tag tag pc then ber_read_length (adv 1 s) else Failed s)"
proof (cases "rem s")
  case Nil
  with assms show ?thesis
    by (simp add: ber_read_contextual_tag_def stream_read)
next
  case (Cons b r)
  have "Stream_Rewind 1 (adv 1 s) = Done () s"
    by (simp add: Stream_Rewind_def Stream_GetPosition_def adv_def)
  with assms Cons show ?thesis
    by (simp add: ber_read_contextual_tag_def stream_read ctxt_tag_def)
qed

lemma reader_ber_contextual [reader_intros]: "reader k (ber_read_contextual_tag tag pc) 0"
  unfolding reader_def
proof (intro allI impI)
  fix s
  assume s: "read_ok s \<and> k \<le> length (rem s)"
  have stay: "\<exists>n\<le>length (rem s). s = adv n s"
    by (rule exI [of _ 0]) simp
  show "case ber_read_contextual_tag tag pc s of
      Done _ s' \<Rightarrow> \<exists>n\<le>length (rem s). s' = adv n s \<and> 0 \<le> length (rem s')
    | Failed s' \<Rightarrow> \<exists>n\<le>length (rem s). s' = adv n s | Fault _ \<Rightarrow> False"
  proof (cases "rem s")
    case Nil
    with s stay show ?thesis by (simp add: ber_contextual_cases)
  next
    case (Cons b r)
    then have ok: "read_ok (adv 1 s)"
      and len: "n \<le> length (rem (adv 1 s)) \<Longrightarrow> 1 + n \<le> length (rem s)" for n
      using s by simp_all
    from reader_safe [OF reader_ber_length ok] have
      "case ber_read_length (adv 1 s) of
         Done _ s' \<Rightarrow> \<exists>n\<le>length (rem s). s' = adv n s \<and> 0 \<le> length (rem s')
       | Failed s' \<Rightarrow> \<exists>n\<le>length (rem s). s' = adv n s | Fault _ \<Rightarrow> False"
    proof (elim disjE exE conjE)
      fix x n
      assume "n \<le> length (rem (adv 1 s))" "ber_read_length (adv 1 s) = Done x (adv n (adv 1 s))"
      with len [of n] show ?thesis by (auto intro!: exI [of _ "1 + n"])
    next
      fix n
      assume "n \<le> length (rem (adv 1 s))" "ber_read_length (adv 1 s) = Failed (adv n (adv 1 s))"
      with len [of n] show ?thesis by (auto intro!: exI [of _ "1 + n"])
    qed
    with s stay Cons show ?thesis by (simp add: ber_contextual_cases)
  qed
qed

section \<open>Encodings\<close>

definition enc_ber_length :: "nat \<Rightarrow> byte list" where
  "enc_ber_length n =
     (if n > 0xFF then 0x82 # bytes_be 2 n
      else if n > 0x7F then [0x81, word_of_nat n]
      else [word_of_nat n])"

lemma length_enc_ber_length: "length (enc_ber_length n) = ber_sizeof_length n"
  by (simp add: enc_ber_length_def ber_sizeof_length_def)

lemma ber_sizeof_length_le: "ber_sizeof_length n \<le> 3"
  by (simp add: ber_sizeof_length_def)

lemma bytes_be_mod: "bytes_be 2 (n mod 65536) = bytes_be 2 n" for n :: nat
proof -
  have "(word_of_nat (n mod 65536) :: byte) = word_of_nat n"
    by (simp add: word_of_nat_eq_iff take_bit_eq_mod mod_mod_cancel)
  moreover have "(word_of_nat (n mod 65536 div 256) :: byte) = word_of_nat (n div 256)"
    using mod_mult2_eq [of n 256 256] by (simp add: word_of_nat_eq_iff take_bit_eq_mod)
  ultimately show ?thesis by (simp add: bytes_be_def bytes_le_numeral)
qed

lemma ber_write_length_put [stream_write]:
  assumes "stream_ok s" and "n \<le> 0xFFFF" and "ber_sizeof_length n \<le> room s"
  shows "ber_write_length n s = Done (ber_sizeof_length n) (put (enc_ber_length n) s)"
  using assms
  by (simp add: ber_write_length_def ber_sizeof_length_def enc_ber_length_def stream_write unat_of_nat
      bytes_be_mod split: if_splits)

lemma ber_write_length_run:
  assumes "stream_ok s"
  shows "ber_write_length n s =
    (if n \<le> 0xFFFF \<and> ber_sizeof_length n \<le> room s
     then Done (ber_sizeof_length n) (put (enc_ber_length n) s) else Fault AssertionFailed)"
  using assms
  by (cases "n \<le> 0xFFFF")
    (auto simp: stream_write ber_write_length_def ber_sizeof_length_def assert_capacity_fault
      enc_ber_length_def unat_of_nat bytes_be_mod)

lemma ber_read_length_enc [stream_read]:
  assumes "read_ok s" and "n \<le> 0xFFFF" and "rem s = enc_ber_length n @ r"
  shows "ber_read_length s = Done n (adv (ber_sizeof_length n) s)"
proof -
  consider "n > 0xFF" | "n \<le> 0xFF" "n > 0x7F" | "n \<le> 0x7F" by linarith
  then show ?thesis
  proof cases
    case 1
    then have "rem s = 0x82 # bytes_be 2 n @ r" using assms by (simp add: enc_ber_length_def)
    with 1 assms(1,2) show ?thesis
      by (simp add: ber_read_length_def ber_sizeof_length_def stream_read nat_be_bytes_be
          unat_of_nat Let_def numeral_3_eq_3)
  next
    case 2
    then have "rem s = 0x81 # word_of_nat n # r" using assms by (simp add: enc_ber_length_def)
    with 2 assms(1) show ?thesis
      by (simp add: ber_read_length_def ber_sizeof_length_def stream_read unat_of_nat Let_def
          numeral_2_eq_2 [symmetric])
  next
    case 3
    then have "unat (word_of_nat n :: byte) = n" by (simp add: unat_of_nat)
    moreover have "rem s = word_of_nat n # r" using 3 assms by (simp add: enc_ber_length_def)
    ultimately show ?thesis
      using 3 assms(1) by (simp add: ber_read_length_def ber_sizeof_length_def stream_read byte_top_bit)
  qed
qed

interpretation ber_length: sized_codec enc_ber_length ber_write_length ber_read_length
  "\<lambda>n. n \<le> 0xFFFF" ber_sizeof_length
  by unfold_locales (simp_all add: ber_write_length_put ber_read_length_enc length_enc_ber_length)

subsection \<open>Universal tags\<close>

definition univ_tag :: "byte \<Rightarrow> bool \<Rightarrow> byte" where
  "univ_tag tag pc = (BER_CLASS_UNIV OR BER_PC pc) OR (BER_TAG_MASK AND tag)"

lemma ber_write_universal_run:
  "stream_ok s \<Longrightarrow> ber_write_universal_tag tag pc s =
     (if 1 \<le> room s then Done 1 (put [univ_tag tag pc] s) else Fault AssertionFailed)"
  by (simp add: ber_write_universal_tag_def univ_tag_def stream_write Stream_Write_UINT8_def
      assert_capacity_fault)

lemma ber_write_universal_put [stream_write]:
  "stream_ok s \<Longrightarrow> 1 \<le> room s \<Longrightarrow>
     ber_write_universal_tag tag pc s = Done 1 (put [univ_tag tag pc] s)"
  by (simp add: ber_write_universal_run)

lemma ber_read_universal_run [stream_read]:
  "read_ok s \<Longrightarrow> rem s = b # r \<Longrightarrow>
     ber_read_universal_tag tag pc s =
       (if b = univ_tag tag pc then Done () (adv 1 s) else Failed (adv 1 s))"
  by (simp add: ber_read_universal_tag_def univ_tag_def stream_read)

lemma ber_write_contextual_run:
  "stream_ok s \<Longrightarrow> ber_write_contextual_tag tag n pc s =
     (if n \<le> 0xFFFF \<and> ber_sizeof_contextual_tag n \<le> room s
      then Done (ber_sizeof_contextual_tag n) (put (ctxt_tag tag pc # enc_ber_length n) s)
      else Fault AssertionFailed)"
  by (cases "1 \<le> room s")
    (auto simp: ber_write_contextual_tag_def ber_sizeof_contextual_tag_def ctxt_tag_def stream_write
      assert_capacity_fault ber_write_length_run length_enc_ber_length bind_def)

lemma ber_write_contextual_put [stream_write]:
  "stream_ok s \<Longrightarrow> n \<le> 0xFFFF \<Longrightarrow> ber_sizeof_contextual_tag n \<le> room s \<Longrightarrow>
     ber_write_contextual_tag tag n pc s =
       Done (ber_sizeof_contextual_tag n) (put (ctxt_tag tag pc # enc_ber_length n) s)"
  by (simp add: ber_write_contextual_run)

lemma ber_read_contextual_enc [stream_read]:
  "read_ok s \<Longrightarrow> n \<le> 0xFFFF \<Longrightarrow> rem s = ctxt_tag tag pc # enc_ber_length n @ r \<Longrightarrow>
     ber_read_contextual_tag tag pc s = Done n (adv (ber_sizeof_contextual_tag n) s)"
  by (simp add: ber_contextual_cases ber_sizeof_contextual_tag_def ber_read_length_enc)

interpretation ber_contextual: sized_codec "\<lambda>n. ctxt_tag tag pc # enc_ber_length n"
  "\<lambda>n. ber_write_contextual_tag tag n pc" "ber_read_contextual_tag tag pc"
  "\<lambda>n. n \<le> 0xFFFF" ber_sizeof_contextual_tag for tag pc
  by unfold_locales
    (simp_all add: stream_write stream_read length_enc_ber_length ber_sizeof_contextual_tag_def)

definition seq_tag :: byte where "seq_tag = 0x30"

interpretation ber_sequence: sized_codec "\<lambda>n. seq_tag # enc_ber_length n"
  ber_write_sequence_tag ber_read_sequence_tag "\<lambda>n. n \<le> 0xFFFF" ber_sizeof_sequence_tag
  by unfold_locales
    (simp_all add: stream_write stream_read length_enc_ber_length ber_sizeof_sequence_tag_def
      ber_write_sequence_tag_def ber_read_sequence_tag_def seq_tag_def ber_consts)

subsection \<open>Integers\<close>

definition enc_ber_integer :: "u32 \<Rightarrow> byte list" where
  "enc_ber_integer v =
     univ_tag BER_TAG_INTEGER False #
     (let n = ber_sizeof_integer v - 2 in word_of_nat n # bytes_be n (unat v))"

lemma length_enc_ber_integer: "length (enc_ber_integer v) = ber_sizeof_integer v"
  by (simp add: enc_ber_integer_def ber_sizeof_integer_def)


lemma ber_integer_cases:
  obtains (one) "unat v < 0x80" "ber_sizeof_integer v = 3"
  | (two) "0x80 \<le> unat v" "unat v < 0x8000" "ber_sizeof_integer v = 4"
  | (three) "0x8000 \<le> unat v" "unat v < 0x800000" "ber_sizeof_integer v = 5"
  | (four) "0x800000 \<le> unat v" "ber_sizeof_integer v = 6"
proof -
  consider "unat v < 0x80" | "0x80 \<le> unat v" "unat v < 0x8000"
    | "0x8000 \<le> unat v" "unat v < 0x800000" | "0x800000 \<le> unat v" by linarith
  then show thesis
    by cases (simp_all add: that ber_sizeof_integer_def word_less_nat_alt)
qed

lemma ber_write_integer_put [stream_write]:
  assumes "stream_ok s" and "ber_sizeof_integer v \<le> room s"
  shows "ber_write_integer v s = Done (ber_sizeof_integer v) (put (enc_ber_integer v) s)"
proof (cases v rule: ber_integer_cases)
  case one
  then show ?thesis using assms
    by (simp add: ber_write_integer_def enc_ber_integer_def stream_write word_less_nat_alt
        ber_sizeof_length_def enc_ber_length_def bytes_be_def)
next
  case two
  then show ?thesis using assms
    by (simp add: ber_write_integer_def enc_ber_integer_def stream_write word_less_nat_alt
        ber_sizeof_length_def enc_ber_length_def unat_ucast_mod)
next
  case three
  have "unat (ucast (v AND 0xFFFF) :: u16) = unat v mod 65536"
    by (simp add: ucast_mask_u16 unat_ucast_mod)
  moreover have "(ucast (drop_bit 16 v) :: byte) = word_of_nat (unat v div 65536)"
    by (simp add: word_unat_eq_iff unat_ucast_mod unat_drop_bit_div unat_of_nat)
  ultimately show ?thesis using three assms
    by (simp add: ber_write_integer_def enc_ber_integer_def stream_write word_less_nat_alt
        ber_sizeof_length_def enc_ber_length_def bytes_be_mod) (simp add: bytes_be_def bytes_le_numeral)
next
  case four
  then show ?thesis using assms
    by (simp add: ber_write_integer_def enc_ber_integer_def stream_write word_less_nat_alt
        ber_sizeof_length_def enc_ber_length_def)
qed

lemma ber_read_integer_enc [stream_read]:
  assumes "read_ok s" and "rem s = enc_ber_integer v @ r"
  shows "ber_read_integer True s = Done v (adv (ber_sizeof_integer v) s)"
proof -
  let ?n = "ber_sizeof_integer v - 2"
  have n: "?n < 0x80" by (simp add: ber_sizeof_integer_def)
  have rem: "rem s = univ_tag BER_TAG_INTEGER False # enc_ber_length ?n @ bytes_be ?n (unat v) @ r"
    using assms(2) n by (simp add: enc_ber_integer_def enc_ber_length_def Let_def)
  then have tag: "ber_read_universal_tag BER_TAG_INTEGER False s = Done () (adv 1 s)"
    using assms(1) by (simp add: ber_read_universal_run)
  have len: "ber_read_length (adv 1 s) = Done ?n (adv 2 s)"
    using rem assms(1) n ber_read_length_enc [of "adv 1 s" ?n]
    by (simp add: ber_sizeof_length_def numeral_2_eq_2 [symmetric])
  have rem2: "rem (adv 2 s) = bytes_be ?n (unat v) @ r"
    using rem n by (simp add: enc_ber_length_def numeral_2_eq_2)
  have ok: "read_ok (adv 2 s)"
    using rem assms(1) n by (simp add: enc_ber_length_def)
  show ?thesis
  proof (cases v rule: ber_integer_cases)
    case one
    then have "(ucast (ucast v :: byte) :: u32) = v" by (intro ucast_ucast_small) simp
    with one tag len rem2 ok show ?thesis
      by (simp add: ber_read_integer_def stream_read bytes_be_def)
  next
    case two
    then have "(ucast (ucast v :: u16) :: u32) = v" by (intro ucast_ucast_small) simp
    with two tag len rem2 ok show ?thesis
      by (simp add: ber_read_integer_def stream_read nat_be_bytes_be)
  next
    case three
    let ?b = "word_of_nat (unat v div 65536) :: byte"
    have split: "bytes_be 3 (unat v) = ?b # bytes_be 2 (unat v)"
      by (simp add: bytes_be_def bytes_le_numeral)
    have "(ucast (word_of_nat (unat v mod 65536) :: u16) + push_bit 16 (ucast ?b) :: u32) = v"
      using three by (simp add: word_unat_eq_iff unat_word_ariths unat_ucast_mod unat_of_nat push_bit_eq_mult)
    moreover have rem3: "rem (adv 3 s) = bytes_be 2 (unat v) @ r"
      using rem2 three split drop_drop [of 1 2 "rem s"] by (simp add: numeral_3_eq_3)
    moreover have "read_ok (adv 3 s)"
      using rem2 three split ok read_ok_adv [of "adv 2 s" 1] by simp
    ultimately show ?thesis
      using three tag len rem2 ok
      by (simp add: ber_read_integer_def read_u8 check_length read_u16_be split nat_be_bytes_be del: rem_adv)
  next
    case four
    with tag len rem2 ok show ?thesis
      by (simp add: ber_read_integer_def stream_read nat_be_bytes_be)
  qed
qed

interpretation ber_integer: sized_codec enc_ber_integer ber_write_integer "ber_read_integer True"
  "\<lambda>_. True" ber_sizeof_integer
  by unfold_locales (simp_all add: stream_write stream_read length_enc_ber_integer)

subsection \<open>Octet strings\<close>

definition enc_ber_octets :: "byte list \<Rightarrow> byte list" where
  "enc_ber_octets bs = univ_tag BER_TAG_OCTET_STRING False # enc_ber_length (length bs) @ bs"

lemma length_enc_ber_octets: "length (enc_ber_octets bs) = ber_sizeof_octet_string (length bs)"
  by (simp add: enc_ber_octets_def ber_sizeof_octet_string_def length_enc_ber_length)

lemma ber_write_octets_put [stream_write]:
  assumes "stream_ok s" and "length bs \<le> 0xFFFF"
    and "ber_sizeof_octet_string (length bs) \<le> room s"
  shows "ber_write_octet_string bs s =
    Done (ber_sizeof_octet_string (length bs)) (put (enc_ber_octets bs) s)"
  using assms
  by (simp add: ber_write_octet_string_def enc_ber_octets_def ber_sizeof_octet_string_def stream_write
      length_enc_ber_length)

lemma ber_read_octets_enc [stream_read]:
  assumes "read_ok s" and "length bs \<le> 0xFFFF" and "malloc_ok s (length bs)"
    and "rem s = enc_ber_octets bs @ r"
  shows "ber_read_octet_string s = Done bs (adv (ber_sizeof_octet_string (length bs)) s)"
proof -
  let ?n = "length bs"
  let ?k = "1 + ber_sizeof_length ?n"
  have rem: "rem s = univ_tag BER_TAG_OCTET_STRING False # enc_ber_length ?n @ bs @ r"
    using assms(4) by (simp add: enc_ber_octets_def)
  then have tag: "ber_read_universal_tag BER_TAG_OCTET_STRING False s = Done () (adv 1 s)"
    using assms(1) by (simp add: ber_read_universal_run)
  have len: "ber_read_length (adv 1 s) = Done ?n (adv ?k s)"
    using rem assms(1,2) ber_read_length_enc [of "adv 1 s" ?n] by simp
  have "rem (adv ?k s) = bs @ r" and "read_ok (adv ?k s)" and "malloc_ok (adv ?k s) ?n"
    using rem assms(1,3) by (simp_all add: length_enc_ber_length) (simp add: adv_def)
  then show ?thesis
    using tag len
    by (simp add: ber_read_octet_string_def ber_read_octet_string_tag_def check_length read_bytes
        alloc_def ber_sizeof_octet_string_def del: rem_adv)
qed

subsection \<open>Contextual fields\<close>

text \<open>
  A field of a credentials structure is a contextual tag that carries the size of the value
  behind it. The source reads it in two calls; \<open>ber_read_field\<close> is their sequence.
\<close>

definition ber_read_field :: "byte \<Rightarrow> 'a sprog \<Rightarrow> (nat \<times> 'a) sprog" where
  "ber_read_field tag rd =
     bind (ber_read_contextual_tag tag True) (\<lambda>n. bind rd (\<lambda>v. ret (n, v)))"

definition enc_ber_field :: "byte \<Rightarrow> byte list \<Rightarrow> byte list" where
  "enc_ber_field tag bs = ctxt_tag tag True # enc_ber_length (length bs) @ bs"

lemma length_enc_ber_field:
  "length (enc_ber_field tag bs) = ber_sizeof_contextual_tag (length bs) + length bs"
  by (simp add: enc_ber_field_def ber_sizeof_contextual_tag_def length_enc_ber_length)

lemma ber_write_field_octets:
  assumes "stream_ok s" and "ber_sizeof_octet_string (length bs) \<le> 0xFFFF"
    and "ber_sizeof_contextual_octet_string (length bs) \<le> room s"
  shows "ber_write_contextual_octet_string tag bs s =
    Done (ber_sizeof_contextual_octet_string (length bs)) (put (enc_ber_field tag (enc_ber_octets bs)) s)"
proof -
  let ?n = "ber_sizeof_octet_string (length bs)"
  have "length bs \<le> 0xFFFF" and pos: "0 < ?n" "0 < ber_sizeof_contextual_tag ?n"
    using assms(2) by (simp_all add: ber_sizeof_octet_string_def ber_sizeof_contextual_tag_def)
  then show ?thesis
    using assms
    by (simp add: ber_write_contextual_octet_string_def ber_sizeof_contextual_octet_string_def
        enc_ber_field_def stream_write length_enc_ber_octets length_enc_ber_length
        ber_sizeof_contextual_tag_def Let_def)
qed

lemma ber_write_field_integer:
  assumes "stream_ok s" and "ber_sizeof_integer v + 5 \<le> room s"
  shows "ber_write_contextual_integer tag v s =
    Done (ber_sizeof_contextual_integer v) (put (enc_ber_field tag (enc_ber_integer v)) s)"
proof -
  have "ber_sizeof_integer v \<le> 6" by (simp add: ber_sizeof_integer_def)
  then have n: "ber_sizeof_length (ber_sizeof_integer v) = 1" "ber_sizeof_integer v \<le> 0xFFFF"
    by (simp_all add: ber_sizeof_length_def)
  then show ?thesis
    using assms
    by (simp add: ber_write_contextual_integer_def ber_sizeof_contextual_integer_def seq_def
        enc_ber_field_def stream_write length_enc_ber_integer length_enc_ber_length
        ber_sizeof_contextual_tag_def ensure_room Let_def)
qed

lemma ber_read_field_enc:
  assumes "read_ok s" and "length bs \<le> 0xFFFF" and "rem s = enc_ber_field tag bs @ r"
    and "\<And>t. read_ok t \<Longrightarrow> rem t = bs @ r \<Longrightarrow> malloc_ok t = malloc_ok s \<Longrightarrow>
      rd t = Done v (adv (length bs) t)"
  shows "ber_read_field tag rd s = Done (length bs, v) (adv (length (enc_ber_field tag bs)) s)"
proof -
  let ?k = "ber_sizeof_contextual_tag (length bs)"
  have "ber_read_contextual_tag tag True s = Done (length bs) (adv ?k s)"
    using assms by (intro ber_read_contextual_enc) (simp_all add: enc_ber_field_def)
  moreover have "rd (adv ?k s) = Done v (adv (length bs) (adv ?k s))"
  proof (rule assms(4))
    show "read_ok (adv ?k s)"
      using assms(1,3) by (simp add: length_enc_ber_field)
    show "rem (adv ?k s) = bs @ r"
      using assms(3) by (simp add: enc_ber_field_def ber_sizeof_contextual_tag_def length_enc_ber_length)
    show "malloc_ok (adv ?k s) = malloc_ok s" by (simp add: adv_def)
  qed
  ultimately show ?thesis by (simp add: ber_read_field_def length_enc_ber_field)
qed

section \<open>Properties\<close>

text \<open>
  C12. Every BER reader is safe on arbitrary input: from any well-formed stream, with any allocator
  and any text conversion, it neither aborts nor reads outside the buffer, and whether it accepts
  or rejects it only moves the pointer forward inside the unread bytes.
\<close>

theorem ber_readers_safe:
  "reader 0 ber_read_length 0 \<and> reader 0 (ber_read_universal_tag tag pc) 0 \<and>
   reader 0 (ber_read_application_tag tag) 0 \<and> reader 0 (ber_read_contextual_tag tag pc) 0 \<and>
   reader 0 ber_read_sequence_tag 0 \<and> reader 0 (ber_read_enumerated count) 0 \<and>
   reader 0 ber_read_bit_string 0 \<and> reader 0 ber_read_octet_string_tag 0 \<and>
   reader 0 ber_read_octet_string 0 \<and> reader 0 ber_read_unicode_octet_string 0 \<and>
   reader 0 (ber_read_char_from_unicode_octet_string conv8) 0 \<and> reader 0 ber_read_BOOL 0 \<and>
   reader 0 (ber_read_integer want) 0 \<and> reader 0 ber_read_integer_length 0"
  by (simp add: reader_intros)

text \<open>
  C20. Every 32-bit integer survives BER: \<^verbatim>\<open>ber_write_integer\<close> writes and returns exactly
  \<^verbatim>\<open>ber_sizeof_integer\<close> bytes, and \<^verbatim>\<open>ber_read_integer\<close> reads the same integer back from them and
  stops where the writer stopped.
\<close>

theorem ber_integer_roundtrip:
  assumes "stream_ok s" and "pointer s + ber_sizeof_integer v \<le> s_length s"
  shows "\<exists>s'. ber_write_integer v s = Done (ber_sizeof_integer v) s' \<and>
    pointer s' = pointer s + ber_sizeof_integer v \<and>
    ber_read_integer True (s'\<lparr>pointer := pointer s\<rparr>) = Done v s'"
  using ber_integer.sized_read_back [OF assms(1) TrueI assms(2)] .

theorem ber_integer_roundtrip_witness:
  "\<exists>s'. ber_write_integer 70000 (demo_stream 8) = Done 5 s' \<and> pointer s' = 5 \<and>
    ber_read_integer True (s'\<lparr>pointer := 0\<rparr>) = Done 70000 s'"
  using ber_integer_roundtrip [of "demo_stream 8" 70000] by (simp add: ber_sizeof_integer_def)

text \<open>
  C23. An octet string field of a credentials structure survives BER: the writer of the field
  returns the size that \<^verbatim>\<open>ber_sizeof_contextual_octet_string\<close> predicts and writes that many bytes;
  reading the contextual tag gives the size of the octet string behind it and reading the octet
  string gives the bytes.
\<close>

theorem ber_octet_field_roundtrip:
  assumes "stream_ok s" and "ber_sizeof_octet_string (length bs) \<le> 0xFFFF"
    and "pointer s + ber_sizeof_contextual_octet_string (length bs) \<le> s_length s"
    and "malloc_ok s (length bs)"
  shows "\<exists>s'. ber_write_contextual_octet_string tag bs s =
      Done (ber_sizeof_contextual_octet_string (length bs)) s' \<and>
    pointer s' = pointer s + ber_sizeof_contextual_octet_string (length bs) \<and>
    ber_read_field tag ber_read_octet_string (s'\<lparr>pointer := pointer s\<rparr>) =
      Done (ber_sizeof_octet_string (length bs), bs) s'"
proof -
  let ?e = "enc_ber_field tag (enc_ber_octets bs)"
  let ?t = "(put ?e s)\<lparr>pointer := pointer s\<rparr>"
  have n: "length ?e = ber_sizeof_contextual_octet_string (length bs)"
    by (simp add: length_enc_ber_field length_enc_ber_octets ber_sizeof_contextual_octet_string_def
        Let_def)
  have small: "length bs \<le> 0xFFFF"
    using assms(2) by (simp add: ber_sizeof_octet_string_def)
  have le: "pointer s + length ?e \<le> s_length s" using assms(3) n by simp
  note rew = put_rewound [OF assms(1) le]
  obtain r where r: "rem ?t = ?e @ r" using rew(2) by blast
  have "ber_read_field tag ber_read_octet_string ?t =
    Done (length (enc_ber_octets bs), bs) (adv (length ?e) ?t)"
    using rew(1) r small assms(2,4)
    by (intro ber_read_field_enc [of _ "enc_ber_octets bs" _ r])
      (simp_all add: length_enc_ber_octets ber_read_octets_enc)
  moreover have "ber_write_contextual_octet_string tag bs s = Done (length ?e) (put ?e s)"
    using ber_write_field_octets [OF assms(1,2)] rew(3) n by simp
  ultimately show ?thesis
    using rew(4) n by (simp add: length_enc_ber_octets)
qed

theorem ber_octet_field_roundtrip_witness:
  "\<exists>s'. ber_write_contextual_octet_string 1 [0x41, 0x42] (demo_stream 8) = Done 6 s' \<and>
    pointer s' = 6 \<and>
    ber_read_field 1 ber_read_octet_string (s'\<lparr>pointer := 0\<rparr>) = Done (4, [0x41, 0x42]) s'"
proof -
  have "ber_sizeof_octet_string 2 = 4" "ber_sizeof_contextual_octet_string 2 = 6"
    by (simp_all add: ber_sizeof_contextual_octet_string_def ber_sizeof_octet_string_def
        ber_sizeof_contextual_tag_def ber_sizeof_length_def)
  then show ?thesis
    using ber_octet_field_roundtrip [of "demo_stream 8" "[0x41, 0x42]" 1]
    by (simp add: numeral_2_eq_2 [symmetric])
qed

text \<open>
  \<^verbatim>\<open>ber_write_contextual_char_to_unicode_octet_string\<close> never writes a string: its assertion
  demands that the room left is smaller than what it is about to write, so with assertions
  compiled in a call for a non-empty string aborts or reports that nothing was written, whatever
  the stream and the text conversion.
\<close>

theorem ber_contextual_char_never_writes:
  assumes "stream_ok s" and "str \<noteq> []"
  shows "(\<exists>s'. ber_write_contextual_char_to_unicode_octet_string conv tag str s = Done 0 s') \<or>
    ber_write_contextual_char_to_unicode_octet_string conv tag str s = Fault AssertionFailed"
proof -
  let ?n = "length str * 2"
  let ?inner = "ber_sizeof_octet_string ?n"
  let ?c = "ber_sizeof_contextual_tag ?inner"
  let ?b = "ctxt_tag tag True # enc_ber_length ?inner"
  let ?s1 = "put ?b s"
  let ?s2 = "put [univ_tag BER_TAG_OCTET_STRING False] ?s1"
  let ?s3 = "put (enc_ber_length ?n) ?s2"
  have lens: "length ?b = ?c" "?inner = 1 + ber_sizeof_length ?n + ?n"
    by (simp_all add: length_enc_ber_length ber_sizeof_contextual_tag_def ber_sizeof_octet_string_def)
  show ?thesis
  proof (cases "room s < ?c + ?inner \<and> ?inner \<le> 0xFFFF \<and> ?c \<le> room s \<and> 1 \<le> room ?s1 \<and>
      ber_sizeof_length ?n \<le> room ?s2")
    case True
    then have ok: "stream_ok ?s1" "stream_ok ?s2" "stream_ok ?s3"
      using assms(1) lens by (simp_all add: length_enc_ber_length)
    have "room ?s3 = room s - ?c - 1 - ber_sizeof_length ?n"
      using lens(1) by (simp add: length_enc_ber_length)
    then have "room ?s3 < ?n"
      using True lens(2) \<open>str \<noteq> []\<close> length_greater_0_conv [of str] by linarith
    then have "Stream_Write_UTF16_String_From_UTF8 conv (length str) str True ?s3 = Failed ?s3"
      using assms(2) ok(3)
      by (simp add: Stream_Write_UTF16_String_From_UTF8_def Stream_CheckAndLogRequiredCapacityOfSize_def
          remaining_capacity div_less_iff_less_mult del: room_put)
    moreover have "ber_write_contextual_tag tag ?inner True s = Done ?c ?s1"
      using True assms(1) by (simp only: ber_write_contextual_run) simp
    moreover have "ber_write_universal_tag BER_TAG_OCTET_STRING False ?s1 = Done 1 ?s2"
      using True ok(1) by (simp only: ber_write_universal_run) simp
    moreover have "ber_write_length ?n ?s2 = Done (ber_sizeof_length ?n) ?s3"
      using True ok(2) lens(2) by (simp only: ber_write_length_run) simp
    ultimately show ?thesis
      using True assms(1)
      by (simp add: ber_write_contextual_char_to_unicode_octet_string_def remaining_capacity
          or_value_def Let_def del: room_put put_put)
  next
    case False
    then show ?thesis
      using assms(1) lens
      by (auto simp: ber_write_contextual_char_to_unicode_octet_string_def remaining_capacity
          ber_write_contextual_run ber_write_universal_run ber_write_length_run Let_def bind_def seq_def
          assert_that_def simp del: room_put put_put split: if_splits)
  qed
qed

theorem ber_contextual_char_never_writes_witness:
  "(\<exists>s'. ber_write_contextual_char_to_unicode_octet_string (\<lambda>bs _. Some (map ucast bs)) 0 [0x41]
      (demo_stream 5) = Done 0 s') \<or>
   ber_write_contextual_char_to_unicode_octet_string (\<lambda>bs _. Some (map ucast bs)) 0 [0x41]
      (demo_stream 5) = Fault AssertionFailed"
  using ber_contextual_char_never_writes [of "demo_stream 5" "[0x41]"] by simp

end
