(* ===== verification/Memory.thy ===== *)
theory Memory
  imports Prelude
begin

text \<open>
  Allocated blocks and cyclic buffers, shared by the ring buffer and the collections: \<^verbatim>\<open>size_t\<close>
  arithmetic, \<^verbatim>\<open>malloc\<close> and \<^verbatim>\<open>realloc\<close> of an allocator that may refuse, bounds-checked copies, and
  the segment of a cyclic buffer with its append and drop laws.
\<close>

section \<open>Allocated blocks\<close>

text \<open>
  \<open>add64\<close>, \<open>sub64\<close> and \<open>mul64\<close> are \<^verbatim>\<open>+\<close>, \<^verbatim>\<open>-\<close> and \<^verbatim>\<open>*\<close> on \<^verbatim>\<open>size_t\<close>. A pointer that owns an allocation is \<open>None\<close>
  when it is \<^verbatim>\<open>NULL\<close> and otherwise the list of its cells. The allocator is part of the
  environment: it says which sizes it grants and what an uninitialised cell holds.
\<close>

definition add64 :: "nat \<Rightarrow> nat \<Rightarrow> nat" where
  "add64 a b = (a + b) mod 2 ^ 64"

definition sub64 :: "nat \<Rightarrow> nat \<Rightarrow> nat" where
  "sub64 a b = (a + (2 ^ 64 - b)) mod 2 ^ 64"

definition mul64 :: "nat \<Rightarrow> nat \<Rightarrow> nat" where
  "mul64 a b = (a * b) mod 2 ^ 64"

lemma mul64_id [simp]: "a * b < 2 ^ 64 \<Longrightarrow> mul64 a b = a * b"
  by (simp add: mul64_def)

lemma add64_id [simp]: "a + b < 2 ^ 64 \<Longrightarrow> add64 a b = a + b"
  by (simp add: add64_def)

lemma mod_sub_id:
  fixes a b c M :: nat
  assumes "b \<le> a + c" and "a + c - b < M" and "b < M"
  shows "(a + (c + (M - b)) mod M) mod M = a + c - b"
proof -
  have "a + (c + (M - b)) = (a + c - b) + M" using assms by linarith
  then have "(a + (c + (M - b)) mod M) mod M = (a + c - b) mod M"
    by (simp only: mod_add_right_eq mod_add_self2)
  then show ?thesis using assms(2) by simp
qed

lemma add64_sub64:
  "b \<le> a + c \<Longrightarrow> a + c - b < 2 ^ 64 \<Longrightarrow> b < 2 ^ 64 \<Longrightarrow> add64 a (sub64 c b) = a + c - b"
  unfolding add64_def sub64_def by (rule mod_sub_id)

lemma sub64_id [simp]: "b \<le> a \<Longrightarrow> a < 2 ^ 64 \<Longrightarrow> sub64 a b = a - b"
  using mod_sub_id [of b 0 a "2 ^ 64"] by (simp add: sub64_def)

record 'a allocator =
  grants :: "nat \<Rightarrow> bool"
  garbage :: "nat \<Rightarrow> 'a"

definition malloc :: "'a allocator \<Rightarrow> nat \<Rightarrow> 'a list option" where
  "malloc A n = (if grants A n then Some (map (garbage A) [0..<n]) else None)"

definition realloc :: "'a allocator \<Rightarrow> 'a list option \<Rightarrow> nat \<Rightarrow> 'a list option" where
  "realloc A p n =
     (if grants A n then Some (case p of None \<Rightarrow> map (garbage A) [0..<n]
                               | Some b \<Rightarrow> take n b @ map (garbage A) [length b..<n])
      else None)"

lemma malloc_Some: "malloc A n = Some b \<longleftrightarrow> grants A n \<and> b = map (garbage A) [0..<n]"
  by (auto simp: malloc_def)

lemma malloc_None [simp]: "malloc A n = None \<longleftrightarrow> \<not> grants A n"
  by (simp add: malloc_def)

lemma realloc_None [simp]: "realloc A p n = None \<longleftrightarrow> \<not> grants A n"
  by (simp add: realloc_def)

lemma length_realloc: "realloc A (Some b) n = Some b' \<Longrightarrow> length b' = n"
  by (auto simp: realloc_def split: if_splits)

lemma nth_realloc:
  "realloc A (Some b) n = Some b' \<Longrightarrow> i < n \<Longrightarrow> i < length b \<Longrightarrow> b' ! i = b ! i"
  by (auto simp: realloc_def nth_append split: if_splits)

text \<open>Reads and writes of consecutive cells; none of either may leave the block.\<close>

definition load_cells :: "'a list option \<Rightarrow> nat \<Rightarrow> nat \<Rightarrow> ('s, 'a list) prog" where
  "load_cells p i n s =
     (case p of
        None \<Rightarrow> if n = 0 then Done [] s else Fault NullDereference
      | Some b \<Rightarrow> if i + n \<le> length b then Done (take n (drop i b)) s else Fault OutOfBounds)"

definition store_cells :: "'a list option \<Rightarrow> nat \<Rightarrow> 'a list \<Rightarrow> ('s, 'a list option) prog" where
  "store_cells p i xs s =
     (case p of
        None \<Rightarrow> if xs = [] then Done None s else Fault NullDereference
      | Some b \<Rightarrow> if i + length xs \<le> length b then Done (Some (splice_at i xs b)) s
                  else Fault OutOfBounds)"

lemma load_run [simp]:
  "i + n \<le> length b \<Longrightarrow> load_cells (Some b) i n s = Done (take n (drop i b)) s"
  by (simp add: load_cells_def)

lemma store_run [simp]:
  "i + length xs \<le> length b \<Longrightarrow> store_cells (Some b) i xs s = Done (Some (splice_at i xs b)) s"
  by (simp add: store_cells_def)

section \<open>Cyclic segments\<close>

text \<open>
  \<open>ring b r k\<close> are \<open>k\<close> cells of \<open>b\<close> from index \<open>r\<close> on, with the index going around;
  \<open>ring_store w xs b\<close> overwrites the cells from \<open>w\<close> on in the two pieces in which a C function
  writes them.
\<close>

definition ring :: "'a list \<Rightarrow> nat \<Rightarrow> nat \<Rightarrow> 'a list" where
  "ring b r k = map (\<lambda>i. b ! ((r + i) mod length b)) [0..<k]"

definition ring_store :: "nat \<Rightarrow> 'a list \<Rightarrow> 'a list \<Rightarrow> 'a list" where
  "ring_store w xs b =
     (let t = min (length xs) (length b - w)
      in splice_at 0 (drop t xs) (splice_at w (take t xs) b))"

lemma mod_once:
  fixes x n :: nat
  assumes "x < 2 * n"
  shows "x mod n = (if x < n then x else x - n)"
proof (cases "x < n")
  case False
  then have "x mod n = (x - n) mod n" by (intro le_mod_geq) simp
  also have "\<dots> = x - n" using assms by (intro mod_less) linarith
  finally show ?thesis using False by simp
qed simp

lemma mod_once_cases:
  fixes x n :: nat
  assumes "x < 2 * n"
  shows "x = x mod n \<or> x = x mod n + n"
  using assms by (cases "x < n") (simp_all add: mod_once)

lemma length_ring [simp]: "length (ring b r k) = k"
  by (simp add: ring_def)

lemma ring_0 [simp]: "ring b r 0 = []"
  by (simp add: ring_def)

lemma nth_ring [simp]: "i < k \<Longrightarrow> ring b r k ! i = b ! ((r + i) mod length b)"
  by (simp add: ring_def)

lemma ring_linear: "r + k \<le> length b \<Longrightarrow> ring b r k = take k (drop r b)"
  by (rule nth_equalityI) auto

lemma ring_wrapped:
  assumes "r \<le> length b" and "length b \<le> r + k" and "k \<le> length b"
  shows "ring b r k = drop r b @ take (r + k - length b) b"
proof (rule nth_equalityI)
  fix i assume "i < length (ring b r k)"
  then have i: "i < k" by simp
  show "ring b r k ! i = (drop r b @ take (r + k - length b) b) ! i"
  proof (cases "r + i < length b")
    case False
    then have "(r + i) mod length b = i - (length b - r)" "\<not> i < length b - r"
      using i assms by (simp_all add: mod_once)
    then show ?thesis using i assms by (simp add: nth_append)
  next
    case True
    then have "i < length b - r" by linarith
    with True show ?thesis using i assms by (simp add: nth_append)
  qed
qed (use assms in simp)

lemma ring_drop:
  assumes "j \<le> k"
  shows "ring b ((r + j) mod length b) (k - j) = drop j (ring b r k)"
  by (rule nth_equalityI) (use assms in \<open>auto simp: mod_simps add.assoc\<close>)

lemma ring_take: "j \<le> k \<Longrightarrow> take j (ring b r k) = ring b r j"
  by (rule nth_equalityI) auto

lemma ring_realloc:
  assumes "realloc A (Some b) n = Some b'" and "r + k \<le> n" and "r + k \<le> length b"
  shows "ring b' r k = ring b r k"
proof -
  have len: "length b' = n" by (rule length_realloc [OF assms(1)])
  show ?thesis
    by (rule nth_equalityI) (use assms len nth_realloc [OF assms(1)] in auto)
qed

lemma length_ring_store [simp]:
  "w \<le> length b \<Longrightarrow> length xs \<le> length b \<Longrightarrow> length (ring_store w xs b) = length b"
  by (auto simp: ring_store_def Let_def)

lemma nth_ring_store:
  assumes "w \<le> length b" and "length xs \<le> length b" and "j < length b"
  shows "ring_store w xs b ! j =
    (if w \<le> j \<and> j < w + length xs then xs ! (j - w)
     else if j + length b < w + length xs then xs ! (j + length b - w) else b ! j)"
proof (cases "w + length xs \<le> length b")
  case True
  then have "min (length xs) (length b - w) = length xs" by linarith
  then have "ring_store w xs b = splice_at w xs b"
    by (simp add: ring_store_def Let_def)
  then show ?thesis using True assms by (simp add: nth_splice_at)
next
  case False
  let ?t = "length b - w"
  have "min (length xs) ?t = ?t" using False by linarith
  then have "ring_store w xs b = splice_at 0 (drop ?t xs) (splice_at w (take ?t xs) b)"
    by (simp add: ring_store_def Let_def)
  moreover have "(j < length xs - ?t) = (j + length b < w + length xs)" "?t + j = j + length b - w"
    using False assms by linarith+
  ultimately show ?thesis using False assms by (simp add: nth_splice_at)
qed

lemma ring_store_append:
  assumes "r < length b" and "k + length xs \<le> length b"
  shows "ring (ring_store ((r + k) mod length b) xs b) r (k + length xs) = ring b r k @ xs"
    (is "ring ?b r _ = _")
proof (rule nth_equalityI)
  let ?n = "length b"
  define w where "w = (r + k) mod ?n"
  have pos: "0 < ?n" using assms(1) by linarith
  then have w: "w < ?n" "r + k = w \<or> r + k = w + ?n"
    unfolding w_def using assms by (simp, intro mod_once_cases) linarith
  have wn: "w \<le> ?n" "length xs \<le> ?n" using w assms by linarith+
  fix i assume "i < length (ring ?b r (k + length xs))"
  then have i: "i < k + length xs" by simp
  define j where "j = (r + i) mod ?n"
  have j: "j < ?n" "r + i = j \<or> r + i = j + ?n"
    unfolding j_def using pos assms i by (simp, intro mod_once_cases) linarith
  have "ring ?b r (k + length xs) ! i = ring_store w xs b ! j"
    using i wn by (simp add: j_def w_def)
  also have "\<dots> = (if i < k then b ! j else xs ! (i - k))"
  proof (cases "i < k")
    case True
    have "\<not> (w \<le> j \<and> j < w + length xs)" "\<not> j + ?n < w + length xs"
      using True w j assms by linarith+
    with True show ?thesis unfolding nth_ring_store [OF wn j(1)] by auto
  next
    case False
    show ?thesis
    proof (cases "w \<le> j")
      case True
      have "j + k = w + i" using True False w j i assms by linarith
      then have "j < w + length xs" "j - w = i - k" using True False i by linarith+
      with True False show ?thesis unfolding nth_ring_store [OF wn j(1)] by simp
    next
      case w_gt: False
      have "j + ?n + k = w + i" using w_gt False w j i assms by linarith
      then have "j + ?n < w + length xs" "j + ?n - w = i - k" using False i wn by linarith+
      with w_gt False show ?thesis unfolding nth_ring_store [OF wn j(1)] by simp
    qed
  qed
  finally show "ring ?b r (k + length xs) ! i = (ring b r k @ xs) ! i"
    using i by (simp add: nth_append j_def)
qed (use assms in simp)

end
