(* ===== verification/RingBuffer.thy ===== *)
theory RingBuffer
  imports Memory
begin

text \<open>
  \<^verbatim>\<open>libfreerdp/utils/ringbuffer.c\<close>: a growing and shrinking cyclic byte buffer. First the record and
  one definition per function, then the invariant, what each function does to the stored bytes,
  the contract of a byte queue that the users of the buffer rely on with its interpretation on
  these functions, and the properties.
\<close>

section \<open>Operations\<close>

record RingBuffer =
  initialSize :: nat
  freeSize :: nat
  rsize :: nat
  readPtr :: nat
  writePtr :: nat
  rbuffer :: "byte list option"

type_synonym 'a rprog = "(RingBuffer, 'a) prog"

definition ringbuffer_init :: "byte allocator \<Rightarrow> nat \<Rightarrow> unit rprog" where
  "ringbuffer_init A initSize rb =
     (case malloc A initSize of
        None \<Rightarrow> Failed (rb\<lparr>rbuffer := None\<rparr>)
      | Some b \<Rightarrow> Done () (rb\<lparr>rbuffer := Some b, readPtr := 0, writePtr := 0,
                             initialSize := initSize, rsize := initSize, freeSize := initSize\<rparr>))"

definition ringbuffer_used :: "RingBuffer \<Rightarrow> nat" where
  "ringbuffer_used rb = sub64 (rsize rb) (freeSize rb)"

definition ringbuffer_capacity :: "RingBuffer \<Rightarrow> nat" where
  "ringbuffer_capacity rb = rsize rb"

definition ringbuffer_destroy :: "unit rprog" where
  "ringbuffer_destroy = modify (\<lambda>rb. rb\<lparr>rbuffer := None\<rparr>)"

text \<open>
  The new block of the third branch of \<^verbatim>\<open>ringbuffer_realloc\<close>: the bytes in use, copied from the
  read head on in one piece or in two.
\<close>

definition rb_linearize :: "byte list \<Rightarrow> byte list option rprog" where
  "rb_linearize newData rb =
     (if readPtr rb < writePtr rb
      then bind (load_cells (rbuffer rb) (readPtr rb) (ringbuffer_used rb))
             (store_cells (Some newData) 0) rb
      else
        (let tail = sub64 (rsize rb) (readPtr rb) in
         bind (bind (load_cells (rbuffer rb) (readPtr rb) tail) (store_cells (Some newData) 0))
           (\<lambda>nd. if writePtr rb \<noteq> 0
                  then bind (load_cells (rbuffer rb) 0 (writePtr rb)) (store_cells nd tail)
                  else ret nd) rb))"

definition ringbuffer_realloc :: "byte allocator \<Rightarrow> nat \<Rightarrow> unit rprog" where
  "ringbuffer_realloc A targetSize =
     bind (gets id) (\<lambda>rb.
     seq (if writePtr rb = readPtr rb
          then (case realloc A (rbuffer rb) targetSize of
                  None \<Rightarrow> fail
                | Some newData \<Rightarrow>
                    modify (\<lambda>rb. rb\<lparr>readPtr := 0, writePtr := 0, rbuffer := Some newData\<rparr>))
          else if writePtr rb \<ge> readPtr rb \<and> writePtr rb < targetSize
          then (case realloc A (rbuffer rb) targetSize of
                  None \<Rightarrow> fail
                | Some newData \<Rightarrow> modify (\<lambda>rb. rb\<lparr>rbuffer := Some newData\<rparr>))
          else (case malloc A targetSize of
                  None \<Rightarrow> fail
                | Some newData \<Rightarrow>
                    bind (rb_linearize newData) (\<lambda>nd.
                    modify (\<lambda>rb. rb\<lparr>writePtr := sub64 (rsize rb) (freeSize rb), readPtr := 0,
                                     rbuffer := nd\<rparr>))))
         (modify (\<lambda>rb. rb\<lparr>freeSize := add64 (freeSize rb) (sub64 targetSize (rsize rb)),
                          rsize := targetSize\<rparr>)))"

text \<open>\<open>rb_poke i bs\<close> is \<^verbatim>\<open>memcpy(rb->buffer + i, bs, n)\<close>; \<open>size_mod\<close> is \<^verbatim>\<open>a % b\<close>.\<close>

definition rb_poke :: "nat \<Rightarrow> byte list \<Rightarrow> unit rprog" where
  "rb_poke i bs rb = bind (store_cells (rbuffer rb) i bs)
     (\<lambda>b. modify (\<lambda>rb. rb\<lparr>rbuffer := b\<rparr>)) rb"

definition size_mod :: "nat \<Rightarrow> nat \<Rightarrow> nat rprog" where
  "size_mod a b = (if b = 0 then fault DivisionByZero else ret (a mod b))"

text \<open>The second half of \<^verbatim>\<open>ringbuffer_write\<close>, which copies once there is room.\<close>

definition rb_copy_in :: "byte list \<Rightarrow> unit rprog" where
  "rb_copy_in ptr =
     (let sz = length ptr in
      bind (gets id) (\<lambda>rb.
      let toWrite = (if sub64 (rsize rb) (writePtr rb) < sz
                     then sub64 (rsize rb) (writePtr rb) else sz) in
      seq (if toWrite \<noteq> 0 then rb_poke (writePtr rb) (take toWrite ptr) else ret ())
     (seq (if sz - toWrite \<noteq> 0 then rb_poke 0 (drop toWrite ptr) else ret ())
     (bind (size_mod (add64 (writePtr rb) sz) (rsize rb)) (\<lambda>w.
      modify (\<lambda>rb. rb\<lparr>writePtr := w, freeSize := sub64 (freeSize rb) sz\<rparr>))))))"

definition ringbuffer_write :: "byte allocator \<Rightarrow> byte list \<Rightarrow> unit rprog" where
  "ringbuffer_write A ptr =
     bind (gets id) (\<lambda>rb.
     seq (if freeSize rb \<le> length ptr
          then ringbuffer_realloc A (add64 (rsize rb) (length ptr)) else ret ())
         (rb_copy_in ptr))"

text \<open>
  The pointer that \<^verbatim>\<open>ringbuffer_ensure_linear_write\<close> returns is an offset in the block. \<open>rb_place\<close> is
  its last part, which moves the contents to the front when the segment does not fit behind them.
\<close>

definition rb_place :: "nat \<Rightarrow> nat rprog" where
  "rb_place sz =
     bind (gets id) (\<lambda>rb.
     if add64 (writePtr rb) sz < rsize rb then ret (writePtr rb)
     else
       bind (load_cells (rbuffer rb) (readPtr rb) (sub64 (writePtr rb) (readPtr rb))) (\<lambda>bs.
       seq (rb_poke 0 bs)
      (seq (modify (\<lambda>rb. rb\<lparr>readPtr := 0, writePtr := sub64 (rsize rb) (freeSize rb)\<rparr>))
           (gets writePtr))))"

definition ringbuffer_ensure_linear_write :: "byte allocator \<Rightarrow> nat \<Rightarrow> nat rprog" where
  "ringbuffer_ensure_linear_write A sz =
     bind (gets id) (\<lambda>rb.
     seq (if freeSize rb < sz
          then ringbuffer_realloc A (add64 (sub64 (add64 (rsize rb) sz) (freeSize rb)) 32)
          else ret ())
    (seq (modify (\<lambda>rb. if writePtr rb = readPtr rb then rb\<lparr>writePtr := 0, readPtr := 0\<rparr> else rb))
         (rb_place sz)))"

definition ringbuffer_commit_written_bytes :: "nat \<Rightarrow> unit rprog" where
  "ringbuffer_commit_written_bytes sz =
     (if sz < 1 then ret ()
      else bind (gets id) (\<lambda>rb.
        if add64 (writePtr rb) sz > rsize rb then fail
        else bind (size_mod (add64 (writePtr rb) sz) (rsize rb)) (\<lambda>w.
          modify (\<lambda>rb. rb\<lparr>writePtr := w, freeSize := sub64 (freeSize rb) sz\<rparr>))))"

text \<open>
  A chunk is an offset in the block and a size; the status \<^verbatim>\<open>ringbuffer_peek\<close> returns is the number
  of chunks it filled.
\<close>

record DataChunk =
  chunk_data :: nat
  chunk_size :: nat

definition ringbuffer_peek :: "nat \<Rightarrow> RingBuffer \<Rightarrow> DataChunk list" where
  "ringbuffer_peek sz rb =
     (if sz < 1 then []
      else
        let remaining = (if sub64 (rsize rb) (freeSize rb) < sz
                         then sub64 (rsize rb) (freeSize rb) else sz);
            toRead = (if add64 (readPtr rb) remaining > rsize rb
                      then sub64 (rsize rb) (readPtr rb) else remaining)
        in (if toRead \<noteq> 0 then [\<lparr>chunk_data = readPtr rb, chunk_size = toRead\<rparr>] else []) @
           (if remaining - toRead \<noteq> 0
            then [\<lparr>chunk_data = 0, chunk_size = remaining - toRead\<rparr>] else []))"

definition ringbuffer_commit_read_bytes :: "byte allocator \<Rightarrow> nat \<Rightarrow> unit rprog" where
  "ringbuffer_commit_read_bytes A sz =
     (if sz < 1 then ret ()
      else
        seq (assert_that (\<lambda>rb. sub64 (rsize rb) (freeSize rb) \<ge> sz))
       (bind (gets id) (\<lambda>rb.
        bind (size_mod (add64 (readPtr rb) sz) (rsize rb)) (\<lambda>r.
        seq (modify (\<lambda>rb. rb\<lparr>readPtr := r, freeSize := add64 (freeSize rb) sz\<rparr>))
       (bind (gets id) (\<lambda>rb.
        if rsize rb \<noteq> initialSize rb \<and> ringbuffer_used rb < initialSize rb div 2
        then (\<lambda>rb. case ringbuffer_realloc A (initialSize rb) rb of
                Failed rb' \<Rightarrow> Done () rb' | r \<Rightarrow> r)
        else ret ()))))))"

section \<open>Invariant and contents\<close>

text \<open>
  A ring buffer in use owns a block of its size and is never full: the two heads coincide only
  when nothing is stored. Sizes stay below \<open>2 ^ 63\<close>, so that no sum of two of them wraps.
\<close>

definition rb_inv :: "RingBuffer \<Rightarrow> bool" where
  "rb_inv rb \<longleftrightarrow>
     (case rbuffer rb of None \<Rightarrow> False | Some b \<Rightarrow> length b = rsize rb) \<and>
     rsize rb < 2 ^ 63 \<and> initialSize rb < 2 ^ 63 \<and>
     0 < freeSize rb \<and> freeSize rb \<le> rsize rb \<and> readPtr rb < rsize rb \<and>
     writePtr rb = (readPtr rb + (rsize rb - freeSize rb)) mod rsize rb"

definition rb_contents :: "RingBuffer \<Rightarrow> byte list" where
  "rb_contents rb = ring (the (rbuffer rb)) (readPtr rb) (rsize rb - freeSize rb)"

lemma rb_invE:
  assumes "rb_inv rb"
  obtains b u where "rbuffer rb = Some b" "length b = rsize rb" "rsize rb < 2 ^ 63"
    "initialSize rb < 2 ^ 63" "u < rsize rb" "freeSize rb = rsize rb - u" "readPtr rb < rsize rb"
    "writePtr rb = (readPtr rb + u) mod rsize rb" "rb_contents rb = ring b (readPtr rb) u"
    "length (rb_contents rb) = u" "ringbuffer_used rb = u"
proof -
  from assms obtain b where "rbuffer rb = Some b" "length b = rsize rb"
    by (auto simp: rb_inv_def split: option.splits)
  with assms show thesis
    by (intro that [of b "rsize rb - freeSize rb"])
      (auto simp: rb_inv_def rb_contents_def ringbuffer_used_def)
qed

lemma length_rb_contents: "rb_inv rb \<Longrightarrow> length (rb_contents rb) = rsize rb - freeSize rb"
  by (simp add: rb_contents_def)

lemma rb_used: "rb_inv rb \<Longrightarrow> ringbuffer_used rb = length (rb_contents rb)"
  by (erule rb_invE) simp

lemma rb_heads:
  fixes r u n :: nat
  assumes "r < n" and "u < n"
  shows "(r + u) mod n = r \<longleftrightarrow> u = 0"
    and "r < (r + u) mod n \<Longrightarrow> r + u < n \<and> (r + u) mod n = r + u"
    and "(r + u) mod n < r \<Longrightarrow> n \<le> r + u \<and> (r + u) mod n = r + u - n"
  using assms mod_once [of "r + u" n] by (auto split: if_splits)

lemma rb_linearize_run:
  assumes "rb_inv rb" and "writePtr rb \<noteq> readPtr rb" and "length (rb_contents rb) \<le> length nd"
  shows "rb_linearize nd rb = Done (Some (splice_at 0 (rb_contents rb) nd)) rb"
  using assms(1)
proof (rule rb_invE)
  fix b u
  let ?r = "readPtr rb" and ?n = "rsize rb" and ?w = "writePtr rb"
  assume b: "rbuffer rb = Some b" "length b = ?n" and n: "?n < 2 ^ 63" "u < ?n" "?r < ?n"
    and w: "?w = (?r + u) mod ?n" and c: "rb_contents rb = ring b ?r u"
    and u: "ringbuffer_used rb = u"
  have le: "u \<le> length nd" using assms(3) c by simp
  show ?thesis
  proof (cases "?r < ?w")
    case True
    then have "?r + u < ?n" using rb_heads(2) [of ?r ?n u] n w by simp
    then show ?thesis
      using True b u le by (simp add: rb_linearize_def c ring_linear)
  next
    case False
    then have "?w < ?r" using assms(2) by simp
    then have wrap: "?n \<le> ?r + u" "?w = ?r + u - ?n" using rb_heads(3) [of ?r ?n u] n w by simp_all
    have c': "rb_contents rb = drop ?r b @ take ?w b"
      using c wrap b n ring_wrapped [of ?r b u] by simp
    have tail: "sub64 ?n ?r = length (drop ?r b)" using n b by simp
    have "bind (bind (load_cells (Some b) ?r (?n - ?r)) (store_cells (Some nd) 0)) k rb =
        k (Some (splice_at 0 (drop ?r b) nd)) rb"
      for k :: "byte list option \<Rightarrow> byte list option rprog"
      using b n wrap le by simp
    moreover have "splice_at (?n - ?r) (take ?w b) (splice_at 0 (drop ?r b) nd) =
        splice_at 0 (drop ?r b @ take ?w b) nd"
      using splice_at_append [of 0 "drop ?r b" "take ?w b" nd] b n wrap le by simp
    ultimately show ?thesis
      using False b n wrap le tail c' by (simp add: rb_linearize_def Let_def)
  qed
qed

lemma realloc_refused: "\<not> grants A n \<Longrightarrow> ringbuffer_realloc A n rb = Failed rb"
  by (simp add: ringbuffer_realloc_def realloc_def malloc_def)

lemma realloc_keeps:
  assumes "rb_inv rb" and "length (rb_contents rb) < n" and "n < 2 ^ 63" and "grants A n"
  shows "\<exists>rb'. ringbuffer_realloc A n rb = Done () rb' \<and> rb_inv rb' \<and>
    rb_contents rb' = rb_contents rb \<and> rsize rb' = n \<and> initialSize rb' = initialSize rb"
  using assms(1)
proof (rule rb_invE)
  fix b u
  let ?r = "readPtr rb" and ?n = "rsize rb" and ?w = "writePtr rb"
  assume b: "rbuffer rb = Some b" "length b = ?n" and n: "?n < 2 ^ 63" "u < ?n" "?r < ?n"
    and i: "initialSize rb < 2 ^ 63" and f: "freeSize rb = ?n - u"
    and w: "?w = (?r + u) mod ?n" and c: "rb_contents rb = ring b ?r u"
    and u: "ringbuffer_used rb = u"
  have un: "u < n" using assms(2) c by simp
  have fr: "add64 (freeSize rb) (sub64 n ?n) = n - u"
    using add64_sub64 [of ?n "freeSize rb" n] n f un assms(3) by simp
  obtain b' where b': "realloc A (rbuffer rb) n = Some b'"
    using assms(4) by (cases "realloc A (rbuffer rb) n") auto
  have len': "length b' = n" using b' b(1) length_realloc by metis
  consider "?w = ?r" | "?r < ?w" "?w < n" | "?w \<noteq> ?r" "\<not> (?r < ?w \<and> ?w < n)" by linarith
  then show ?thesis
  proof cases
    case 1
    then have "u = 0" using rb_heads(1) [of ?r ?n u] n w by simp
    let ?rb = "rb\<lparr>readPtr := 0, writePtr := 0, rbuffer := Some b', freeSize := n, rsize := n\<rparr>"
    have "ringbuffer_realloc A n rb = Done () ?rb"
      using 1 b' fr \<open>u = 0\<close> by (simp add: ringbuffer_realloc_def)
    moreover have "rb_inv ?rb" "rb_contents ?rb = rb_contents rb"
      using len' un assms(3) i c \<open>u = 0\<close> by (simp_all add: rb_inv_def rb_contents_def)
    ultimately show ?thesis by (intro exI [of _ ?rb]) simp
  next
    case 2
    then have r: "?r + u < ?n" "?w = ?r + u" using rb_heads(2) [of ?r ?n u] n w by simp_all
    let ?rb = "rb\<lparr>rbuffer := Some b', freeSize := n - u, rsize := n\<rparr>"
    have "ringbuffer_realloc A n rb = Done () ?rb"
      using 2 b' fr by (simp add: ringbuffer_realloc_def)
    moreover have "rb_inv ?rb"
      using len' un assms(3) i 2 r by (simp add: rb_inv_def)
    moreover have "ring b' ?r u = ring b ?r u"
      using b' b 2 r by (intro ring_realloc [of A b n]) simp_all
    ultimately show ?thesis using c un by (intro exI [of _ ?rb]) (simp add: rb_contents_def)
  next
    case 3
    let ?nd = "map (garbage A) [0..<n]"
    let ?b = "splice_at 0 (rb_contents rb) ?nd"
    let ?rb = "rb\<lparr>writePtr := u, readPtr := 0, rbuffer := Some ?b, freeSize := n - u, rsize := n\<rparr>"
    have lin: "rb_linearize ?nd rb = Done (Some ?b) rb"
      using 3 assms(1,2) by (intro rb_linearize_run) simp_all
    have "malloc A n = Some ?nd" using assms(4) by (simp add: malloc_Some)
    then have "ringbuffer_realloc A n rb = Done () ?rb"
      using 3 lin fr n f by (auto simp: ringbuffer_realloc_def)
    moreover have lb: "length ?b = n" using assms(2) by simp
    moreover have "ring ?b 0 u = rb_contents rb"
      using lb un c by (simp add: ring_linear splice_at_def)
    ultimately show ?thesis
      using un assms(3) i by (intro exI [of _ ?rb]) (simp add: rb_contents_def rb_inv_def)
  qed
qed

lemma size_mod_run [simp]: "0 < b \<Longrightarrow> size_mod a b rb = Done (a mod b) rb"
  by (simp add: size_mod_def)

lemma rb_poke_run:
  "rbuffer rb = Some b \<Longrightarrow> i + length bs \<le> length b \<Longrightarrow>
    rb_poke i bs rb = Done () (rb\<lparr>rbuffer := Some (splice_at i bs b)\<rparr>)"
  by (simp add: rb_poke_def)

text \<open>Appending to a buffer with more free bytes than are written, in one piece or in two.\<close>

lemma rb_append:
  assumes "rb_inv rb" and "length xs < freeSize rb" and "rbuffer rb = Some b"
  defines "rb' \<equiv> rb\<lparr>rbuffer := Some (ring_store (writePtr rb) xs b),
      writePtr := (writePtr rb + length xs) mod rsize rb, freeSize := freeSize rb - length xs\<rparr>"
  shows "rb_inv rb'" and "rb_contents rb' = rb_contents rb @ xs"
proof -
  from assms(1,3) obtain u where u: "length b = rsize rb" "rsize rb < 2 ^ 63"
    "initialSize rb < 2 ^ 63" "u < rsize rb" "freeSize rb = rsize rb - u" "readPtr rb < rsize rb"
    "writePtr rb = (readPtr rb + u) mod rsize rb" "rb_contents rb = ring b (readPtr rb) u"
    by (auto elim!: rb_invE)
  have len: "length (ring_store (writePtr rb) xs b) = rsize rb"
    using u assms(2) by simp
  then show "rb_inv rb'"
    using u assms(2) by (auto simp: rb'_def rb_inv_def mod_simps add.assoc)
  have "rsize rb - (freeSize rb - length xs) = u + length xs" using u assms(2) by simp
  then show "rb_contents rb' = rb_contents rb @ xs"
    using u assms(2) ring_store_append [of "readPtr rb" b u xs]
    by (simp add: rb'_def rb_contents_def)
qed

lemma rb_copy_in_run:
  assumes "rb_inv rb" and "length ptr < freeSize rb"
  shows "\<exists>rb'. rb_copy_in ptr rb = Done () rb' \<and> rb_inv rb' \<and>
    rb_contents rb' = rb_contents rb @ ptr \<and> rsize rb' = rsize rb \<and>
    initialSize rb' = initialSize rb"
proof -
  from assms(1) obtain b where b: "rbuffer rb = Some b" "length b = rsize rb"
      "rsize rb < 2 ^ 63" "freeSize rb \<le> rsize rb" "writePtr rb < rsize rb"
    by (auto elim!: rb_invE)
  define t where "t = min (length ptr) (length b - writePtr rb)"
  let ?rb = "rb\<lparr>rbuffer := Some (ring_store (writePtr rb) ptr b),
      writePtr := (writePtr rb + length ptr) mod rsize rb, freeSize := freeSize rb - length ptr\<rparr>"
  have t: "(if sub64 (rsize rb) (writePtr rb) < length ptr
      then sub64 (rsize rb) (writePtr rb) else length ptr) = t"
    using b by (auto simp: t_def)
  have p1: "(if t \<noteq> 0 then rb_poke (writePtr rb) (take t ptr) else ret ()) rb =
      Done () (rb\<lparr>rbuffer := Some (splice_at (writePtr rb) (take t ptr) b)\<rparr>)"
    using b by (simp add: t_def rb_poke_run)
  have p2: "(if length ptr - t \<noteq> 0 then rb_poke 0 (drop t ptr) else ret ())
        (rb\<lparr>rbuffer := Some (splice_at (writePtr rb) (take t ptr) b)\<rparr>) =
      Done () (rb\<lparr>rbuffer := Some (ring_store (writePtr rb) ptr b)\<rparr>)"
    using b assms(2) by (auto simp: rb_poke_run ring_store_def Let_def t_def)
  have "rb_copy_in ptr rb = Done () ?rb"
    unfolding rb_copy_in_def Let_def bind_Done [OF gets_run] id_apply t
      seq_Done [where m = "if t \<noteq> 0 then rb_poke (writePtr rb) (take t ptr) else ret ()", OF p1]
      seq_Done [where m = "if length ptr - t \<noteq> 0 then rb_poke 0 (drop t ptr) else ret ()", OF p2]
    using b assms(2) by simp
  then show ?thesis
    using rb_append [OF assms b(1)] by (intro exI [of _ ?rb]) simp
qed

text \<open>
  Writing: with room to spare, or when the allocator grants the larger block, all bytes are
  appended; otherwise nothing changes.
\<close>

lemma write_appends:
  assumes "rb_inv rb" and "rsize rb + length ptr < 2 ^ 63"
    and "freeSize rb \<le> length ptr \<Longrightarrow> grants A (rsize rb + length ptr)"
  shows "\<exists>rb'. ringbuffer_write A ptr rb = Done () rb' \<and> rb_inv rb' \<and>
    rb_contents rb' = rb_contents rb @ ptr \<and> initialSize rb' = initialSize rb \<and>
    rsize rb' \<le> rsize rb + length ptr"
proof (cases "freeSize rb \<le> length ptr")
  case False
  then show ?thesis
    using rb_copy_in_run [of rb ptr] assms by (simp add: ringbuffer_write_def) (metis le_add1)
next
  case True
  have l: "length (rb_contents rb) < rsize rb"
    using assms(1) by (auto elim!: rb_invE)
  then obtain rb1 where r: "ringbuffer_realloc A (rsize rb + length ptr) rb = Done () rb1"
      "rb_inv rb1" "rb_contents rb1 = rb_contents rb" "rsize rb1 = rsize rb + length ptr"
      "initialSize rb1 = initialSize rb"
    using realloc_keeps [of rb "rsize rb + length ptr" A] True assms by auto
  have "length ptr < freeSize rb1"
    using l length_rb_contents [OF r(2)] r by simp
  then show ?thesis
    using rb_copy_in_run [of rb1 ptr] r True assms(2) by (auto simp: ringbuffer_write_def)
qed

lemma write_refused:
  assumes "rsize rb + length ptr < 2 ^ 64" and "freeSize rb \<le> length ptr"
    and "\<not> grants A (rsize rb + length ptr)"
  shows "ringbuffer_write A ptr rb = Failed rb"
  using assms by (simp add: ringbuffer_write_def realloc_refused)

text \<open>Reading in place: the chunks, one after the other, are the oldest bytes.\<close>

definition chunk_bytes :: "RingBuffer \<Rightarrow> DataChunk \<Rightarrow> byte list" where
  "chunk_bytes rb c = take (chunk_size c) (drop (chunk_data c) (the (rbuffer rb)))"

definition chunk_in :: "RingBuffer \<Rightarrow> DataChunk \<Rightarrow> bool" where
  "chunk_in rb c \<longleftrightarrow> 0 < chunk_size c \<and> chunk_data c + chunk_size c \<le> rsize rb"

lemma peek_chunks:
  assumes "rb_inv rb"
  shows "concat (map (chunk_bytes rb) (ringbuffer_peek sz rb)) = take sz (rb_contents rb)"
    and "\<forall>c \<in> set (ringbuffer_peek sz rb). chunk_in rb c"
    and "length (ringbuffer_peek sz rb) \<le> 2"
proof -
  from assms obtain b u where b: "rbuffer rb = Some b" "length b = rsize rb" "rsize rb < 2 ^ 63"
    "u < rsize rb" "freeSize rb = rsize rb - u" "readPtr rb < rsize rb"
    "rb_contents rb = ring b (readPtr rb) u"
    by (auto elim!: rb_invE)
  define m where "m = min sz u"
  have m: "(if sub64 (rsize rb) (freeSize rb) < sz then sub64 (rsize rb) (freeSize rb) else sz) = m"
    using b by (simp add: m_def min_def)
  have mu: "m \<le> u" by (simp add: m_def)
  have tk: "take sz (rb_contents rb) = ring b (readPtr rb) m"
    using b ring_take [of m u b "readPtr rb"] by (cases "sz \<le> u") (simp_all add: m_def min_def)
  have pk: "ringbuffer_peek sz rb =
     (if readPtr rb + m \<le> rsize rb
      then (if m = 0 then [] else [\<lparr>chunk_data = readPtr rb, chunk_size = m\<rparr>])
      else [\<lparr>chunk_data = readPtr rb, chunk_size = rsize rb - readPtr rb\<rparr>,
            \<lparr>chunk_data = 0, chunk_size = m - (rsize rb - readPtr rb)\<rparr>])"
    using b mu unfolding ringbuffer_peek_def m by (auto simp: Let_def m_def)
  show "length (ringbuffer_peek sz rb) \<le> 2" by (simp add: pk)
  show "\<forall>c \<in> set (ringbuffer_peek sz rb). chunk_in rb c"
    using b mu by (auto simp: pk chunk_in_def)
  show "concat (map (chunk_bytes rb) (ringbuffer_peek sz rb)) = take sz (rb_contents rb)"
  proof (cases "readPtr rb + m \<le> rsize rb")
    case True
    then show ?thesis unfolding tk using b by (simp add: pk chunk_bytes_def ring_linear)
  next
    case False
    then show ?thesis unfolding tk using b mu
      by (simp add: pk chunk_bytes_def ring_wrapped add.commute)
  qed
qed

text \<open>
  Consuming: the committed bytes leave the front, and the return to the original size, granted
  or not, loses nothing.
\<close>

lemma commit_read_drops:
  assumes "rb_inv rb" and "sz \<le> length (rb_contents rb)"
  shows "\<exists>rb'. ringbuffer_commit_read_bytes A sz rb = Done () rb' \<and> rb_inv rb' \<and>
    rb_contents rb' = drop sz (rb_contents rb) \<and> initialSize rb' = initialSize rb"
proof (cases "sz = 0")
  case True
  then show ?thesis using assms by (simp add: ringbuffer_commit_read_bytes_def)
next
  case False
  from assms(1) obtain b u where b: "rbuffer rb = Some b" "length b = rsize rb" "rsize rb < 2 ^ 63"
    "initialSize rb < 2 ^ 63" "u < rsize rb" "freeSize rb = rsize rb - u" "readPtr rb < rsize rb"
    "writePtr rb = (readPtr rb + u) mod rsize rb" "rb_contents rb = ring b (readPtr rb) u"
    by (auto elim!: rb_invE)
  let ?rb = "rb\<lparr>readPtr := (readPtr rb + sz) mod rsize rb, freeSize := freeSize rb + sz\<rparr>"
  have sz: "sz \<le> u" using assms(2) b by simp
  have "rsize rb - (rsize rb - u + sz) = u - sz" using b sz by simp
  moreover have "((readPtr rb + sz) mod rsize rb + (u - sz)) mod rsize rb = writePtr rb"
    using b sz by (simp only: mod_add_left_eq add.assoc le_add_diff_inverse)
  ultimately have inv: "rb_inv ?rb" "rb_contents ?rb = drop sz (rb_contents rb)"
    using b sz by (simp_all add: rb_inv_def rb_contents_def ring_drop [symmetric])
  have run: "ringbuffer_commit_read_bytes A sz rb =
     (if rsize rb \<noteq> initialSize rb \<and> ringbuffer_used ?rb < initialSize rb div 2
      then (case ringbuffer_realloc A (initialSize rb) ?rb of
              Failed rb' \<Rightarrow> Done () rb' | r \<Rightarrow> r)
      else Done () ?rb)"
    using False b sz by (simp add: ringbuffer_commit_read_bytes_def)
  show ?thesis
  proof (cases "rsize rb \<noteq> initialSize rb \<and> ringbuffer_used ?rb < initialSize rb div 2")
    case shrink: True
    then have lt: "length (rb_contents ?rb) < initialSize rb" using rb_used [OF inv(1)] by linarith
    show ?thesis
    proof (cases "grants A (initialSize rb)")
      case True
      then obtain rb' where "ringbuffer_realloc A (initialSize rb) ?rb = Done () rb'" "rb_inv rb'"
          "rb_contents rb' = rb_contents ?rb" "initialSize rb' = initialSize rb"
        using realloc_keeps [OF inv(1) lt b(4) True] by auto
      then show ?thesis using run shrink inv by simp
    next
      case False
      then show ?thesis using run shrink inv by (simp add: realloc_refused)
    qed
  next
    case False
    then show ?thesis using run inv by auto
  qed
qed

text \<open>Writing in place: a free segment of the requested size behind the contents.\<close>

lemma linear_write_move:
  assumes "rb_inv rb" and "sz \<le> freeSize rb" and "rsize rb \<le> writePtr rb + sz"
    and "writePtr rb = readPtr rb \<Longrightarrow> readPtr rb = 0"
  defines "n \<equiv> writePtr rb - readPtr rb"
  shows "readPtr rb \<le> writePtr rb" and "n = length (rb_contents rb)"
    and "rb_contents rb = take n (drop (readPtr rb) (the (rbuffer rb)))"
    and "readPtr rb + n \<le> rsize rb"
proof -
  from assms(1) obtain b u where b: "rbuffer rb = Some b" "length b = rsize rb" "u < rsize rb"
    "freeSize rb = rsize rb - u" "readPtr rb < rsize rb"
    "writePtr rb = (readPtr rb + u) mod rsize rb" "rb_contents rb = ring b (readPtr rb) u"
    by (auto elim!: rb_invE)
  have "\<not> writePtr rb < readPtr rb"
  proof
    assume "writePtr rb < readPtr rb"
    then have "writePtr rb = readPtr rb + u - rsize rb" "rsize rb \<le> readPtr rb + u"
      using rb_heads(3) [of "readPtr rb" "rsize rb" u] b by simp_all
    then show False using assms(2,3) b by linarith
  qed
  then show le: "readPtr rb \<le> writePtr rb" by simp
  have "n = u \<and> readPtr rb + u \<le> rsize rb"
  proof (cases "readPtr rb < writePtr rb")
    case True
    then show ?thesis
      using rb_heads(2) [OF b(5,3)] unfolding n_def b(6) [symmetric] by simp
  next
    case False
    then have "u = 0" using rb_heads(1) [OF b(5,3)] le unfolding b(6) [symmetric] by simp
    with False le b(5) show ?thesis by (simp add: n_def)
  qed
  then have fits: "n = u" "readPtr rb + u \<le> rsize rb" by simp_all
  then show "n = length (rb_contents rb)" "readPtr rb + n \<le> rsize rb" using b(7) by simp_all
  show "rb_contents rb = take n (drop (readPtr rb) (the (rbuffer rb)))"
    using b fits by (simp add: ring_linear)
qed

lemma rb_place_run:
  assumes "rb_inv rb" and "sz \<le> freeSize rb" and "writePtr rb = readPtr rb \<Longrightarrow> readPtr rb = 0"
  shows "\<exists>rb'. rb_place sz rb = Done (writePtr rb') rb' \<and> rb_inv rb' \<and>
    rb_contents rb' = rb_contents rb \<and> writePtr rb' + sz \<le> rsize rb' \<and>
    freeSize rb' = freeSize rb \<and> initialSize rb' = initialSize rb"
proof -
  from assms(1) obtain b where b: "rbuffer rb = Some b" "length b = rsize rb" "rsize rb < 2 ^ 63"
      "freeSize rb \<le> rsize rb" "writePtr rb < rsize rb" "0 < freeSize rb"
    by (auto elim!: rb_invE)
  have add: "add64 (writePtr rb) sz = writePtr rb + sz" using b assms(2) by simp
  show ?thesis
  proof (cases "writePtr rb + sz < rsize rb")
    case True
    then show ?thesis using assms add by (intro exI [of _ rb]) (simp add: rb_place_def)
  next
    case False
    define n where "n = writePtr rb - readPtr rb"
    have m: "readPtr rb \<le> writePtr rb" "n = length (rb_contents rb)" "readPtr rb + n \<le> rsize rb"
        "rb_contents rb = take n (drop (readPtr rb) b)"
      using linear_write_move [OF assms(1,2) _ assms(3)] False b by (simp_all add: n_def)
    have len: "n = rsize rb - freeSize rb"
      using length_rb_contents [OF assms(1)] m(2) by simp
    let ?b = "splice_at 0 (rb_contents rb) b"
    let ?rb = "rb\<lparr>rbuffer := Some ?b, readPtr := 0, writePtr := n\<rparr>"
    have lb: "length ?b = rsize rb" using b m(2) len by simp
    have sub: "sub64 (writePtr rb) (readPtr rb) = n" "sub64 (rsize rb) (freeSize rb) = n"
      using m(1) b len by (simp_all add: n_def)
    have load: "load_cells (rbuffer rb) (readPtr rb) n rb = Done (rb_contents rb) rb"
      using b m(3,4) by simp
    have poke: "rb_poke 0 (rb_contents rb) rb = Done () (rb\<lparr>rbuffer := Some ?b\<rparr>)"
      using b len m(2) by (intro rb_poke_run) simp_all
    have "rb_place sz rb = Done n ?rb"
      using False add sub load poke by (simp add: rb_place_def)
    moreover have "ring ?b 0 n = rb_contents rb"
      using lb len m(2) by (simp add: ring_linear splice_at_def)
    then have "rb_contents ?rb = rb_contents rb"
      unfolding rb_contents_def [of ?rb] using len by simp
    moreover have "rb_inv ?rb"
      using assms(1) b len lb by (simp add: rb_inv_def)
    moreover have "n + sz \<le> rsize rb" using len assms(2) b(4) by linarith
    ultimately show ?thesis by (intro exI [of _ ?rb]) simp
  qed
qed

lemma linear_write_grow:
  assumes "rb_inv rb" and "rsize rb + sz + 32 < 2 ^ 63"
    and "freeSize rb < sz \<Longrightarrow> grants A (rsize rb + sz - freeSize rb + 32)"
  shows "\<exists>rb'. (if freeSize rb < sz
        then ringbuffer_realloc A (add64 (sub64 (add64 (rsize rb) sz) (freeSize rb)) 32)
        else ret ()) rb = Done () rb' \<and> rb_inv rb' \<and> rb_contents rb' = rb_contents rb \<and>
      sz \<le> freeSize rb' \<and> (freeSize rb \<noteq> sz \<longrightarrow> sz < freeSize rb') \<and>
      initialSize rb' = initialSize rb"
proof (cases "freeSize rb < sz")
  case True
  let ?n = "rsize rb + sz - freeSize rb + 32"
  have free: "freeSize rb \<le> rsize rb" using assms(1) by (auto elim!: rb_invE)
  have tgt: "add64 (sub64 (add64 (rsize rb) sz) (freeSize rb)) 32 = ?n"
    using assms(2) free by simp
  have len: "length (rb_contents rb) = rsize rb - freeSize rb"
    using assms(1) by (rule length_rb_contents)
  have "length (rb_contents rb) < ?n" "?n < 2 ^ 63" using len assms(2) free by linarith+
  then obtain rb1 where r: "ringbuffer_realloc A ?n rb = Done () rb1"
      "rb_inv rb1" "rb_contents rb1 = rb_contents rb" "rsize rb1 = ?n"
      "initialSize rb1 = initialSize rb"
    using realloc_keeps [OF assms(1) _ _ assms(3) [OF True]] by blast
  have "rsize rb1 - freeSize rb1 = rsize rb - freeSize rb"
    using length_rb_contents [OF r(2)] r(3) len by simp
  then have "sz < freeSize rb1" using r(4) free by linarith
  then show ?thesis unfolding tgt using True r by simp
qed (use assms in simp)

lemma rb_reset_heads:
  assumes "rb_inv rb"
  defines "rb' \<equiv> if writePtr rb = readPtr rb then rb\<lparr>writePtr := 0, readPtr := 0\<rparr> else rb"
  shows "rb_inv rb'" and "rb_contents rb' = rb_contents rb"
    and "writePtr rb' = readPtr rb' \<Longrightarrow> readPtr rb' = 0"
proof -
  from assms(1) obtain b u where b: "rbuffer rb = Some b" "length b = rsize rb" "u < rsize rb"
    "freeSize rb = rsize rb - u" "readPtr rb < rsize rb"
    "writePtr rb = (readPtr rb + u) mod rsize rb"
    by (auto elim!: rb_invE)
  have u: "writePtr rb = readPtr rb \<longleftrightarrow> u = 0"
    using rb_heads(1) [of "readPtr rb" "rsize rb" u] b by simp
  show "rb_inv rb'" using assms(1) b u by (simp add: rb'_def rb_inv_def)
  show "rb_contents rb' = rb_contents rb" using b u by (simp add: rb'_def rb_contents_def)
  show "writePtr rb' = readPtr rb' \<Longrightarrow> readPtr rb' = 0" by (simp add: rb'_def split: if_splits)
qed

lemma ensure_linear_write_run:
  assumes "rb_inv rb" and "rsize rb + sz + 32 < 2 ^ 63"
    and "freeSize rb < sz \<Longrightarrow> grants A (rsize rb + sz - freeSize rb + 32)"
  shows "\<exists>rb'. ringbuffer_ensure_linear_write A sz rb = Done (writePtr rb') rb' \<and> rb_inv rb' \<and>
    rb_contents rb' = rb_contents rb \<and> writePtr rb' + sz \<le> rsize rb' \<and> sz \<le> freeSize rb' \<and>
    (freeSize rb \<noteq> sz \<longrightarrow> sz < freeSize rb') \<and> initialSize rb' = initialSize rb"
proof -
  obtain rb1 where g: "(if freeSize rb < sz
        then ringbuffer_realloc A (add64 (sub64 (add64 (rsize rb) sz) (freeSize rb)) 32)
        else ret ()) rb = Done () rb1"
      and r: "rb_inv rb1" "rb_contents rb1 = rb_contents rb" "sz \<le> freeSize rb1"
        "freeSize rb \<noteq> sz \<longrightarrow> sz < freeSize rb1" "initialSize rb1 = initialSize rb"
    using linear_write_grow [OF assms] by blast
  define rb2 where "rb2 = (if writePtr rb1 = readPtr rb1
    then rb1\<lparr>writePtr := 0, readPtr := 0\<rparr> else rb1)"
  note r2 = rb_reset_heads [OF r(1), folded rb2_def]
  have same: "freeSize rb2 = freeSize rb1" "initialSize rb2 = initialSize rb1"
    by (simp_all add: rb2_def)
  obtain rb' where p: "rb_place sz rb2 = Done (writePtr rb') rb'" "rb_inv rb'"
     "rb_contents rb' = rb_contents rb2" "writePtr rb' + sz \<le> rsize rb'"
     "freeSize rb' = freeSize rb2" "initialSize rb' = initialSize rb2"
    using rb_place_run [OF r2(1) _ r2(3)] r(3) same by auto
  have "ringbuffer_ensure_linear_write A sz rb = rb_place sz rb2"
    unfolding ringbuffer_ensure_linear_write_def bind_Done [OF gets_run] id_apply
    using g by (simp add: seq_def bind_def rb2_def)
  then show ?thesis using p r r2 same by (intro exI [of _ rb']) simp
qed

lemma commit_written_appends:
  assumes "rb_inv rb" and "length xs < freeSize rb" and "writePtr rb + length xs \<le> rsize rb"
  shows "\<exists>rb'. seq (rb_poke (writePtr rb) xs) (ringbuffer_commit_written_bytes (length xs)) rb =
      Done () rb' \<and> rb_inv rb' \<and> rb_contents rb' = rb_contents rb @ xs"
proof -
  from assms(1) obtain b where b: "rbuffer rb = Some b" "length b = rsize rb" "rsize rb < 2 ^ 63"
      "freeSize rb \<le> rsize rb" "writePtr rb < rsize rb"
    by (auto elim!: rb_invE)
  have s: "ring_store (writePtr rb) xs b = splice_at (writePtr rb) xs b"
    using assms(3) b by (simp add: ring_store_def Let_def min_absorb1)
  let ?rb = "rb\<lparr>rbuffer := Some (ring_store (writePtr rb) xs b),
      writePtr := (writePtr rb + length xs) mod rsize rb, freeSize := freeSize rb - length xs\<rparr>"
  have "seq (rb_poke (writePtr rb) xs) (ringbuffer_commit_written_bytes (length xs)) rb = Done () ?rb"
    using b assms(2,3) by (auto simp: rb_poke_run ringbuffer_commit_written_bytes_def s)
  then show ?thesis using rb_append [OF assms(1,2) b(1)] by (intro exI [of _ ?rb]) simp
qed

section \<open>The contract of a byte queue\<close>

text \<open>
  What the users of the buffer rely on, independent of its layout. \<open>sized s xs\<close> says that the
  sizes involved stay in range, \<open>granted s xs\<close> that the memory for \<open>xs\<close> is available; \<open>front n s\<close>
  are the pieces in which the oldest bytes are handed out.
\<close>

locale byte_queue =
  fixes inv :: "'s \<Rightarrow> bool" and contents :: "'s \<Rightarrow> byte list"
    and sized :: "'s \<Rightarrow> byte list \<Rightarrow> bool" and granted :: "'s \<Rightarrow> byte list \<Rightarrow> bool"
    and push :: "byte list \<Rightarrow> ('s, unit) prog" and front :: "nat \<Rightarrow> 's \<Rightarrow> byte list list"
    and pop :: "nat \<Rightarrow> ('s, unit) prog"
  assumes push_granted: "inv s \<Longrightarrow> sized s xs \<Longrightarrow> granted s xs \<Longrightarrow>
      \<exists>s'. push xs s = Done () s' \<and> inv s' \<and> contents s' = contents s @ xs"
    and push_refused: "inv s \<Longrightarrow> sized s xs \<Longrightarrow> \<not> granted s xs \<Longrightarrow> push xs s = Failed s"
    and front_bytes: "inv s \<Longrightarrow> concat (front n s) = take n (contents s)"
    and pop_drops: "inv s \<Longrightarrow> n \<le> length (contents s) \<Longrightarrow>
      \<exists>s'. pop n s = Done () s' \<and> inv s' \<and> contents s' = drop n (contents s)"
begin

text \<open>No outcome of a push loses bytes already stored.\<close>

lemma push_cases:
  assumes "inv s" and "sized s xs"
  obtains s' where "push xs s = Done () s'" "inv s'" "contents s' = contents s @ xs"
  | "push xs s = Failed s" "\<not> granted s xs"
  using assms push_granted push_refused by metis

text \<open>Consuming what was handed out and confirmed moves exactly those bytes out of the queue.\<close>

lemma pop_front:
  assumes "inv s" and "m \<le> length (concat (front n s))"
  shows "\<exists>s'. pop m s = Done () s' \<and> inv s' \<and> take m (concat (front n s)) @ contents s' = contents s"
proof -
  have "take m (concat (front n s)) = take m (contents s)" "m \<le> length (contents s)"
    using assms front_bytes [of s n] by simp_all
  then show ?thesis using pop_drops [of s m] assms(1) by (metis append_take_drop_id)
qed

end

definition rb_sized :: "RingBuffer \<Rightarrow> byte list \<Rightarrow> bool" where
  "rb_sized rb xs \<longleftrightarrow> rsize rb + length xs < 2 ^ 63"

definition rb_granted :: "byte allocator \<Rightarrow> RingBuffer \<Rightarrow> byte list \<Rightarrow> bool" where
  "rb_granted A rb xs \<longleftrightarrow> length xs < freeSize rb \<or> grants A (rsize rb + length xs)"

interpretation rbq: byte_queue rb_inv rb_contents rb_sized "rb_granted A" "ringbuffer_write A"
  "\<lambda>n rb. map (chunk_bytes rb) (ringbuffer_peek n rb)" "ringbuffer_commit_read_bytes A" for A
proof unfold_locales
  fix s xs n
  show "\<exists>s'. ringbuffer_write A xs s = Done () s' \<and> rb_inv s' \<and> rb_contents s' = rb_contents s @ xs"
    if "rb_inv s" "rb_sized s xs" "rb_granted A s xs"
    using write_appends [of s xs A] that by (auto simp: rb_sized_def rb_granted_def)
  show "ringbuffer_write A xs s = Failed s"
    if "rb_inv s" "rb_sized s xs" "\<not> rb_granted A s xs"
    using that by (intro write_refused) (auto simp: rb_sized_def rb_granted_def)
  show "concat (map (chunk_bytes s) (ringbuffer_peek n s)) = take n (rb_contents s)"
    if "rb_inv s"
    using that by (rule peek_chunks)
  show "\<exists>s'. ringbuffer_commit_read_bytes A n s = Done () s' \<and> rb_inv s' \<and>
      rb_contents s' = drop n (rb_contents s)" if "rb_inv s" "n \<le> length (rb_contents s)"
    using commit_read_drops [of s n A] that by auto
qed

section \<open>A buffer filled to the last byte\<close>

text \<open>
  Writing in place can use up the last free byte, which the invariant excludes. The heads then
  coincide as in an empty buffer. \<open>rb_full b rb\<close> says that every byte of the block \<open>b\<close> counts as used.
\<close>

definition rb_full :: "byte list \<Rightarrow> RingBuffer \<Rightarrow> bool" where
  "rb_full b rb \<longleftrightarrow> rbuffer rb = Some b \<and> length b = rsize rb \<and> rsize rb < 2 ^ 63 \<and>
     freeSize rb = 0 \<and> readPtr rb < rsize rb"

lemma exact_place:
  assumes "rb_inv rb"
  shows "\<exists>rb'. ringbuffer_ensure_linear_write A (freeSize rb) rb = Done (writePtr rb') rb' \<and>
    rb_inv rb' \<and> rb_contents rb' = rb_contents rb \<and> writePtr rb' + freeSize rb \<le> rsize rb \<and>
    freeSize rb' = freeSize rb \<and> rsize rb' = rsize rb"
proof -
  define rb2 where "rb2 = (if writePtr rb = readPtr rb then rb\<lparr>writePtr := 0, readPtr := 0\<rparr> else rb)"
  note r2 = rb_reset_heads [OF assms, folded rb2_def]
  have same: "freeSize rb2 = freeSize rb" "rsize rb2 = rsize rb" by (simp_all add: rb2_def)
  obtain rb' where p: "rb_place (freeSize rb) rb2 = Done (writePtr rb') rb'" "rb_inv rb'"
     "rb_contents rb' = rb_contents rb2" "writePtr rb' + freeSize rb \<le> rsize rb'"
     "freeSize rb' = freeSize rb2"
    using rb_place_run [OF r2(1) _ r2(3)] same by auto
  have "rsize rb' - freeSize rb' = rsize rb - freeSize rb"
    using length_rb_contents [OF p(2)] length_rb_contents [OF assms] p(3) r2(2) by simp
  moreover have "freeSize rb \<le> rsize rb" "freeSize rb' \<le> rsize rb'"
    using assms p(2) by (simp_all add: rb_inv_def)
  ultimately have "rsize rb' = rsize rb" using p(5) same by simp
  moreover have "ringbuffer_ensure_linear_write A (freeSize rb) rb = rb_place (freeSize rb) rb2"
    by (simp add: ringbuffer_ensure_linear_write_def rb2_def)
  ultimately show ?thesis using p r2 same by (intro exI [of _ rb']) simp
qed

lemma exact_fill:
  assumes "rb_inv rb" and "freeSize rb = length xs"
  shows "\<exists>rb' b. bind (ringbuffer_ensure_linear_write A (length xs)) (\<lambda>off.
      seq (rb_poke off xs) (ringbuffer_commit_written_bytes (length xs))) rb = Done () rb' \<and>
    rb_full b rb' \<and> writePtr rb' = readPtr rb' \<and> rsize rb' = rsize rb \<and>
    ring b (readPtr rb') (rsize rb) = rb_contents rb @ xs"
proof -
  obtain rb1 where r: "ringbuffer_ensure_linear_write A (length xs) rb = Done (writePtr rb1) rb1"
      "rb_inv rb1" "rb_contents rb1 = rb_contents rb" "writePtr rb1 + length xs \<le> rsize rb1"
      "freeSize rb1 = length xs" "rsize rb1 = rsize rb"
    using exact_place [OF assms(1), of A] assms(2) by auto
  from r(2) obtain b u where b: "rbuffer rb1 = Some b" "length b = rsize rb1" "rsize rb1 < 2 ^ 63"
      "u < rsize rb1" "freeSize rb1 = rsize rb1 - u" "readPtr rb1 < rsize rb1"
      "writePtr rb1 = (readPtr rb1 + u) mod rsize rb1" "rb_contents rb1 = ring b (readPtr rb1) u"
    by (auto elim!: rb_invE)
  have pos: "0 < length xs" "0 < rsize rb1" and sum: "u + length xs = rsize rb1" using b r(5) by simp_all
  have s: "ring_store (writePtr rb1) xs b = splice_at (writePtr rb1) xs b"
    using r(4) b by (simp add: ring_store_def Let_def min_absorb1)
  have w: "(writePtr rb1 + length xs) mod rsize rb1 = readPtr rb1"
    using b sum by (simp add: mod_simps add.assoc)
  let ?b = "ring_store (writePtr rb1) xs b"
  let ?rb = "rb1\<lparr>rbuffer := Some ?b, writePtr := readPtr rb1, freeSize := 0\<rparr>"
  have "seq (rb_poke (writePtr rb1) xs) (ringbuffer_commit_written_bytes (length xs)) rb1 = Done () ?rb"
    using b(1-3) r(4,5) pos w by (simp add: rb_poke_run ringbuffer_commit_written_bytes_def s)
  moreover have "rb_full ?b ?rb" using b r by (simp add: rb_full_def)
  moreover have "ring ?b (readPtr rb1) (rsize rb) = rb_contents rb @ xs"
    using ring_store_append [of "readPtr rb1" b u xs] b sum r(3,6) by simp
  ultimately show ?thesis using r(1,6) by (intro exI [of _ ?rb] exI [of _ ?b]) simp
qed

lemma full_peek:
  assumes "rb_full b rb"
  shows "ringbuffer_used rb = rsize rb"
    and "concat (map (chunk_bytes rb) (ringbuffer_peek (rsize rb) rb)) = ring b (readPtr rb) (rsize rb)"
proof -
  have b: "rbuffer rb = Some b" "length b = rsize rb" "rsize rb < 2 ^ 63" "freeSize rb = 0" "readPtr rb < rsize rb"
    using assms by (simp_all add: rb_full_def)
  show "ringbuffer_used rb = rsize rb" using b by (simp add: ringbuffer_used_def)
  show "concat (map (chunk_bytes rb) (ringbuffer_peek (rsize rb) rb)) = ring b (readPtr rb) (rsize rb)"
    using b ring_wrapped [of "readPtr rb" b "rsize rb"]
    by (cases "readPtr rb = 0") (auto simp: ringbuffer_peek_def chunk_bytes_def Let_def)
qed

lemma full_write:
  assumes "rb_full b rb" and "writePtr rb = readPtr rb" and "rsize rb + length ys < 2 ^ 63" and "ys \<noteq> []"
    and "grants A (rsize rb + length ys)"
  shows "\<exists>rb' junk. ringbuffer_write A ys rb = Done () rb' \<and> length junk = length ys \<and>
    rb_full (ys @ drop (length ys) (b @ junk)) rb' \<and> readPtr rb' = 0 \<and>
    rsize rb' = rsize rb + length ys"
proof -
  have b: "rbuffer rb = Some b" "length b = rsize rb" "freeSize rb = 0" "readPtr rb < rsize rb"
    using assms(1) by (simp_all add: rb_full_def)
  define junk where "junk = map (garbage A) [rsize rb..<rsize rb + length ys]"
  let ?rb1 = "rb\<lparr>readPtr := 0, writePtr := 0, rbuffer := Some (b @ junk), freeSize := length ys,
      rsize := rsize rb + length ys\<rparr>"
  have r: "ringbuffer_realloc A (rsize rb + length ys) rb = Done () ?rb1"
    using b assms(2,3,5) by (simp add: ringbuffer_realloc_def realloc_def junk_def)
  have c: "rb_copy_in ys ?rb1 = Done () (?rb1\<lparr>rbuffer := Some (ys @ drop (length ys) (b @ junk)),
      writePtr := length ys, freeSize := 0\<rparr>)"
    using b assms(2-4) by (simp add: rb_copy_in_def Let_def rb_poke_run splice_at_def junk_def ac_simps)
  show ?thesis
    using r c b assms(2-4)
    by (intro exI [of _ "?rb1\<lparr>rbuffer := Some (ys @ drop (length ys) (b @ junk)),
      writePtr := length ys, freeSize := 0\<rparr>"] exI [of _ junk])
      (simp add: ringbuffer_write_def rb_full_def junk_def)
qed

section \<open>Properties\<close>

definition demo_rb :: RingBuffer where
  "demo_rb = \<lparr>initialSize = 4, freeSize = 2, rsize = 4, readPtr = 3, writePtr = 1,
     rbuffer = Some [20, 0, 0, 10]\<rparr>"

definition demo_alloc :: "byte allocator" where
  "demo_alloc = \<lparr>grants = (\<lambda>_. True), garbage = (\<lambda>_. 0)\<rparr>"

lemma demo_rb_ok [simp]: "rb_inv demo_rb" "rb_contents demo_rb = [10, 20]" "rsize demo_rb = 4"
    "freeSize demo_rb = 2"
  by (simp_all add: demo_rb_def rb_inv_def rb_contents_def ring_def upt_rec)

text \<open>
  C1. Writing to a ring buffer appends. On a buffer that satisfies the invariant, with sizes in
  range, \<^verbatim>\<open>ringbuffer_write\<close> either succeeds, and then the stored bytes are the old ones followed by
  the new ones, wherever the heads stand and whether the block was enlarged or not, or the
  allocator refused the larger block and the buffer is exactly what it was.
\<close>

theorem ringbuffer_write_appends:
  assumes "rb_inv rb" and "rsize rb + length xs < 2 ^ 63"
  shows "(\<exists>rb'. ringbuffer_write A xs rb = Done () rb' \<and> rb_inv rb' \<and>
            rb_contents rb' = rb_contents rb @ xs) \<or>
         ringbuffer_write A xs rb = Failed rb \<and> freeSize rb \<le> length xs \<and>
           \<not> grants A (rsize rb + length xs)"
  by (rule rbq.push_cases [of rb xs A])
    (use assms in \<open>auto simp: rb_sized_def rb_granted_def not_less\<close>)

theorem ringbuffer_write_appends_witness:
  "\<exists>rb'. ringbuffer_write demo_alloc [30, 40, 50] demo_rb = Done () rb' \<and> rb_inv rb' \<and>
     rb_contents rb' = [10, 20, 30, 40, 50]"
  using ringbuffer_write_appends [of demo_rb "[30, 40, 50]" demo_alloc]
  by (simp add: demo_alloc_def)

text \<open>
  C3. Reading from a ring buffer is in order. The at most two chunks that \<^verbatim>\<open>ringbuffer_peek\<close> hands
  out lie inside the block and are not empty, and together they are the oldest bytes; committing
  any number of bytes up to what is stored removes exactly those from the front, also when the
  block shrinks back to its initial size or the allocator refuses to shrink it.
\<close>

theorem ringbuffer_peek_commit:
  assumes "rb_inv rb" and "m \<le> length (rb_contents rb)"
  shows "concat (map (chunk_bytes rb) (ringbuffer_peek n rb)) = take n (rb_contents rb) \<and>
    length (ringbuffer_peek n rb) \<le> 2 \<and> list_all (chunk_in rb) (ringbuffer_peek n rb) \<and>
    (\<exists>rb'. ringbuffer_commit_read_bytes A m rb = Done () rb' \<and> rb_inv rb' \<and>
       rb_contents rb' = drop m (rb_contents rb))"
  using peek_chunks [OF assms(1)] rbq.pop_drops [OF assms] by (simp add: list_all_iff)

theorem ringbuffer_peek_commit_witness:
  "concat (map (chunk_bytes demo_rb) (ringbuffer_peek 2 demo_rb)) = [10, 20] \<and>
   (\<exists>rb'. ringbuffer_commit_read_bytes demo_alloc 1 demo_rb = Done () rb' \<and> rb_inv rb' \<and>
      rb_contents rb' = [20])"
  using ringbuffer_peek_commit [of demo_rb 1 2 demo_alloc] by simp

text \<open>
  C27. Writing in place is safe with a byte to spare. After \<^verbatim>\<open>ringbuffer_ensure_linear_write\<close> for
  \<open>sz\<close> bytes, filling the segment it returned with at most \<open>sz\<close> bytes and committing them appends
  these bytes, provided the free space was not exactly \<open>sz\<close> before.
\<close>

theorem ringbuffer_linear_write_appends:
  assumes "rb_inv rb" and "rsize rb + sz + 32 < 2 ^ 63" and "length xs \<le> sz"
    and "freeSize rb \<noteq> sz" and "freeSize rb < sz \<Longrightarrow> grants A (rsize rb + sz - freeSize rb + 32)"
  shows "\<exists>rb'. bind (ringbuffer_ensure_linear_write A sz) (\<lambda>off.
      seq (rb_poke off xs) (ringbuffer_commit_written_bytes (length xs))) rb = Done () rb' \<and>
    rb_inv rb' \<and> rb_contents rb' = rb_contents rb @ xs"
proof -
  obtain rb1 where r: "ringbuffer_ensure_linear_write A sz rb = Done (writePtr rb1) rb1"
      "rb_inv rb1" "rb_contents rb1 = rb_contents rb" "writePtr rb1 + sz \<le> rsize rb1"
      "sz < freeSize rb1"
    using ensure_linear_write_run [OF assms(1,2,5)] assms(4) by auto
  then show ?thesis using commit_written_appends [of rb1 xs] assms(3) by simp
qed

theorem ringbuffer_linear_write_appends_witness:
  "\<exists>rb'. bind (ringbuffer_ensure_linear_write demo_alloc 3) (\<lambda>off.
      seq (rb_poke off [7]) (ringbuffer_commit_written_bytes 1)) demo_rb = Done () rb' \<and>
    rb_inv rb' \<and> rb_contents rb' = [10, 20, 7]"
  using ringbuffer_linear_write_appends [of demo_rb 3 "[7]" demo_alloc]
  by (simp add: demo_alloc_def)

text \<open>
  C38. Filling a ring buffer to the last byte loses data. On any buffer that satisfies the invariant,
  filling in place a segment of exactly the free size is accepted, and all bytes can be peeked at.
  But the heads now coincide, which \<^verbatim>\<open>ringbuffer_realloc\<close> takes for an empty buffer: for every \<open>ys\<close>
  written next, with memory granted, success is reported and the sizes add up, yet what is peeked at
  afterwards starts with \<open>ys\<close>, in place of the first bytes of the old block \<open>b\<close>, and ends with as many
  bytes never written. Before the write, \<open>b\<close> held all stored bytes, from its offset \<open>r\<close> on.
\<close>

theorem ringbuffer_exact_fill_overwrites:
  assumes "rb_inv rb" and "freeSize rb = length xs" and "ys \<noteq> []" and "rsize rb + length ys < 2 ^ 63"
    and "grants A (rsize rb + length ys)"
  shows "\<exists>rb1 rb2 b r junk.
    bind (ringbuffer_ensure_linear_write A (length xs)) (\<lambda>off.
      seq (rb_poke off xs) (ringbuffer_commit_written_bytes (length xs))) rb = Done () rb1 \<and>
    concat (map (chunk_bytes rb1) (ringbuffer_peek (ringbuffer_used rb1) rb1)) = rb_contents rb @ xs \<and>
    drop r b @ take r b = rb_contents rb @ xs \<and>
    ringbuffer_write A ys rb1 = Done () rb2 \<and> ringbuffer_used rb2 = length (rb_contents rb @ xs @ ys) \<and>
    concat (map (chunk_bytes rb2) (ringbuffer_peek (ringbuffer_used rb2) rb2)) =
      ys @ drop (length ys) (b @ junk) \<and> length junk = length ys"
proof -
  obtain rb1 b where f: "bind (ringbuffer_ensure_linear_write A (length xs)) (\<lambda>off.
      seq (rb_poke off xs) (ringbuffer_commit_written_bytes (length xs))) rb = Done () rb1"
      "rb_full b rb1" "writePtr rb1 = readPtr rb1" "rsize rb1 = rsize rb"
      "ring b (readPtr rb1) (rsize rb) = rb_contents rb @ xs"
    using exact_fill [OF assms(1,2)] by blast
  have full: "rsize rb1 + length ys < 2 ^ 63" "grants A (rsize rb1 + length ys)" using assms(4,5) f(4) by simp_all
  obtain rb2 junk where w: "ringbuffer_write A ys rb1 = Done () rb2" "length junk = length ys"
      "rb_full (ys @ drop (length ys) (b @ junk)) rb2" "readPtr rb2 = 0" "rsize rb2 = rsize rb + length ys"
    using full_write [OF f(2,3) full(1) assms(3) full(2)] f(4) by metis
  have len: "length b = rsize rb" "readPtr rb1 < rsize rb" using f(2,4) by (simp_all add: rb_full_def)
  have "drop (readPtr rb1) b @ take (readPtr rb1) b = rb_contents rb @ xs"
    using ring_wrapped [of "readPtr rb1" b "rsize rb"] len f(5) by simp
  moreover have "length (rb_contents rb @ xs) = rsize rb" using f(5) by (metis length_ring)
  moreover have "ring (ys @ drop (length ys) (b @ junk)) 0 (rsize rb2) = ys @ drop (length ys) (b @ junk)"
    using w(2,5) len by (simp add: ring_linear)
  ultimately show ?thesis
    using f w full_peek [OF f(2)] full_peek [OF w(3)]
    by (intro exI [of _ rb1] exI [of _ rb2] exI [of _ b] exI [of _ "readPtr rb1"] exI [of _ junk]) simp
qed

theorem ringbuffer_exact_fill_overwrites_witness:
  "\<exists>rb1 rb2 b r junk.
    bind (ringbuffer_ensure_linear_write demo_alloc 2) (\<lambda>off.
      seq (rb_poke off [30, 40]) (ringbuffer_commit_written_bytes 2)) demo_rb = Done () rb1 \<and>
    concat (map (chunk_bytes rb1) (ringbuffer_peek (ringbuffer_used rb1) rb1)) = [10, 20, 30, 40] \<and>
    drop r b @ take r b = [10, 20, 30, 40] \<and>
    ringbuffer_write demo_alloc [50] rb1 = Done () rb2 \<and> ringbuffer_used rb2 = 5 \<and>
    concat (map (chunk_bytes rb2) (ringbuffer_peek (ringbuffer_used rb2) rb2)) = 50 # drop 1 (b @ junk)"
  using ringbuffer_exact_fill_overwrites [of demo_rb "[30, 40]" "[50]" demo_alloc]
  by (simp add: demo_alloc_def [THEN arg_cong [where f = grants]] numeral_2_eq_2 [symmetric] del: drop_append) blast

end
