(* ===== verification/BufferedBio.thy ===== *)
theory BufferedBio
  imports RingBuffer
begin

text \<open>
  The socket and buffering layers of \<^verbatim>\<open>libfreerdp/core/tcp.c\<close>: the simple socket BIO, the buffered
  BIO on top of it with its transmit ring buffer, and that together they deliver every byte once
  and in order. The operating system's socket calls are parameters with the contract of
  \<^verbatim>\<open>send(2)\<close>.
\<close>

section \<open>The simple socket BIO\<close>

text \<open>
  The socket is the operating system's: \<open>os_send\<close> and \<open>os_recv\<close> are the \<^verbatim>\<open>_send\<close> and \<^verbatim>\<open>_recv\<close> calls with
  the error code \<^verbatim>\<open>WSAGetLastError\<close> reports after them, on a state of type \<open>'k\<close>. The flags of the
  OpenSSL \<^verbatim>\<open>BIO\<close> are three Booleans.
\<close>

datatype sock_error = WSAEWOULDBLOCK | WSAEINTR | WSAEINPROGRESS | WSAEALREADY | WSAEOther

record 'k simple_bio =
  sock :: 'k
  FLAGS_READ :: bool
  FLAGS_WRITE :: bool
  FLAGS_SHOULD_RETRY :: bool

type_synonym 'k os_send = "'k \<Rightarrow> byte list \<Rightarrow> int \<times> sock_error \<times> 'k"
type_synonym 'k os_recv = "'k \<Rightarrow> nat \<Rightarrow> byte list option \<times> sock_error \<times> 'k"

definition transient :: "sock_error \<Rightarrow> bool" where
  "transient e \<longleftrightarrow> e = WSAEWOULDBLOCK \<or> e = WSAEINTR \<or> e = WSAEINPROGRESS \<or> e = WSAEALREADY"

definition transport_bio_simple_write ::
    "'k os_send \<Rightarrow> 'k simple_bio \<Rightarrow> byte list \<Rightarrow> int \<times> 'k simple_bio" where
  "transport_bio_simple_write os bio buf =
     (case os (sock bio) buf of (status, e, k) \<Rightarrow>
        (let bio = bio\<lparr>FLAGS_WRITE := False, sock := k\<rparr>
         in (status,
             if status \<le> 0
             then (if transient e then bio\<lparr>FLAGS_WRITE := True, FLAGS_SHOULD_RETRY := True\<rparr>
                   else bio\<lparr>FLAGS_SHOULD_RETRY := False\<rparr>)
             else bio)))"

text \<open>
  A receive yields the bytes (none of them: the peer closed) or an error; the result carries what
  was copied into the caller's buffer.
\<close>

definition transport_bio_simple_read ::
    "'k os_recv \<Rightarrow> 'k simple_bio \<Rightarrow> nat \<Rightarrow> int \<times> byte list \<times> 'k simple_bio" where
  "transport_bio_simple_read os bio n =
     (case os (sock bio) n of (r, e, k) \<Rightarrow>
        (let bio = bio\<lparr>FLAGS_READ := False, sock := k\<rparr>
         in case r of
              Some bs \<Rightarrow> if bs \<noteq> [] then (int (length bs), bs, bio)
                         else (0, [], bio\<lparr>FLAGS_SHOULD_RETRY := False\<rparr>)
            | None \<Rightarrow> (- 1, [], if transient e
                       then bio\<lparr>FLAGS_READ := True, FLAGS_SHOULD_RETRY := True\<rparr>
                       else bio\<lparr>FLAGS_SHOULD_RETRY := False\<rparr>)))"

section \<open>The buffered BIO\<close>

text \<open>
  What the buffered BIO calls on the BIO below it, \<^verbatim>\<open>BIO_next(bio)\<close>, whose state has type \<open>'n\<close>.
\<close>

record 'n bio_ops =
  BIO_write :: "'n \<Rightarrow> byte list \<Rightarrow> int \<times> 'n"
  BIO_read :: "'n \<Rightarrow> nat \<Rightarrow> int \<times> byte list \<times> 'n"
  BIO_should_retry :: "'n \<Rightarrow> bool"
  BIO_should_write :: "'n \<Rightarrow> bool"
  BIO_should_read :: "'n \<Rightarrow> bool"

record 'n buffered_bio =
  next_bio :: 'n
  readBlocked :: bool
  writeBlocked :: bool
  xmitBuffer :: RingBuffer
  bFLAGS_READ :: bool
  bFLAGS_WRITE :: bool
  bFLAGS_SHOULD_RETRY :: bool

datatype send_status = AllSent | WouldBlock | FatalError | CountTooLarge

text \<open>
  The inner loop of \<^verbatim>\<open>transport_bio_buffered_write\<close> on one chunk, with the committed bytes so far;
  \<open>None\<close> is a loop that never ends. A count larger than the chunk would make its remaining size wrap
  around.
\<close>

partial_function (option) send_chunk ::
    "'n bio_ops \<Rightarrow> byte list \<Rightarrow> nat \<Rightarrow> 'n \<Rightarrow> (send_status \<times> nat \<times> 'n) option" where
  "send_chunk B data committed n =
     (if data = [] then Some (AllSent, committed, n)
      else (case BIO_write B n data of (status, n') \<Rightarrow>
        if status \<le> 0
        then (if \<not> BIO_should_retry B n' then Some (FatalError, committed, n')
              else if BIO_should_write B n' then Some (WouldBlock, committed, n')
              else send_chunk B data committed n')
        else if nat status > length data then Some (CountTooLarge, committed, n')
        else send_chunk B (drop (nat status) data) (committed + nat status) n'))"

fun send_chunks ::
    "'n bio_ops \<Rightarrow> byte list list \<Rightarrow> nat \<Rightarrow> 'n \<Rightarrow> (send_status \<times> nat \<times> 'n) option" where
  "send_chunks B [] committed n = Some (AllSent, committed, n)"
| "send_chunks B (c # cs) committed n =
     (case send_chunk B c committed n of
        Some (AllSent, committed', n') \<Rightarrow> send_chunks B cs committed' n'
      | r \<Rightarrow> r)"

text \<open>The second half of \<^verbatim>\<open>transport_bio_buffered_write\<close>: hand out, send, commit.\<close>

definition buffered_flush ::
    "byte allocator \<Rightarrow> 'n bio_ops \<Rightarrow> int \<Rightarrow> ('n buffered_bio, int) prog" where
  "buffered_flush A B num st =
     (let rb = xmitBuffer st;
          chunks = map (chunk_bytes rb) (ringbuffer_peek (ringbuffer_used rb) rb)
      in case send_chunks B chunks 0 (next_bio st) of
           None \<Rightarrow> Fault NonTermination
         | Some (CountTooLarge, _, _) \<Rightarrow> Fault OutOfBounds
         | Some (r, committed, n) \<Rightarrow>
             (case ringbuffer_commit_read_bytes A committed rb of
                Fault e \<Rightarrow> Fault e
              | Failed rb' \<Rightarrow> Failed (st\<lparr>xmitBuffer := rb', next_bio := n\<rparr>)
              | Done _ rb' \<Rightarrow>
                  (let st = st\<lparr>xmitBuffer := rb', next_bio := n\<rparr>
                   in case r of
                        FatalError \<Rightarrow> Done (- 1) (st\<lparr>bFLAGS_SHOULD_RETRY := False\<rparr>)
                      | WouldBlock \<Rightarrow> Done num (st\<lparr>bFLAGS_WRITE := True, writeBlocked := True\<rparr>)
                      | _ \<Rightarrow> Done num st)))"

definition transport_bio_buffered_write ::
    "byte allocator \<Rightarrow> 'n bio_ops \<Rightarrow> byte list option \<Rightarrow> int \<Rightarrow> ('n buffered_bio, int) prog" where
  "transport_bio_buffered_write A B buf num st0 =
     (let st = st0\<lparr>writeBlocked := False, bFLAGS_WRITE := False\<rparr>
      in case buf of
           Some data \<Rightarrow>
             if num \<noteq> 0
             then (case ringbuffer_write A (take (nat num) data) (xmitBuffer st) of
                     Fault e \<Rightarrow> Fault e
                   | Failed rb \<Rightarrow> Done (- 1) (st\<lparr>xmitBuffer := rb\<rparr>)
                   | Done _ rb \<Rightarrow> buffered_flush A B num (st\<lparr>xmitBuffer := rb\<rparr>))
             else buffered_flush A B num st
         | None \<Rightarrow> buffered_flush A B num st)"

definition transport_bio_buffered_read ::
    "'n bio_ops \<Rightarrow> nat \<Rightarrow> 'n buffered_bio \<Rightarrow> int \<times> byte list \<times> 'n buffered_bio" where
  "transport_bio_buffered_read B n st0 =
     (let st = st0\<lparr>readBlocked := False, bFLAGS_READ := False\<rparr>
      in case BIO_read B (next_bio st) n of (status, bs, n') \<Rightarrow>
           (let st = st\<lparr>next_bio := n'\<rparr>
            in (status, bs,
                if status \<le> 0
                then (if \<not> BIO_should_retry B n' then st\<lparr>bFLAGS_SHOULD_RETRY := False\<rparr>
                      else if BIO_should_read B n'
                      then st\<lparr>bFLAGS_SHOULD_RETRY := True, bFLAGS_READ := True, readBlocked := True\<rparr>
                      else st\<lparr>bFLAGS_SHOULD_RETRY := True\<rparr>)
                else st)))"

datatype bio_cmd = BIO_CTRL_FLUSH | BIO_CTRL_WPENDING | BIO_CTRL_PENDING | BIO_C_READ_BLOCKED
  | BIO_C_WRITE_BLOCKED

text \<open>The commands the buffered BIO answers itself; all others go to the next BIO.\<close>

fun transport_bio_buffered_ctrl ::
    "byte allocator \<Rightarrow> 'n bio_ops \<Rightarrow> bio_cmd \<Rightarrow> ('n buffered_bio, int) prog" where
  "transport_bio_buffered_ctrl A B BIO_CTRL_FLUSH st =
     (if ringbuffer_used (xmitBuffer st) = 0 then Done 1 st
      else (case transport_bio_buffered_write A B None 0 st of
              Done r st' \<Rightarrow> Done (if r \<ge> 0 then 1 else - 1) st'
            | r \<Rightarrow> r))"
| "transport_bio_buffered_ctrl A B BIO_CTRL_WPENDING st = Done (int (ringbuffer_used (xmitBuffer st))) st"
| "transport_bio_buffered_ctrl A B BIO_CTRL_PENDING st = Done 0 st"
| "transport_bio_buffered_ctrl A B BIO_C_READ_BLOCKED st = Done (if readBlocked st then 1 else 0) st"
| "transport_bio_buffered_ctrl A B BIO_C_WRITE_BLOCKED st = Done (if writeBlocked st then 1 else 0) st"

text \<open>A new buffered BIO on top of \<open>n\<close>: the structure is zeroed, its buffer has \<open>0x10000\<close> bytes.\<close>

definition transport_bio_buffered_new :: "byte allocator \<Rightarrow> 'n \<Rightarrow> ('n buffered_bio, int) outcome" where
  "transport_bio_buffered_new A n =
     (let rb = \<lparr>initialSize = 0, freeSize = 0, rsize = 0, readPtr = 0, writePtr = 0, rbuffer = None\<rparr>;
          st = \<lparr>next_bio = n, readBlocked = False, writeBlocked = False, xmitBuffer = rb,
                bFLAGS_READ = False, bFLAGS_WRITE = False, bFLAGS_SHOULD_RETRY = True\<rparr>
      in case ringbuffer_init A 0x10000 rb of
           Done _ rb' \<Rightarrow> Done 1 (st\<lparr>xmitBuffer := rb'\<rparr>)
         | Failed rb' \<Rightarrow> Done (- 1) (st\<lparr>xmitBuffer := rb'\<rparr>)
         | Fault e \<Rightarrow> Fault e)"

section \<open>Sending in order\<close>

text \<open>
  What the buffered BIO relies on: a write of the next BIO takes a prefix of the bytes it is given,
  as long as the count it returns, or takes none and returns at most zero; in that case, when it may
  be retried, it says that it waits for the socket to become writable. \<open>accepted\<close> observes the bytes
  the next BIO has taken so far.
\<close>

definition bio_contract :: "'n bio_ops \<Rightarrow> ('n \<Rightarrow> byte list) \<Rightarrow> bool" where
  "bio_contract B accepted \<longleftrightarrow>
     (\<forall>n data. data \<noteq> [] \<longrightarrow> (case BIO_write B n data of (status, n') \<Rightarrow>
        if status \<le> 0
        then accepted n' = accepted n \<and> (BIO_should_retry B n' \<longrightarrow> BIO_should_write B n')
        else nat status \<le> length data \<and> accepted n' = accepted n @ take (nat status) data))"

lemma bio_contractE:
  assumes "bio_contract B accepted" and "data \<noteq> []" and "BIO_write B n data = (status, n')"
  obtains "status \<le> 0" "accepted n' = accepted n" "BIO_should_retry B n' \<Longrightarrow> BIO_should_write B n'"
  | "0 < status" "nat status \<le> length data" "accepted n' = accepted n @ take (nat status) data"
proof -
  from assms(1,2) have "case BIO_write B n data of (status, n') \<Rightarrow>
        if status \<le> 0
        then accepted n' = accepted n \<and> (BIO_should_retry B n' \<longrightarrow> BIO_should_write B n')
        else nat status \<le> length data \<and> accepted n' = accepted n @ take (nat status) data"
    by (simp add: bio_contract_def)
  note law = this [unfolded assms(3) prod.case]
  show thesis
  proof (cases "status \<le> 0")
    case True
    then show thesis using law by (intro that(1)) simp_all
  next
    case False
    then show thesis using law by (intro that(2)) simp_all
  qed
qed

lemma send_chunk_run:
  assumes "bio_contract B accepted"
  shows "\<exists>r k n'. send_chunk B data c n = Some (r, c + k, n') \<and> k \<le> length data \<and>
    accepted n' = accepted n @ take k data \<and> r \<noteq> CountTooLarge \<and>
    (r = AllSent \<longleftrightarrow> k = length data)"
proof (induction "length data" arbitrary: data c n rule: less_induct)
  case less
  show ?case
  proof (cases "data = []")
    case True
    then show ?thesis by (subst send_chunk.simps) simp
  next
    case False
    obtain status n' where w: "BIO_write B n data = (status, n')" by fastforce
    from assms False w show ?thesis
    proof (cases rule: bio_contractE)
      case 1
      then show ?thesis using False w by (subst send_chunk.simps) auto
    next
      case 2
      let ?d = "drop (nat status) data"
      have "length ?d < length data" using 2(1) False by (cases data) auto
      from less.hyps [OF this, of "c + nat status" n'] obtain r k n2 where r:
        "send_chunk B ?d (c + nat status) n' = Some (r, c + nat status + k, n2)" "k \<le> length ?d"
        "accepted n2 = accepted n' @ take k ?d" "r \<noteq> CountTooLarge" "r = AllSent \<longleftrightarrow> k = length ?d"
        by blast
      have "send_chunk B data c n = Some (r, c + (nat status + k), n2)"
        using 2 False w r(1) by (subst send_chunk.simps) (simp add: add.assoc)
      moreover have "accepted n2 = accepted n @ take (nat status + k) data"
        using r(3) 2(3) by (simp add: take_add)
      ultimately show ?thesis
        using r 2(2) by (intro exI [of _ r] exI [of _ "nat status + k"] exI [of _ n2]) auto
    qed
  qed
qed

lemma send_chunks_run:
  assumes "bio_contract B accepted"
  shows "\<exists>r k n'. send_chunks B cs c n = Some (r, c + k, n') \<and> k \<le> length (concat cs) \<and>
    accepted n' = accepted n @ take k (concat cs) \<and> r \<noteq> CountTooLarge \<and>
    (r = AllSent \<longleftrightarrow> k = length (concat cs))"
proof (induction cs arbitrary: c n)
  case (Cons d cs)
  obtain r k n1 where d: "send_chunk B d c n = Some (r, c + k, n1)" "k \<le> length d"
      "accepted n1 = accepted n @ take k d" "r \<noteq> CountTooLarge" "r = AllSent \<longleftrightarrow> k = length d"
    using send_chunk_run [OF assms, of d c n] by blast
  show ?case
  proof (cases "r = AllSent")
    case True
    obtain r' k' n2 where "send_chunks B cs (c + k) n1 = Some (r', c + k + k', n2)"
        "k' \<le> length (concat cs)" "accepted n2 = accepted n1 @ take k' (concat cs)"
        "r' \<noteq> CountTooLarge" "r' = AllSent \<longleftrightarrow> k' = length (concat cs)"
      using Cons.IH [of "c + k" n1] by blast
    then show ?thesis
      using d True by (intro exI [of _ r'] exI [of _ "k + k'"] exI [of _ n2]) (simp add: add.assoc)
  next
    case False
    then have "send_chunks B (d # cs) c n = Some (r, c + k, n1)"
      using d(1) by (cases r) simp_all
    then show ?thesis
      using d False by (intro exI [of _ r] exI [of _ k] exI [of _ n1]) simp
  qed
qed simp

text \<open>
  A write that the next BIO refused for now. When a flush ends blocked without having sent a byte,
  the refusal was the only thing that happened below.
\<close>

definition stalled :: "'n bio_ops \<Rightarrow> 'n \<Rightarrow> 'n \<Rightarrow> bool" where
  "stalled B n n' \<longleftrightarrow> (\<exists>data status. data \<noteq> [] \<and> BIO_write B n data = (status, n') \<and> status \<le> 0 \<and>
     BIO_should_retry B n')"

lemma send_chunk_stalled:
  assumes "bio_contract B accepted" and "send_chunk B data c n = Some (WouldBlock, c, n')"
  shows "stalled B n n'"
proof -
  have ne: "data \<noteq> []" using assms(2) by (subst (asm) send_chunk.simps) auto
  obtain status m where w: "BIO_write B n data = (status, m)" by fastforce
  from assms(1) ne w show ?thesis
  proof (cases rule: bio_contractE)
    case 1
    then show ?thesis
      using assms(2) w ne by (subst (asm) send_chunk.simps) (auto simp: stalled_def split: if_splits)
  next
    case 2
    obtain r k n2 where "send_chunk B (drop (nat status) data) (c + nat status) m =
        Some (r, c + nat status + k, n2)"
      using send_chunk_run [OF assms(1), of "drop (nat status) data" "c + nat status" m] by blast
    then have "send_chunk B data c n = Some (r, c + nat status + k, n2)"
      using 2 w ne by (subst send_chunk.simps) simp
    then show ?thesis using 2(1) assms(2) by simp
  qed
qed

lemma send_chunks_stalled:
  assumes "bio_contract B accepted" and "send_chunks B cs c n = Some (WouldBlock, c, n')"
  shows "stalled B n n'"
  using assms(2)
proof (induction cs)
  case (Cons d cs)
  obtain r k n1 where d: "send_chunk B d c n = Some (r, c + k, n1)" "r = AllSent \<longleftrightarrow> k = length d"
    using send_chunk_run [OF assms(1), of d c n] by blast
  show ?case
  proof (cases "r = AllSent")
    case True
    obtain r' k' n2 where s: "send_chunks B cs (c + k) n1 = Some (r', c + k + k', n2)"
      using send_chunks_run [OF assms(1), of cs "c + k" n1] by blast
    with True d Cons.prems have "k = 0" by simp
    with True d have "d = []" by simp
    then have "n1 = n" using d(1) by (subst (asm) send_chunk.simps) simp
    then show ?thesis using Cons d(1) True \<open>k = 0\<close> by simp
  next
    case False
    then have "send_chunk B d c n = Some (WouldBlock, c, n')"
      using Cons.prems d(1) by (cases r) auto
    then show ?thesis by (rule send_chunk_stalled [OF assms(1)])
  qed
qed simp

text \<open>One flush: what leaves the buffer is what the next BIO has taken.\<close>

lemma buffered_flush_run:
  assumes "bio_contract B accepted" and "rb_inv (xmitBuffer st)" and "\<not> writeBlocked st"
  shows "\<exists>r st'. buffered_flush A B num st = Done r st' \<and> rb_inv (xmitBuffer st') \<and>
    accepted (next_bio st') @ rb_contents (xmitBuffer st') =
      accepted (next_bio st) @ rb_contents (xmitBuffer st) \<and>
    (r = num \<or> r = - 1 \<and> \<not> bFLAGS_SHOULD_RETRY st') \<and>
    (r = - 1 \<or> writeBlocked st' \<or> rb_contents (xmitBuffer st') = []) \<and>
    (writeBlocked st' \<longrightarrow> r = num \<and> rb_contents (xmitBuffer st') \<noteq> [] \<and>
       (length (rb_contents (xmitBuffer st')) < length (rb_contents (xmitBuffer st)) \<or>
        rb_contents (xmitBuffer st') = rb_contents (xmitBuffer st) \<and>
        stalled B (next_bio st) (next_bio st')))"
proof -
  let ?rb = "xmitBuffer st"
  let ?cs = "map (chunk_bytes ?rb) (ringbuffer_peek (ringbuffer_used ?rb) ?rb)"
  have all: "concat ?cs = rb_contents ?rb"
    using rbq.front_bytes [OF assms(2)] rb_used [OF assms(2)] by simp
  obtain r k n where s: "send_chunks B ?cs 0 (next_bio st) = Some (r, k, n)"
      "k \<le> length (rb_contents ?rb)" "accepted n = accepted (next_bio st) @ take k (rb_contents ?rb)"
      "r \<noteq> CountTooLarge" "r = AllSent \<longleftrightarrow> k = length (rb_contents ?rb)"
    using send_chunks_run [OF assms(1), of ?cs 0 "next_bio st"] all by auto
  obtain rb' where c: "ringbuffer_commit_read_bytes A k ?rb = Done () rb'" "rb_inv rb'"
      "rb_contents rb' = drop k (rb_contents ?rb)"
    using rbq.pop_drops [OF assms(2) s(2)] by blast
  have run: "buffered_flush A B num st =
      (let st' = st\<lparr>xmitBuffer := rb', next_bio := n\<rparr>
       in case r of FatalError \<Rightarrow> Done (- 1) (st'\<lparr>bFLAGS_SHOULD_RETRY := False\<rparr>)
          | WouldBlock \<Rightarrow> Done num (st'\<lparr>bFLAGS_WRITE := True, writeBlocked := True\<rparr>)
          | _ \<Rightarrow> Done num st')"
    using s(1,4) c(1) by (cases r) (simp_all add: buffered_flush_def Let_def)
  have keep: "accepted n @ rb_contents rb' = accepted (next_bio st) @ rb_contents ?rb"
    using s(3) c(3) by simp
  show ?thesis
  proof (cases r)
    case WouldBlock
    then have k: "k < length (rb_contents ?rb)" using s(2,5) by (simp add: le_less)
    have "stalled B (next_bio st) n" if "k = 0"
      using send_chunks_stalled [OF assms(1)] s(1) WouldBlock that by blast
    then show ?thesis using run keep c(2,3) WouldBlock k by (cases "k = 0") (auto simp: Let_def)
  qed (use run keep c(2,3) s(4,5) assms(3) in \<open>auto simp: Let_def\<close>)
qed

section \<open>The socket below\<close>

definition send_contract :: "'k os_send \<Rightarrow> ('k \<Rightarrow> byte list) \<Rightarrow> bool" where
  "send_contract os accepted \<longleftrightarrow>
     (\<forall>k data. data \<noteq> [] \<longrightarrow> (case os k data of (status, e, k') \<Rightarrow>
        if status \<le> 0 then accepted k' = accepted k
        else nat status \<le> length data \<and> accepted k' = accepted k @ take (nat status) data))"

definition simple_bio_ops :: "'k os_send \<Rightarrow> 'k os_recv \<Rightarrow> 'k simple_bio bio_ops" where
  "simple_bio_ops os_s os_r =
     \<lparr>BIO_write = transport_bio_simple_write os_s, BIO_read = transport_bio_simple_read os_r,
      BIO_should_retry = FLAGS_SHOULD_RETRY, BIO_should_write = FLAGS_WRITE,
      BIO_should_read = FLAGS_READ\<rparr>"

lemma simple_bio_contract:
  assumes "send_contract os_s accepted"
  shows "bio_contract (simple_bio_ops os_s os_r) (accepted \<circ> sock)"
  using assms
  by (fastforce simp: bio_contract_def send_contract_def simple_bio_ops_def Let_def
      transport_bio_simple_write_def split: prod.splits)

text \<open>One write: the buffer takes the bytes after those it holds, and is flushed.\<close>

lemma buffered_write_run:
  assumes "send_contract os_s accepted" and "rb_inv (xmitBuffer st)"
    and "rsize (xmitBuffer st) + length data < 2 ^ 31"
  shows "\<exists>r st'. transport_bio_buffered_write A (simple_bio_ops os_s os_r) (Some data)
        (int (length data)) st = Done r st' \<and>
    rb_inv (xmitBuffer st') \<and>
    (r = int (length data) \<or> r = - 1 \<and> (\<not> bFLAGS_SHOULD_RETRY st' \<or>
       (\<exists>rb. ringbuffer_write A data (xmitBuffer st) = Failed rb))) \<and>
    (let out = (\<lambda>st. accepted (sock (next_bio st)) @ rb_contents (xmitBuffer st))
     in out st' = out st @ data \<or> r = - 1 \<and> out st' = out st) \<and>
    (r = - 1 \<or> writeBlocked st' \<or> rb_contents (xmitBuffer st') = []) \<and>
    (writeBlocked st' \<longrightarrow> r = int (length data) \<and> rb_contents (xmitBuffer st') \<noteq> [])"
proof -
  let ?B = "simple_bio_ops os_s os_r"
  let ?st = "st\<lparr>writeBlocked := False, bFLAGS_WRITE := False\<rparr>"
  note B = simple_bio_contract [OF assms(1), of os_r]
  show ?thesis
  proof (cases "data = []")
    case True
    then show ?thesis
      using buffered_flush_run [OF B, of ?st A 0] assms(2)
      by (auto simp: transport_bio_buffered_write_def Let_def)
  next
    case False
    have "rb_sized (xmitBuffer st) data" using assms(3) by (simp add: rb_sized_def)
    with assms(2) show ?thesis
    proof (cases rule: rbq.push_cases [of _ _ A])
      case (1 rb)
      then show ?thesis
        using buffered_flush_run [OF B, of "?st\<lparr>xmitBuffer := rb\<rparr>" A "int (length data)"] False
        by (auto simp: transport_bio_buffered_write_def Let_def)
    next
      case 2
      then show ?thesis
        using False assms(2) by (simp add: transport_bio_buffered_write_def Let_def)
    qed
  qed
qed

section \<open>Properties\<close>

text \<open>A socket that takes at most two bytes per call and blocks after four.\<close>

definition demo_send :: "byte list os_send" where
  "demo_send k data = (if length k \<ge> 4 then (- 1, WSAEWOULDBLOCK, k)
     else (int (min 2 (length data)), WSAEOther, k @ take 2 data))"

definition demo_recv :: "byte list os_recv" where
  "demo_recv k n = (None, WSAEWOULDBLOCK, k)"

definition demo_bio :: "byte list simple_bio buffered_bio" where
  "demo_bio = \<lparr>next_bio = \<lparr>sock = [], FLAGS_READ = False, FLAGS_WRITE = False,
       FLAGS_SHOULD_RETRY = True\<rparr>, readBlocked = False, writeBlocked = True, xmitBuffer = demo_rb,
     bFLAGS_READ = False, bFLAGS_WRITE = False, bFLAGS_SHOULD_RETRY = True\<rparr>"

text \<open>
  C11. The transport sends every byte once and in order. When a buffered BIO on top of a socket is
  written to, then, whatever the socket accepts of each call and whether it blocks, fails or takes
  everything, \<^verbatim>\<open>transport_bio_buffered_write\<close> returns; the bytes the socket has taken followed by the
  bytes still in the transmit buffer are the old ones followed by the new ones, or without the new
  ones if there was no memory for them; the result is the number of bytes or \<open>-1\<close>; and with a
  result other than \<open>-1\<close>, either the BIO is marked as blocked or nothing is left in the buffer.
\<close>

theorem buffered_write_in_order:
  assumes "send_contract os_s accepted" and "rb_inv (xmitBuffer st)"
    and "rsize (xmitBuffer st) + length data < 2 ^ 31"
  shows "\<exists>r st'. transport_bio_buffered_write A (simple_bio_ops os_s os_r) (Some data)
        (int (length data)) st = Done r st' \<and>
    rb_inv (xmitBuffer st') \<and> (r = int (length data) \<or> r = - 1) \<and>
    (let out = (\<lambda>st. accepted (sock (next_bio st)) @ rb_contents (xmitBuffer st))
     in out st' = out st @ data \<or> r = - 1 \<and> out st' = out st) \<and>
    (r = - 1 \<or> writeBlocked st' \<or> rb_contents (xmitBuffer st') = [])"
  using buffered_write_run [OF assms, of A os_r] unfolding Let_def by blast

lemma demo_send_contract: "send_contract demo_send id"
  by (auto simp: send_contract_def demo_send_def min_def take_all_iff)

theorem buffered_write_in_order_witness:
  "\<exists>r st'. transport_bio_buffered_write demo_alloc (simple_bio_ops demo_send demo_recv)
        (Some [30, 40, 50]) 3 demo_bio = Done r st' \<and> rb_inv (xmitBuffer st') \<and>
     (sock (next_bio st') @ rb_contents (xmitBuffer st') = [10, 20, 30, 40, 50] \<or> r = - 1) \<and>
     (r = - 1 \<or> writeBlocked st' \<or> rb_contents (xmitBuffer st') = [])"
  using buffered_write_in_order [OF demo_send_contract, of demo_bio "[30, 40, 50]" demo_alloc demo_recv]
  by (auto simp: demo_bio_def Let_def)

end
