(* ===== verification/RpcPipe.thy ===== *)
theory RpcPipe
  imports RingBuffer
begin

text \<open>
  The receive pipe of the RPC gateway client, \<^verbatim>\<open>libfreerdp/core/gateway/rpc_client.c\<close>: a second user
  of the ring buffer, with an event that tells its reader about data.
\<close>

section \<open>Operations\<close>

text \<open>
  The part of \<^verbatim>\<open>RpcClient\<close> that the two functions touch. A null \<open>buffer\<close> or client is rejected with
  \<open>-1\<close> before anything else and is left out. A read copies into a buffer with room for \<open>len\<close> bytes;
  the result is the count and the bytes copied.
\<close>

record RpcClient =
  ReceivePipe :: RingBuffer
  PipeEvent :: bool

definition rpc_client_receive_pipe_write ::
    "byte allocator \<Rightarrow> byte list \<Rightarrow> (RpcClient, int) prog" where
  "rpc_client_receive_pipe_write A buf c =
     (case ringbuffer_write A buf (ReceivePipe c) of
        Fault e \<Rightarrow> Fault e
      | r \<Rightarrow>
        (let (status, rb) = (case r of Done _ rb \<Rightarrow> (int (length buf), rb)
                             | Failed rb \<Rightarrow> (0, rb) | Fault _ \<Rightarrow> (0, ReceivePipe c));
             c' = c\<lparr>ReceivePipe := rb\<rparr>
         in Done status (if ringbuffer_used rb > 0 then c'\<lparr>PipeEvent := True\<rparr> else c')))"

definition rpc_client_receive_pipe_read ::
    "byte allocator \<Rightarrow> nat \<Rightarrow> (RpcClient, int \<times> byte list) prog" where
  "rpc_client_receive_pipe_read A len c =
     (let rb = ReceivePipe c;
          bytes = concat (map (chunk_bytes rb) (ringbuffer_peek len rb));
          status = length bytes
      in case (if status > 0 then ringbuffer_commit_read_bytes A status rb else Done () rb) of
           Done _ rb' \<Rightarrow>
             (let c' = c\<lparr>ReceivePipe := rb'\<rparr>;
                  c'' = (if ringbuffer_used rb' < 1 then c'\<lparr>PipeEvent := False\<rparr> else c')
              in Done (if status > 2147483647 then - 1 else int status, bytes) c'')
         | Failed rb' \<Rightarrow> Failed (c\<lparr>ReceivePipe := rb'\<rparr>)
         | Fault e \<Rightarrow> Fault e)"

section \<open>Properties\<close>

definition pipe_inv :: "RpcClient \<Rightarrow> bool" where
  "pipe_inv c \<longleftrightarrow> rb_inv (ReceivePipe c) \<and> PipeEvent c = (rb_contents (ReceivePipe c) \<noteq> [])"

text \<open>
  C33. The receive pipe of the RPC client is a byte stream whose event says whether it holds data: a
  write appends all its bytes and returns their number, or returns \<open>0\<close> with nothing stored, which
  happens only when the larger block it needs is refused; a read returns at most \<open>len\<close> bytes, the
  oldest ones, and removes exactly those; and after either one the event is signalled exactly when
  bytes are left.
\<close>

theorem receive_pipe_stream:
  assumes "pipe_inv c" and "rsize (ReceivePipe c) + length buf < 2 ^ 31"
  shows "(\<exists>c'. (rpc_client_receive_pipe_write A buf c = Done (int (length buf)) c' \<and>
              rb_contents (ReceivePipe c') = rb_contents (ReceivePipe c) @ buf \<or>
            rpc_client_receive_pipe_write A buf c = Done 0 c' \<and> ReceivePipe c' = ReceivePipe c \<and>
              freeSize (ReceivePipe c) \<le> length buf \<and> \<not> grants A (rsize (ReceivePipe c) + length buf)) \<and>
           pipe_inv c') \<and>
         (\<exists>c'. rpc_client_receive_pipe_read A len c =
              Done (int (min len (length (rb_contents (ReceivePipe c)))),
                    take len (rb_contents (ReceivePipe c))) c' \<and>
            rb_contents (ReceivePipe c') = drop len (rb_contents (ReceivePipe c)) \<and> pipe_inv c')"
proof (rule conjI)
  let ?rb = "ReceivePipe c"
  have inv: "rb_inv ?rb" and ev: "PipeEvent c = (rb_contents ?rb \<noteq> [])"
    using assms(1) by (simp_all add: pipe_inv_def)
  have "rb_sized ?rb buf" using assms(2) by (simp add: rb_sized_def)
  with inv show "\<exists>c'. (rpc_client_receive_pipe_write A buf c = Done (int (length buf)) c' \<and>
              rb_contents (ReceivePipe c') = rb_contents ?rb @ buf \<or>
            rpc_client_receive_pipe_write A buf c = Done 0 c' \<and> ReceivePipe c' = ?rb \<and>
              freeSize ?rb \<le> length buf \<and> \<not> grants A (rsize ?rb + length buf)) \<and> pipe_inv c'"
  proof (cases rule: rbq.push_cases [of _ _ A])
    case (1 rb')
    then show ?thesis
      using ev by (auto simp: rpc_client_receive_pipe_write_def Let_def pipe_inv_def rb_used)
  next
    case 2
    then show ?thesis
      using ev inv by (auto simp: rpc_client_receive_pipe_write_def Let_def pipe_inv_def rb_used rb_granted_def)
  qed
  let ?m = "min len (length (rb_contents ?rb))"
  have bytes: "concat (map (chunk_bytes ?rb) (ringbuffer_peek len ?rb)) = take len (rb_contents ?rb)"
    using rbq.front_bytes [OF inv] .
  obtain rb' where c: "ringbuffer_commit_read_bytes A ?m ?rb = Done () rb'" "rb_inv rb'"
      "rb_contents rb' = drop ?m (rb_contents ?rb)"
    using rbq.pop_drops [OF inv, of ?m A] by auto
  have small: "length (rb_contents ?rb) < 2 ^ 31"
    using length_rb_contents [OF inv] assms(2) by linarith
  have z: "?m = 0 \<Longrightarrow> rb' = ?rb"
    using c(1) by (simp add: ringbuffer_commit_read_bytes_def)
  have d: "drop ?m (rb_contents ?rb) = drop len (rb_contents ?rb)"
    by (simp add: min_def)
  have run: "(if ?m > 0 then ringbuffer_commit_read_bytes A ?m ?rb else Done () ?rb) = Done () rb'"
    using c(1) z by auto
  have len: "length (take len (rb_contents ?rb)) = ?m" by (simp add: min.commute)
  let ?c = "if ringbuffer_used rb' < 1 then c\<lparr>ReceivePipe := rb', PipeEvent := False\<rparr>
    else c\<lparr>ReceivePipe := rb'\<rparr>"
  have "rpc_client_receive_pipe_read A len c = Done (int ?m, take len (rb_contents ?rb)) ?c"
    unfolding rpc_client_receive_pipe_read_def Let_def bytes len run using small by simp
  moreover have "rb_contents (ReceivePipe ?c) = drop len (rb_contents ?rb)" using c(3) d by simp
  moreover have "pipe_inv ?c" using ev c(2,3) z by (auto simp: pipe_inv_def rb_used)
  ultimately show "\<exists>c'. rpc_client_receive_pipe_read A len c =
        Done (int ?m, take len (rb_contents ?rb)) c' \<and>
      rb_contents (ReceivePipe c') = drop len (rb_contents ?rb) \<and> pipe_inv c'"
    by blast
qed

theorem receive_pipe_stream_witness:
  "\<exists>c'. rpc_client_receive_pipe_read demo_alloc 1 \<lparr>ReceivePipe = demo_rb, PipeEvent = True\<rparr> =
     Done (1, [10]) c' \<and> rb_contents (ReceivePipe c') = [20] \<and> pipe_inv c'"
  using receive_pipe_stream [of "\<lparr>ReceivePipe = demo_rb, PipeEvent = True\<rparr>" "[]" demo_alloc 1]
  by (auto simp: pipe_inv_def)

end
