(* ===== verification/Objects.thy ===== *)
theory Objects
  imports Memory
begin

text \<open>
  What the collections of \<^verbatim>\<open>winpr/libwinpr/utils/collections\<close> share: pointers, the callbacks of
  \<^verbatim>\<open>wObject\<close>, one cell of an array of pointers, and the two loops over such an array that several
  collections run, the scan for an equal object and the release of a segment.
\<close>

section \<open>Pointers and callbacks\<close>

text \<open>
  A \<^verbatim>\<open>void*\<close> is an optional object, \<open>None\<close> for \<^verbatim>\<open>NULL\<close>. The callbacks of the user are optional
  functions; a collection records what \<^verbatim>\<open>fnObjectFree\<close> was called on, so of that callback only
  whether it is set is kept here.
\<close>

type_synonym 'p pointer = "'p option"

record 'p wObject =
  fnObjectNew :: "('p pointer \<Rightarrow> 'p pointer) option"
  fnObjectFree :: bool
  fnObjectEquals :: "('p pointer \<Rightarrow> 'p pointer \<Rightarrow> bool) option"

text \<open>\<open>cell_get\<close> and \<open>cell_set\<close> are \<^verbatim>\<open>array[i]\<close> on the right and on the left of \<^verbatim>\<open>=\<close>.\<close>

definition cell_get :: "'p pointer list option \<Rightarrow> nat \<Rightarrow> ('s, 'p pointer) prog" where
  "cell_get arr i = bind (load_cells arr i 1) (\<lambda>xs. ret (hd xs))"

definition cell_set ::
    "'p pointer list option \<Rightarrow> nat \<Rightarrow> 'p pointer \<Rightarrow> ('s, 'p pointer list option) prog" where
  "cell_set arr i x = store_cells arr i [x]"

text \<open>The first index from \<open>i\<close> up to below \<open>n\<close> whose object equals \<open>obj\<close>.\<close>

function find_equal ::
    "'p wObject \<Rightarrow> 'p pointer list option \<Rightarrow> 'p pointer \<Rightarrow> nat \<Rightarrow> nat \<Rightarrow> ('s, nat option) prog" where
  "find_equal ob arr obj i n =
     (if i < n
      then bind (cell_get arr i) (\<lambda>x.
        case fnObjectEquals ob of
          None \<Rightarrow> fault NullDereference
        | Some f \<Rightarrow> if f x obj then ret (Some i) else find_equal ob arr obj (i + 1) n)
      else ret None)"
  by pat_completeness auto
termination
  by (relation "measure (\<lambda>(_, _, _, i, n). n - i)") auto

text \<open>
  Releasing the cells from \<open>i\<close> up to below \<open>n\<close>: each object is handed to \<^verbatim>\<open>fnObjectFree\<close>, if set, and
  its cell becomes \<^verbatim>\<open>NULL\<close>. The result is the array and the objects released.
\<close>

function release_cells ::
    "'p wObject \<Rightarrow> 'p pointer list option \<Rightarrow> nat \<Rightarrow> nat \<Rightarrow>
      ('s, 'p pointer list option \<times> 'p pointer list) prog" where
  "release_cells ob arr i n =
     (if i < n
      then bind (cell_get arr i) (\<lambda>x.
           bind (cell_set arr i None) (\<lambda>arr'.
           bind (release_cells ob arr' (i + 1) n) (\<lambda>(arr'', xs).
           ret (arr'', if fnObjectFree ob then x # xs else xs))))
      else ret (arr, []))"
  by pat_completeness auto
termination
  by (relation "measure (\<lambda>(_, _, i, n). n - i)") auto

declare find_equal.simps [simp del] release_cells.simps [simp del]

section \<open>What the loops compute\<close>

lemma cell_get_run [simp]: "i < length a \<Longrightarrow> cell_get (Some a) i s = Done (a ! i) s"
  by (simp add: cell_get_def hd_drop_conv_nth take_Suc)

lemma cell_set_run [simp]: "i < length a \<Longrightarrow> cell_set (Some a) i x s = Done (Some (a[i := x])) s"
  by (simp add: cell_set_def splice_at_def upd_conv_take_nth_drop)

lemma find_equal_run:
  assumes "fnObjectEquals ob = Some f" and "n \<le> length a"
  shows "find_equal ob (Some a) obj i n s = Done (List.find (\<lambda>j. f (a ! j) obj) [i..<n]) s"
proof (induction "n - i" arbitrary: i s)
  case 0
  then show ?case by (simp add: find_equal.simps)
next
  case (Suc k)
  then have i: "i < n" "i < length a" "k = n - Suc i" using assms(2) by linarith+
  show ?case
  proof (cases "f (a ! i) obj")
    case True
    then show ?thesis using i assms(1) by (subst find_equal.simps) (simp add: upt_rec [of i n])
  next
    case False
    then show ?thesis
      using i assms(1) Suc.hyps(1) [of "Suc i" s]
      by (subst find_equal.simps) (simp add: upt_rec [of i n])
  qed
qed

lemma release_cells_run:
  assumes "i \<le> n" and "n \<le> length a"
  shows "release_cells ob (Some a) i n s =
    Done (Some (take i a @ replicate (n - i) None @ drop n a),
          if fnObjectFree ob then drop i (take n a) else []) s"
  using assms
proof (induction "n - i" arbitrary: i a s)
  case 0
  then show ?case by (simp add: release_cells.simps)
next
  case (Suc k)
  then have i: "i < n" "i < length a" "k = n - Suc i" "n - i = Suc k" by linarith+
  then have "take i a @ None # replicate k None @ drop n a =
      take (Suc i) (a[i := None]) @ replicate k None @ drop n (a[i := None])"
    by (simp add: take_Suc_conv_app_nth)
  moreover have "drop i (take n a) = a ! i # drop (Suc i) (take n (a[i := None]))"
    using i by (simp add: Cons_nth_drop_Suc [symmetric] drop_update_cancel take_update_swap)
  ultimately show ?case
    using i Suc.prems Suc.hyps(1) [of "Suc i" "a[i := None]"] by (simp add: release_cells.simps)
qed

lemma find_upt_Some:
  assumes "List.find P [i..<n] = Some j"
  shows "i \<le> j" and "j < n" and "P j" and "\<And>k. i \<le> k \<Longrightarrow> k < j \<Longrightarrow> \<not> P k"
proof -
  from assms obtain m where m: "m < length [i..<n]" "P ([i..<n] ! m)" "[i..<n] ! m = j"
      "\<forall>k<m. \<not> P ([i..<n] ! k)"
    by (auto simp: find_Some_iff)
  then have j: "j = i + m" "m < n - i" by simp_all
  then show "i \<le> j" "j < n" "P j" using m by simp_all
  fix k assume "i \<le> k" "k < j"
  then have "k - i < m" "[i..<n] ! (k - i) = k" using j by simp_all
  then show "\<not> P k" using m(4) by metis
qed

lemma find_upt_None: "List.find P [i..<n] = None \<longleftrightarrow> (\<forall>j. i \<le> j \<longrightarrow> j < n \<longrightarrow> \<not> P j)"
  by (auto simp: find_None_iff)

lemma find_upt_bex:
  assumes "n \<le> length a"
  shows "(List.find (\<lambda>j. P (a ! j)) [0..<n] \<noteq> None) = (\<exists>x \<in> set (take n a). P x)"
proof -
  have "(\<exists>x \<in> set (take n a). P x) = (\<exists>j<n. P (a ! j))"
    using assms by (auto simp: set_conv_nth)
  then show ?thesis by (simp add: find_upt_None)
qed

text \<open>Growing an array of pointers to \<open>n\<close> cells: \<open>sizeof(void*) * n\<close> bytes, in \<^verbatim>\<open>size_t\<close>.\<close>

definition realloc_cells ::
    "'p pointer allocator \<Rightarrow> 'p pointer list option \<Rightarrow> nat \<Rightarrow> 'p pointer list option" where
  "realloc_cells A arr n = realloc A arr (mul64 8 n div 8)"

lemma realloc_cells_id: "8 * n < 2 ^ 64 \<Longrightarrow> realloc_cells A arr n = realloc A arr n"
  by (simp add: realloc_cells_def)

end
