(* ===== verification/Queue.thy ===== *)
theory Queue
  imports Objects
begin

text \<open>
  \<^verbatim>\<open>winpr/libwinpr/utils/collections/Queue.c\<close>: a queue of pointers in a cyclic array. One
  definition per function, the invariant, the refinement to a list, the contract of an object
  queue with its interpretation, and the properties.
\<close>

section \<open>Operations\<close>

text \<open>
  What \<^verbatim>\<open>fnObjectFree\<close> was called on is recorded in \<open>qfreed\<close>, newest last. The event is the Boolean
  \<open>qevent\<close>. Under its lock every operation runs alone; the lock itself is not part of the state.
\<close>

record 'p wQueue =
  qcapacity :: nat
  growthFactor :: nat
  qhead :: nat
  qtail :: nat
  qsize :: nat
  qarray :: "'p pointer list option"
  qevent :: bool
  qobject :: "'p wObject"
  qfreed :: "'p pointer list"

type_synonym ('p, 'a) qprog = "('p wQueue, 'a) prog"

definition Queue_Count :: "('p, nat) qprog" where
  "Queue_Count = gets qsize"

definition Queue_Event :: "('p, bool) qprog" where
  "Queue_Event = gets qevent"

text \<open>\<open>array_get\<close> and \<open>array_set\<close> are \<^verbatim>\<open>queue->array[i]\<close> on the right and on the left of \<^verbatim>\<open>=\<close>.\<close>

definition array_get :: "nat \<Rightarrow> ('p, 'p pointer) qprog" where
  "array_get i q = cell_get (qarray q) i q"

definition array_set :: "nat \<Rightarrow> 'p pointer \<Rightarrow> ('p, unit) qprog" where
  "array_set i x q =
     bind (cell_set (qarray q) i x) (\<lambda>a. modify (\<lambda>q. q\<lparr>qarray := a\<rparr>)) q"

definition queue_free_object :: "'p pointer \<Rightarrow> ('p, unit) qprog" where
  "queue_free_object x =
     modify (\<lambda>q. if fnObjectFree (qobject q) then q\<lparr>qfreed := qfreed q @ [x]\<rparr> else q)"

definition next_index :: "nat \<Rightarrow> ('p, nat) qprog" where
  "next_index i q =
     (if qcapacity q = 0 then Fault DivisionByZero else Done (add64 i 1 mod qcapacity q) q)"

text \<open>The loop of \<^verbatim>\<open>Queue_Clear\<close>; \<open>None\<close> is a loop that never meets the tail.\<close>

partial_function (option) clear_loop ::
    "nat \<Rightarrow> 'p wQueue \<Rightarrow> ('p wQueue, unit) outcome option" where
  "clear_loop i q =
     (if i = qtail q then Some (Done () q)
      else (case bind (array_get i) (\<lambda>x. seq (queue_free_object x)
                 (seq (array_set i None) (next_index i))) q of
              Done j q' \<Rightarrow> clear_loop j q'
            | Failed q' \<Rightarrow> Some (Failed q')
            | Fault e \<Rightarrow> Some (Fault e)))"

definition Queue_Clear :: "('p, unit) qprog" where
  "Queue_Clear =
     seq (\<lambda>q. case clear_loop (qhead q) q of None \<Rightarrow> Fault NonTermination | Some r \<Rightarrow> r)
         (modify (\<lambda>q. q\<lparr>qsize := 0, qhead := 0, qtail := 0, qevent := False\<rparr>))"

text \<open>\<^verbatim>\<open>Queue_Contains\<close> scans the indices below the tail, whether the entries wrap or not.\<close>

definition Queue_Contains :: "'p pointer \<Rightarrow> ('p, bool) qprog" where
  "Queue_Contains obj =
     bind (gets id) (\<lambda>q.
     bind (find_equal (qobject q) (qarray q) obj 0 (qtail q)) (\<lambda>r. ret (r \<noteq> None)))"

text \<open>The last step of a growth: entries in front of the head move behind the old end.\<close>

definition queue_unwrap :: "nat \<Rightarrow> ('p, unit) qprog" where
  "queue_unwrap old_capacity q =
     (if qtail q \<le> qhead q
      then bind (load_cells (qarray q) 0 (qtail q)) (\<lambda>xs.
           bind (store_cells (qarray q) old_capacity xs) (\<lambda>a.
           modify (\<lambda>q. q\<lparr>qarray := a, qtail := add64 (qtail q) old_capacity\<rparr>))) q
      else Done () q)"

definition Queue_EnsureCapacity :: "'p pointer allocator \<Rightarrow> nat \<Rightarrow> ('p, unit) qprog" where
  "Queue_EnsureCapacity A count =
     bind (gets id) (\<lambda>q.
     if add64 (qsize q) count \<ge> qcapacity q
     then
       (let old_capacity = qcapacity q;
            grown = mul64 (qcapacity q) (growthFactor q);
            new_capacity = (if grown < add64 (qsize q) count then add64 (qsize q) count else grown)
        in case realloc_cells A (qarray q) new_capacity of
             None \<Rightarrow> fail
           | Some newArray \<Rightarrow>
               bind (store_cells (Some newArray) old_capacity
                       (replicate (sub64 new_capacity old_capacity) None)) (\<lambda>a.
               seq (modify (\<lambda>q. q\<lparr>qcapacity := new_capacity, qarray := a\<rparr>))
                   (queue_unwrap old_capacity)))
     else ret ())"

text \<open>A refused growth leaves \<^verbatim>\<open>Queue_Enqueue\<close> with \<^verbatim>\<open>TRUE\<close> and nothing enqueued.\<close>

definition Queue_Enqueue :: "'p pointer allocator \<Rightarrow> 'p pointer \<Rightarrow> ('p, bool) qprog" where
  "Queue_Enqueue A obj q =
     (case Queue_EnsureCapacity A 1 q of
        Fault e \<Rightarrow> Fault e
      | Failed q' \<Rightarrow> Done True q'
      | Done _ q' \<Rightarrow>
          bind (gets id) (\<lambda>q.
          seq (array_set (qtail q)
                 (case fnObjectNew (qobject q) of Some f \<Rightarrow> f obj | None \<Rightarrow> obj))
         (bind (next_index (qtail q)) (\<lambda>t.
          seq (modify (\<lambda>q. q\<lparr>qtail := t, qsize := add64 (qsize q) 1, qevent := True\<rparr>))
              (ret True)))) q')"

definition Queue_Dequeue :: "('p, 'p pointer) qprog" where
  "Queue_Dequeue =
     bind (gets id) (\<lambda>q.
     bind (if qsize q > 0
           then bind (array_get (qhead q)) (\<lambda>obj.
                seq (array_set (qhead q) None)
               (bind (next_index (qhead q)) (\<lambda>h.
                seq (modify (\<lambda>q. q\<lparr>qhead := h, qsize := qsize q - 1\<rparr>))
                    (ret obj))))
           else ret None) (\<lambda>obj.
     seq (modify (\<lambda>q. if qsize q < 1 then q\<lparr>qevent := False\<rparr> else q))
         (ret obj)))"

definition Queue_Peek :: "('p, 'p pointer) qprog" where
  "Queue_Peek =
     bind (gets id) (\<lambda>q. if qsize q > 0 then array_get (qhead q) else ret None)"

definition Queue_Discard :: "('p, unit) qprog" where
  "Queue_Discard = bind Queue_Dequeue queue_free_object"

definition default_queue_equals :: "'p pointer \<Rightarrow> 'p pointer \<Rightarrow> bool" where
  "default_queue_equals obj1 obj2 = (obj1 = obj2)"

text \<open>
  \<^verbatim>\<open>Queue_New\<close> works on the zeroed structure; the lock and the event it asks the system for are
  granted. \<open>Failed\<close> is the null pointer it returns when there is no memory.
\<close>

definition Queue_New :: "'p pointer allocator \<Rightarrow> int \<Rightarrow> int \<Rightarrow> ('p wQueue, unit) outcome" where
  "Queue_New A cap growth =
     (let q = \<lparr>qcapacity = 0, growthFactor = (if growth > 0 then nat growth else 2), qhead = 0,
               qtail = 0, qsize = 0, qarray = None, qevent = False,
               qobject = \<lparr>fnObjectNew = None, fnObjectFree = False, fnObjectEquals = None\<rparr>,
               qfreed = []\<rparr>;
          n = (if cap \<le> 0 then 32 else nat cap)
      in seq (Queue_EnsureCapacity A n)
             (modify (\<lambda>q. q\<lparr>qobject := (qobject q)\<lparr>fnObjectEquals := Some default_queue_equals\<rparr>\<rparr>)) q)"

section \<open>Invariant and abstraction\<close>

text \<open>
  The array is never full, so that equal indices mean an empty queue; the event is signalled
  exactly when there is something to dequeue.
\<close>

definition q_inv :: "'p wQueue \<Rightarrow> bool" where
  "q_inv q \<longleftrightarrow>
     (case qarray q of None \<Rightarrow> False | Some a \<Rightarrow> length a = qcapacity q) \<and>
     2 \<le> qcapacity q \<and> 8 * qcapacity q < 2 ^ 64 \<and> 2 \<le> growthFactor q \<and>
     qsize q < qcapacity q \<and> qhead q < qcapacity q \<and>
     qtail q = (qhead q + qsize q) mod qcapacity q \<and> qevent q = (0 < qsize q)"

definition q_list :: "'p wQueue \<Rightarrow> 'p pointer list" where
  "q_list q = ring (the (qarray q)) (qhead q) (qsize q)"

lemma q_invE:
  assumes "q_inv q"
  obtains a where "qarray q = Some a" "length a = qcapacity q" "2 \<le> qcapacity q"
    "8 * qcapacity q < 2 ^ 64" "2 \<le> growthFactor q" "qsize q < qcapacity q"
    "qhead q < qcapacity q" "qtail q = (qhead q + qsize q) mod qcapacity q"
    "qevent q = (0 < qsize q)" "q_list q = ring a (qhead q) (qsize q)"
  using assms by (auto simp: q_inv_def q_list_def split: option.splits)

lemma length_q_list [simp]: "length (q_list q) = qsize q"
  by (simp add: q_list_def)

lemma array_get_run:
  "qarray q = Some a \<Longrightarrow> i < length a \<Longrightarrow> array_get i q = Done (a ! i) q"
  by (simp add: array_get_def)

lemma array_set_run:
  "qarray q = Some a \<Longrightarrow> i < length a \<Longrightarrow> array_set i x q = Done () (q\<lparr>qarray := Some (a[i := x])\<rparr>)"
  by (simp add: array_set_def)

lemma next_index_run:
  "0 < qcapacity q \<Longrightarrow> i + 1 < 2 ^ 64 \<Longrightarrow> next_index i q = Done ((i + 1) mod qcapacity q) q"
  by (simp add: next_index_def)

text \<open>Growing keeps the order, whether the entries wrap around the end or not.\<close>

lemma ring_unwrap:
  assumes "h < length a" and "k < length a" and "(h + k) mod length a \<le> h" and "0 < k"
    and "length a \<le> n"
  defines "t \<equiv> (h + k) mod length a"
  shows "ring (splice_at (length a) (take t a) (a @ replicate n z)) h k = ring a h k"
    and "h + k = length a + t"
proof -
  have t: "length a \<le> h + k" "t = h + k - length a"
    using assms mod_once [of "h + k" "length a"] by (auto split: if_splits)
  then show "h + k = length a + t" by simp
  have "splice_at (length a) (take t a) (a @ replicate n z) = a @ take t a @ replicate (n - t) z"
    using t assms by (simp add: splice_at_def min_def)
  moreover have "ring (a @ take t a @ replicate (n - t) z) h k = drop h a @ take t a"
    using t assms by (subst ring_linear) (auto simp: add.commute)
  moreover have "ring a h k = drop h a @ take t a"
    using t assms ring_wrapped [of h a k] by simp
  ultimately show "ring (splice_at (length a) (take t a) (a @ replicate n z)) h k = ring a h k"
    by simp
qed

lemma ensure_idle: "qsize q + 1 < qcapacity q \<Longrightarrow> 8 * qcapacity q < 2 ^ 64 \<Longrightarrow>
    Queue_EnsureCapacity A 1 q = Done () q"
  by (simp add: Queue_EnsureCapacity_def)

lemma realloc_fill:
  assumes "grants A n" and "length a \<le> n"
  obtains b where "realloc A (Some a) n = Some b"
    "store_cells (Some b) (length a) (replicate (n - length a) z) s =
       Done (Some (a @ replicate (n - length a) z)) s"
  using assms by (simp add: realloc_def splice_at_def)

lemma queue_grows:
  assumes "q_inv q" and "qsize q + 1 = qcapacity q"
    and "8 * (qcapacity q * growthFactor q) < 2 ^ 64" and "grants A (qcapacity q * growthFactor q)"
  shows "\<exists>a t. Queue_EnsureCapacity A 1 q =
      Done () (q\<lparr>qcapacity := qcapacity q * growthFactor q, qarray := Some a, qtail := t\<rparr>) \<and>
    length a = qcapacity q * growthFactor q \<and> ring a (qhead q) (qsize q) = q_list q \<and>
    t = qhead q + qsize q \<and> t < qcapacity q * growthFactor q"
  using assms(1)
proof (rule q_invE)
  fix a
  let ?c = "qcapacity q" and ?h = "qhead q" and ?k = "qsize q"
  define n where "n = ?c * growthFactor q"
  let ?n = n
  note n_def' = n_def [symmetric]
  assume a: "qarray q = Some a" "length a = ?c" "2 \<le> ?c" "8 * ?c < 2 ^ 64" "2 \<le> growthFactor q"
    "?k < ?c" "?h < ?c" "qtail q = (?h + ?k) mod ?c" "q_list q = ring a ?h ?k"
  have n: "2 * ?c \<le> ?n" using a(5) by (simp add: n_def)
  have g: "8 * ?n < 2 ^ 64" "grants A ?n" using assms(3,4) by (simp_all add: n_def)
  have "mul64 ?c (growthFactor q) = ?n"
    using g(1) unfolding n_def by (intro mul64_id) linarith
  with n g have small: "mul64 ?c (growthFactor q) = ?n" "mul64 8 ?n div 8 = ?n" "add64 ?k 1 = ?c"
      "sub64 ?n ?c = ?n - ?c" "\<not> ?n < ?c"
    using assms(2) by simp_all
  have le: "length a \<le> ?n" using n a(2) by simp
  obtain b where b: "realloc A (Some a) ?n = Some b"
    "\<And>s :: 'a wQueue. store_cells (Some b) ?c (replicate (?n - ?c) None) s =
       Done (Some (a @ replicate (?n - ?c) None)) s"
    using realloc_fill [OF g(2) le] a(2) by metis
  let ?q = "q\<lparr>qcapacity := ?n, qarray := Some (a @ replicate (?n - ?c) None)\<rparr>"
  have run: "Queue_EnsureCapacity A 1 q = queue_unwrap ?c ?q"
    using small b a(1) by (simp add: Queue_EnsureCapacity_def Let_def realloc_cells_def)
  show ?thesis
  proof (cases "qtail q \<le> ?h")
    case False
    have lin: "?h + ?k < ?c" "qtail q = ?h + ?k"
      using False a mod_once [of "?h + ?k" ?c] by (auto split: if_splits)
    have "queue_unwrap ?c ?q = Done () (?q\<lparr>qtail := ?h + ?k\<rparr>)"
      using False lin(2) by (simp add: queue_unwrap_def)
    moreover have "ring (a @ replicate (?n - ?c) None) ?h ?k = ring a ?h ?k"
      using lin a by (simp add: ring_linear)
    ultimately show ?thesis unfolding n_def'
      using run a n lin(1) by (intro exI [of _ "a @ replicate (?n - ?c) None"] exI [of _ "?h + ?k"]) simp
  next
    case True
    have k: "0 < ?k" "?c \<le> ?n - ?c" using assms(2) a(3) n by linarith+
    note u1 = ring_unwrap(1) [of ?h a ?k "?n - ?c" None, unfolded a(2), folded a(8), OF a(7,6) True k]
    note u2 = ring_unwrap(2) [of ?h a ?k "?n - ?c", unfolded a(2), folded a(8), OF a(7,6) True k]
    have t: "qtail q \<le> ?c" using True a(7) by simp
    have "add64 (qtail q) ?c = qtail q + ?c" using t n g(1) by (intro add64_id) linarith
    then have addt: "add64 (qtail q) ?c = ?h + ?k" using u2 by linarith
    let ?b = "splice_at ?c (take (qtail q) a) (a @ replicate (?n - ?c) None)"
    have "queue_unwrap ?c ?q = Done () (?q\<lparr>qarray := Some ?b, qtail := ?h + ?k\<rparr>)"
      using True t addt a(1,2) k by (simp add: queue_unwrap_def)
    moreover have "length ?b = ?n" "?h + ?k < ?n" using t a(2,6,7) n k by simp_all
    ultimately show ?thesis unfolding n_def'
      using run u1 a(9) by (intro exI [of _ ?b] exI [of _ "?h + ?k"]) simp
  qed
qed

definition q_stored :: "'p wQueue \<Rightarrow> 'p pointer \<Rightarrow> 'p pointer" where
  "q_stored q obj = (case fnObjectNew (qobject q) of Some f \<Rightarrow> f obj | None \<Rightarrow> obj)"

text \<open>\<open>q_ready A q\<close>: one more object fits, or the allocator grants the larger array.\<close>

definition q_ready :: "'p pointer allocator \<Rightarrow> 'p wQueue \<Rightarrow> bool" where
  "q_ready A q \<longleftrightarrow> qsize q + 1 < qcapacity q \<or> grants A (qcapacity q * growthFactor q)"

definition q_sized :: "'p wQueue \<Rightarrow> bool" where
  "q_sized q \<longleftrightarrow> 8 * (qcapacity q * growthFactor q) < 2 ^ 64"

lemma ring_store_one: "w < length b \<Longrightarrow> ring_store w [x] b = b[w := x]"
  by (simp add: ring_store_def Let_def splice_at_def upd_conv_take_nth_drop min_absorb1)

lemma ensure_one:
  assumes "q_inv q" and "q_sized q" and "q_ready A q"
  shows "\<exists>q'. Queue_EnsureCapacity A 1 q = Done () q' \<and> q_inv q' \<and> q_list q' = q_list q \<and>
    qsize q' + 1 < qcapacity q' \<and> qobject q' = qobject q \<and> qfreed q' = qfreed q"
proof (cases "qsize q + 1 < qcapacity q")
  case True
  then show ?thesis using assms(1) ensure_idle [of q A] by (auto simp: q_inv_def)
next
  case False
  with assms(1) have full: "qsize q + 1 = qcapacity q" by (auto simp: q_inv_def)
  from False assms obtain a t where r:
    "Queue_EnsureCapacity A 1 q =
      Done () (q\<lparr>qcapacity := qcapacity q * growthFactor q, qarray := Some a, qtail := t\<rparr>)"
    "length a = qcapacity q * growthFactor q" "ring a (qhead q) (qsize q) = q_list q"
    "t = qhead q + qsize q" "t < qcapacity q * growthFactor q"
    using queue_grows [OF assms(1) full, of A] by (auto simp: q_ready_def q_sized_def)
  let ?q = "q\<lparr>qcapacity := qcapacity q * growthFactor q, qarray := Some a, qtail := t\<rparr>"
  have "2 * qcapacity q \<le> qcapacity q * growthFactor q" "2 \<le> qcapacity q"
    using assms(1) by (auto simp: q_inv_def)
  then have "q_inv ?q" "qsize q + 1 < qcapacity q * growthFactor q"
    using r assms(1,2) full by (auto simp: q_inv_def q_sized_def)
  moreover have "q_list ?q = q_list q" using r(3) by (simp add: q_list_def)
  ultimately show ?thesis using r(1) by (intro exI [of _ ?q]) simp
qed

lemma enqueue_appends:
  assumes "q_inv q" and "q_sized q" and "q_ready A q"
  shows "\<exists>q'. Queue_Enqueue A obj q = Done True q' \<and> q_inv q' \<and>
    q_list q' = q_list q @ [q_stored q obj] \<and> qfreed q' = qfreed q \<and> qobject q' = qobject q"
proof -
  obtain q1 where r: "Queue_EnsureCapacity A 1 q = Done () q1" "q_inv q1" "q_list q1 = q_list q"
      "qsize q1 + 1 < qcapacity q1" "qobject q1 = qobject q" "qfreed q1 = qfreed q"
    using ensure_one [OF assms] by blast
  from r(2) obtain a where a: "qarray q1 = Some a" "length a = qcapacity q1"
      "8 * qcapacity q1 < 2 ^ 64" "qhead q1 < qcapacity q1"
      "qtail q1 = (qhead q1 + qsize q1) mod qcapacity q1" "q_list q1 = ring a (qhead q1) (qsize q1)"
    by (auto elim!: q_invE)
  have t: "qtail q1 < length a" using a by simp
  then have n64: "qtail q1 + 1 < 2 ^ 64" using a(2,3) by linarith
  let ?q = "q1\<lparr>qarray := Some (a[qtail q1 := q_stored q obj]),
     qtail := (qtail q1 + 1) mod qcapacity q1, qsize := qsize q1 + 1, qevent := True\<rparr>"
  have "next_index (qtail q1) (q1\<lparr>qarray := Some (a[qtail q1 := q_stored q obj])\<rparr>) =
      Done ((qtail q1 + 1) mod qcapacity q1) (q1\<lparr>qarray := Some (a[qtail q1 := q_stored q obj])\<rparr>)"
    using a t n64 by (subst next_index_run) auto
  then have "Queue_Enqueue A obj q = Done True ?q"
    using r a t by (simp add: Queue_Enqueue_def array_set_run q_stored_def)
  moreover have "q_inv ?q"
    using r(2,4) a by (simp add: q_inv_def mod_simps)
  moreover have "ring (a[qtail q1 := q_stored q obj]) (qhead q1) (qsize q1 + 1) =
      q_list q1 @ [q_stored q obj]"
    using ring_store_append [of "qhead q1" a "qsize q1" "[q_stored q obj]"] ring_store_one [OF t] a r(4)
    by simp
  then have "q_list ?q = q_list q1 @ [q_stored q obj]" by (simp add: q_list_def)
  ultimately show ?thesis using r by (intro exI [of _ ?q]) simp
qed

lemma enqueue_refused:
  assumes "q_inv q" and "q_sized q" and "\<not> q_ready A q"
  shows "Queue_Enqueue A obj q = Done True q"
proof -
  from assms have "qsize q + 1 = qcapacity q" "qcapacity q < 2 ^ 61" "2 \<le> growthFactor q"
    by (auto simp: q_inv_def q_ready_def)
  moreover have "mul64 (qcapacity q) (growthFactor q) = qcapacity q * growthFactor q"
    using assms(2) unfolding q_sized_def by (intro mul64_id) linarith
  moreover have "mul64 8 (qcapacity q * growthFactor q) = 8 * (qcapacity q * growthFactor q)"
    using assms(2) unfolding q_sized_def by (intro mul64_id)
  moreover have "qcapacity q \<le> qcapacity q * growthFactor q" using calculation(3) by simp
  ultimately have "Queue_EnsureCapacity A 1 q = Failed q"
    using assms(3) by (simp add: Queue_EnsureCapacity_def Let_def realloc_cells_def realloc_def q_ready_def)
  then show ?thesis by (simp add: Queue_Enqueue_def)
qed

lemma dequeue_empty:
  assumes "q_inv q" and "q_list q = []"
  shows "Queue_Dequeue q = Done None q"
proof -
  have "qsize q = 0" using assms(2) length_q_list [of q] by simp
  moreover have "qevent q = False" using assms(1) calculation by (simp add: q_inv_def)
  ultimately show ?thesis by (simp add: Queue_Dequeue_def)
qed

lemma ring_update_other:
  assumes "h < length a" and "k < length a"
  shows "ring (a[h := x]) ((h + 1) mod length a) k = ring a ((h + 1) mod length a) k"
proof (rule nth_equalityI)
  fix i assume "i < length (ring (a[h := x]) ((h + 1) mod length a) k)"
  then have i: "i < k" by simp
  have "((h + 1) mod length a + i) mod length a = (h + 1 + i) mod length a" by (simp add: mod_simps)
  moreover have "(h + 1 + i) mod length a \<noteq> h"
    using mod_once [of "h + 1 + i" "length a"] i assms by (auto split: if_splits)
  ultimately show "ring (a[h := x]) ((h + 1) mod length a) k ! i = ring a ((h + 1) mod length a) k ! i"
    using i by simp
qed simp

lemma ring_Cons:
  assumes "h < length a"
  shows "ring a h (Suc k) = a ! h # ring a ((h + 1) mod length a) k"
  using ring_drop [of 1 "Suc k" a h] Cons_nth_drop_Suc [of 0 "ring a h (Suc k)"] assms by simp

lemma dequeue_front:
  assumes "q_inv q" and "q_list q = x # xs"
  shows "\<exists>q'. Queue_Dequeue q = Done x q' \<and> q_inv q' \<and> q_list q' = xs \<and>
    qobject q' = qobject q \<and> qfreed q' = qfreed q"
proof -
  from assms(1) obtain a where a: "qarray q = Some a" "length a = qcapacity q"
      "8 * qcapacity q < 2 ^ 64" "qhead q < qcapacity q" "qsize q < qcapacity q"
      "qtail q = (qhead q + qsize q) mod qcapacity q" "q_list q = ring a (qhead q) (qsize q)"
    by (auto elim!: q_invE)
  obtain k where k: "qsize q = Suc k" using assms(2) length_q_list [of q] by (cases "qsize q") auto
  have xs: "x = a ! qhead q" "xs = ring a ((qhead q + 1) mod qcapacity q) k"
    using assms(2) a ring_Cons [of "qhead q" a k] k by simp_all
  let ?a = "a[qhead q := None]"
  let ?h = "(qhead q + 1) mod qcapacity q"
  let ?q = "q\<lparr>qarray := Some ?a, qhead := ?h, qsize := k, qevent := (0 < k)\<rparr>"
  have ni: "next_index (qhead q) (q\<lparr>qarray := Some ?a\<rparr>) = Done ?h (q\<lparr>qarray := Some ?a\<rparr>)"
    using a by (subst next_index_run) auto
  have "qevent q" using assms(1) k by (simp add: q_inv_def)
  then have "Queue_Dequeue q = Done x ?q"
    using a k ni xs(1) by (simp add: Queue_Dequeue_def array_get_run array_set_run)
  moreover have "q_inv ?q"
    using assms(1) a k by (simp add: q_inv_def mod_simps)
  moreover have "ring ?a ?h k = xs"
    using ring_update_other [of "qhead q" a k None] a k xs by simp
  then have "q_list ?q = xs" by (simp add: q_list_def)
  ultimately show ?thesis by (intro exI [of _ ?q]) simp
qed

lemma peek_front:
  "q_inv q \<Longrightarrow> Queue_Peek q = Done (case q_list q of [] \<Rightarrow> None | x # _ \<Rightarrow> x) q"
proof (erule q_invE)
  fix a assume a: "qarray q = Some a" "length a = qcapacity q" "qhead q < qcapacity q"
    "q_list q = ring a (qhead q) (qsize q)"
  show ?thesis
    using a ring_Cons [of "qhead q" a] by (cases "qsize q") (simp_all add: Queue_Peek_def array_get_run)
qed

text \<open>Clearing releases the objects oldest first and ends.\<close>

lemma clear_loop_run:
  assumes "qarray q = Some a" and "length a = qcapacity q" and "8 * qcapacity q < 2 ^ 64"
    and "i < qcapacity q" and "k < qcapacity q" and "qtail q = (i + k) mod qcapacity q"
  shows "\<exists>b. length b = qcapacity q \<and> clear_loop i q = Some (Done ()
    (q\<lparr>qarray := Some b,
       qfreed := qfreed q @ (if fnObjectFree (qobject q) then ring a i k else [])\<rparr>))"
  using assms
proof (induction k arbitrary: i q a)
  case 0
  then show ?case by (intro exI [of _ a]) (simp add: clear_loop.simps)
next
  case (Suc k)
  let ?c = "qcapacity q"
  define f where "f = (if fnObjectFree (qobject q) then [a ! i] else [])"
  let ?q = "q\<lparr>qfreed := qfreed q @ f, qarray := Some (a[i := None])\<rparr>"
  have ne: "i \<noteq> qtail q"
    using Suc.prems mod_once [of "i + Suc k" ?c] by (auto split: if_splits)
  have j: "(i + 1) mod ?c < ?c" "k < ?c" using Suc.prems(4,5) by simp_all
  have tl: "qtail q = ((i + 1) mod ?c + k) mod ?c"
    using Suc.prems(6) by (simp add: mod_simps)
  have i64: "i + 1 < 2 ^ 64" using Suc.prems(3,4) by linarith
  have ni: "next_index i ?q = Done ((i + 1) mod ?c) ?q"
    using Suc.prems(4) i64 by (subst next_index_run) auto
  have fr: "queue_free_object (a ! i) q = Done () (q\<lparr>qfreed := qfreed q @ f\<rparr>)"
    by (simp add: queue_free_object_def f_def)
  have "bind (array_get i) (\<lambda>x. seq (queue_free_object x)
      (seq (array_set i None) (next_index i))) q = Done ((i + 1) mod ?c) ?q"
    using Suc.prems(1,2,4) fr ni by (simp add: array_get_run array_set_run)
  then have step: "clear_loop i q = clear_loop ((i + 1) mod ?c) ?q"
    using ne by (subst clear_loop.simps) simp
  obtain b where b: "length b = ?c" "clear_loop ((i + 1) mod ?c) ?q = Some (Done ()
      (?q\<lparr>qarray := Some b, qfreed := qfreed ?q @
        (if fnObjectFree (qobject ?q) then ring (a[i := None]) ((i + 1) mod ?c) k else [])\<rparr>))"
    using Suc.IH [of ?q "a[i := None]" "(i + 1) mod ?c"] Suc.prems(2,3) j tl by auto
  have "ring a i (Suc k) = a ! i # ring (a[i := None]) ((i + 1) mod ?c) k"
    using ring_Cons [of i a k] ring_update_other [of i a k None] Suc.prems(2,4) j(2) by simp
  then show ?case using step b by (intro exI [of _ b]) (simp add: f_def)
qed

lemma clear_empties:
  assumes "q_inv q"
  shows "\<exists>q'. Queue_Clear q = Done () q' \<and> q_inv q' \<and> q_list q' = [] \<and>
    qfreed q' = qfreed q @ (if fnObjectFree (qobject q) then q_list q else [])"
proof -
  from assms obtain a where a: "qarray q = Some a" "length a = qcapacity q"
      "8 * qcapacity q < 2 ^ 64" "qhead q < qcapacity q" "qsize q < qcapacity q"
      "qtail q = (qhead q + qsize q) mod qcapacity q" "q_list q = ring a (qhead q) (qsize q)"
    by (auto elim!: q_invE)
  obtain b where b: "length b = qcapacity q" "clear_loop (qhead q) q = Some (Done ()
    (q\<lparr>qarray := Some b,
       qfreed := qfreed q @ (if fnObjectFree (qobject q) then q_list q else [])\<rparr>))"
    using clear_loop_run [OF a(1-6)] a(7) by auto
  let ?q = "q\<lparr>qarray := Some b, qsize := 0, qhead := 0, qtail := 0, qevent := False,
      qfreed := qfreed q @ (if fnObjectFree (qobject q) then q_list q else [])\<rparr>"
  have "Queue_Clear q = Done () ?q" using b(2) by (simp add: Queue_Clear_def)
  moreover have "q_inv ?q" using assms b(1) by (simp add: q_inv_def)
  moreover have "q_list ?q = []" by (simp add: q_list_def)
  ultimately show ?thesis by (intro exI [of _ ?q]) simp
qed

lemma new_empty:
  assumes "2 \<le> n" and "8 * n < 2 ^ 64" and "grants A n" and "growth \<noteq> 1"
  shows "\<exists>q. Queue_New A (int n) growth = Done () q \<and> q_inv q \<and> q_list q = []"
proof -
  have n: "mul64 8 n div 8 = n" "add64 0 n = n" "sub64 n 0 = n" using assms(2) by simp_all
  have z: "mul64 0 k = 0" for k by (simp add: mul64_def)
  have r: "realloc A None n = Some (map (garbage A) [0..<n])" using assms(3) by (simp add: realloc_def)
  have s: "store_cells (Some (map (garbage A) [0..<n])) 0 (replicate n None) t =
      Done (Some (replicate n None)) t" for t :: "'a wQueue"
    by (simp add: splice_at_def)
  let ?q = "\<lparr>qcapacity = n, growthFactor = (if growth > 0 then nat growth else 2), qhead = 0,
      qtail = 0, qsize = 0, qarray = Some (replicate n None), qevent = False,
      qobject = \<lparr>fnObjectNew = None, fnObjectFree = False,
        fnObjectEquals = Some default_queue_equals\<rparr>, qfreed = []\<rparr> :: 'a wQueue"
  have "Queue_New A (int n) growth = Done () ?q"
    using n z r s assms(1)
    by (simp add: Queue_New_def Let_def Queue_EnsureCapacity_def realloc_cells_def queue_unwrap_def)
  moreover have "q_inv ?q" "q_list ?q = []" using assms by (auto simp: q_inv_def q_list_def)
  ultimately show ?thesis by blast
qed

section \<open>The contract of an object queue\<close>

text \<open>
  First in, first out, for any state with an abstraction to the list of its objects. \<open>ready\<close> is
  the condition under which a slot can be had.
\<close>

locale object_queue =
  fixes inv :: "'s \<Rightarrow> bool" and items :: "'s \<Rightarrow> 'a list" and ready :: "'s \<Rightarrow> bool"
    and enq :: "'a \<Rightarrow> ('s, bool) prog" and deq :: "('s, 'a) prog" and stored :: "'s \<Rightarrow> 'a \<Rightarrow> 'a"
  assumes enq_ready: "inv s \<Longrightarrow> ready s \<Longrightarrow>
      \<exists>s'. enq x s = Done True s' \<and> inv s' \<and> items s' = items s @ [stored s x]"
    and deq_item: "inv s \<Longrightarrow> items s = x # xs \<Longrightarrow>
      \<exists>s'. deq s = Done x s' \<and> inv s' \<and> items s' = xs"
begin

fun deq_many :: "nat \<Rightarrow> ('s, 'a list) prog" where
  "deq_many 0 = ret []"
| "deq_many (Suc n) = bind deq (\<lambda>x. bind (deq_many n) (\<lambda>xs. ret (x # xs)))"

text \<open>Taking \<open>n\<close> objects out yields the \<open>n\<close> oldest ones in order.\<close>

lemma deq_many_items:
  assumes "inv s" and "n \<le> length (items s)"
  shows "\<exists>s'. deq_many n s = Done (take n (items s)) s' \<and> inv s' \<and> items s' = drop n (items s)"
  using assms
proof (induction n arbitrary: s)
  case (Suc n)
  then obtain x xs where xs: "items s = x # xs" by (cases "items s") auto
  with Suc.prems obtain s1 where s1: "deq s = Done x s1" "inv s1" "items s1 = xs"
    using deq_item by blast
  moreover have "n \<le> length (items s1)" using Suc.prems(2) xs s1(3) by simp
  ultimately show ?case using Suc.IH [of s1] xs by auto
qed simp

text \<open>An object enqueued behind \<open>n\<close> others comes out after exactly those.\<close>

lemma enq_deq_many:
  assumes "inv s" and "ready s"
  shows "\<exists>s1 s2. enq x s = Done True s1 \<and>
    deq_many (length (items s) + 1) s1 = Done (items s @ [stored s x]) s2 \<and> inv s2 \<and> items s2 = []"
proof -
  obtain s1 where s1: "enq x s = Done True s1" "inv s1" "items s1 = items s @ [stored s x]"
    using enq_ready assms by blast
  then show ?thesis using deq_many_items [of s1 "length (items s) + 1"] by auto
qed

end

interpretation wq: object_queue q_inv q_list "\<lambda>q. q_sized q \<and> q_ready A q" "Queue_Enqueue A"
    Queue_Dequeue q_stored for A
proof unfold_locales
  fix q x and xs :: "'a pointer list"
  show "\<exists>q'. Queue_Enqueue A x q = Done True q' \<and> q_inv q' \<and> q_list q' = q_list q @ [q_stored q x]"
    if "q_inv q" "q_sized q \<and> q_ready A q"
    using that enqueue_appends [of q A x] by auto
  show "\<exists>q'. Queue_Dequeue q = Done x q' \<and> q_inv q' \<and> q_list q' = xs"
    if "q_inv q" "q_list q = x # xs"
    using that dequeue_front [of q x xs] by auto
qed

section \<open>A queue of one cell\<close>

text \<open>What \<^verbatim>\<open>Queue_New\<close> makes for capacity one: its only cell never counts as usable, so the first enqueue grows.\<close>

definition unit_queue :: "nat \<Rightarrow> 'p wQueue" where
  "unit_queue f = \<lparr>qcapacity = 1, growthFactor = f, qhead = 0, qtail = 0, qsize = 0, qarray = Some [None],
     qevent = False, qobject = \<lparr>fnObjectNew = None, fnObjectFree = False,
     fnObjectEquals = Some default_queue_equals\<rparr>, qfreed = []\<rparr>"

lemma queue_new_one:
  assumes "grants A 1"
  shows "Queue_New A 1 g = Done () (unit_queue (if g > 0 then nat g else 2))"
  using assms
  by (simp add: Queue_New_def Queue_EnsureCapacity_def Let_def realloc_cells_def realloc_def
      queue_unwrap_def unit_queue_def splice_at_def mul64_def)

lemma unit_queue_grows:
  assumes "0 < f" and "8 * f < 2 ^ 64"
  shows "Queue_EnsureCapacity A 1 (unit_queue f) =
    (if grants A f then Done () ((unit_queue f)\<lparr>qcapacity := f, qarray := Some (replicate f None), qtail := 1\<rparr>)
     else Failed (unit_queue f))"
proof -
  have "splice_at 1 (replicate (f - 1) None) (None # map g [1..<f]) = replicate f None" for g :: "nat \<Rightarrow> 'a pointer"
    using assms(1) by (cases f) (simp_all add: splice_at_def)
  moreover have "mul64 1 f = f" using assms(2) by (simp add: mul64_def)
  ultimately show ?thesis
    using assms
    by (simp add: Queue_EnsureCapacity_def Let_def realloc_cells_id realloc_def
        queue_unwrap_def unit_queue_def)
qed

lemma unit_queue_enqueue:
  assumes "0 < f" and "8 * f < 2 ^ 64" and "grants A f"
  shows "Queue_Enqueue A x (unit_queue f) =
    (if f = 1 then Fault OutOfBounds
     else Done True ((unit_queue f)\<lparr>qcapacity := f, qarray := Some (None # x # replicate (f - 2) None), qtail := 2 mod f,
            qsize := 1, qevent := True\<rparr>))"
  unfolding Queue_Enqueue_def unit_queue_grows [OF assms(1,2)]
  using assms
  by (simp add: array_set_def next_index_def unit_queue_def cell_set_def store_cells_def splice_at_def
      numeral_2_eq_2)

section \<open>Properties\<close>

definition queue_alloc :: "nat pointer allocator" where
  "queue_alloc = \<lparr>grants = (\<lambda>_. True), garbage = (\<lambda>_. None)\<rparr>"

definition demo_queue :: "nat wQueue" where
  "demo_queue = \<lparr>qcapacity = 3, growthFactor = 2, qhead = 2, qtail = 1, qsize = 2,
     qarray = Some [Some 20, None, Some 10], qevent = True,
     qobject = \<lparr>fnObjectNew = None, fnObjectFree = True,
       fnObjectEquals = Some default_queue_equals\<rparr>, qfreed = []\<rparr>"

lemma demo_queue_ok [simp]: "q_inv demo_queue" "q_list demo_queue = [Some 10, Some 20]"
    "q_sized demo_queue" "q_ready queue_alloc demo_queue" "q_stored demo_queue x = x"
    "fnObjectFree (qobject demo_queue)" "qfreed demo_queue = []"
  by (simp_all add: demo_queue_def q_inv_def q_list_def ring_def q_sized_def q_ready_def
      queue_alloc_def q_stored_def upt_rec)

text \<open>
  C7. The object queue is first in, first out: on a queue that satisfies its invariant, with
  sizes in range, enqueueing appends the object (or its copy by \<^verbatim>\<open>fnObjectNew\<close>) when there is a slot
  or the larger array is granted, and otherwise leaves the queue as it was; dequeueing returns and
  removes the oldest object, and \<^verbatim>\<open>NULL\<close> on an empty queue. The invariant, with the event signalled
  exactly when the queue is not empty, is kept by both.
\<close>

theorem queue_refines_fifo:
  assumes "q_inv q" and "q_sized q"
  shows "(\<exists>q'. Queue_Enqueue A x q = Done True q' \<and> q_inv q' \<and>
           q_list q' = (if q_ready A q then q_list q @ [q_stored q x] else q_list q)) \<and>
         (\<exists>q'. Queue_Dequeue q = Done (case q_list q of [] \<Rightarrow> None | y # _ \<Rightarrow> y) q' \<and> q_inv q' \<and>
           q_list q' = tl (q_list q))"
  using wq.enq_ready [of q A x] wq.deq_item [of q] enqueue_refused [of q A x] dequeue_empty [of q] assms
  by (auto split: list.split)

theorem queue_refines_fifo_witness:
  "(\<exists>q'. Queue_Enqueue queue_alloc (Some 30) demo_queue = Done True q' \<and> q_inv q' \<and>
      q_list q' = [Some 10, Some 20, Some 30]) \<and>
   (\<exists>q'. Queue_Dequeue demo_queue = Done (Some 10) q' \<and> q_inv q' \<and> q_list q' = [Some 20])"
  using queue_refines_fifo [of demo_queue queue_alloc "Some 30"] by simp

text \<open>
  \<^verbatim>\<open>Queue_Clear\<close> terminates, hands every stored object to \<^verbatim>\<open>fnObjectFree\<close> exactly once and oldest
  first when that callback is set, and leaves an empty queue that satisfies the invariant.
\<close>

theorem queue_clear_releases:
  assumes "q_inv q"
  shows "\<exists>q'. Queue_Clear q = Done () q' \<and> q_inv q' \<and> q_list q' = [] \<and>
    qfreed q' = qfreed q @ (if fnObjectFree (qobject q) then q_list q else [])"
  using assms by (rule clear_empties)

theorem queue_clear_releases_witness:
  "\<exists>q'. Queue_Clear demo_queue = Done () q' \<and> q_inv q' \<and> q_list q' = [] \<and>
    qfreed q' = [Some 10, Some 20]"
  using queue_clear_releases [of demo_queue] by simp

text \<open>
  C40. A queue created with capacity one loses its first object, whatever the growth setting and the
  object are and whatever else than the first cell the allocator grants. Growing an empty queue moves the tail past the old end although nothing
  wraps. When the larger array is refused, \<^verbatim>\<open>Queue_Enqueue\<close> reports success and stores nothing. With
  growth factor one it writes behind the end of the array. With any larger factor \<open>f\<close> the object is
  stored at index one, the count is one, and the next \<^verbatim>\<open>Queue_Dequeue\<close> returns \<^verbatim>\<open>NULL\<close>: the queue is
  empty again with the object left in its array.
\<close>

theorem queue_capacity_one_loses:
  assumes "grants A 1" and "f = (if g > 0 then nat g else 2)" and "8 * f < 2 ^ 64"
  shows "\<exists>q. Queue_New A 1 g = Done () q \<and>
    (if \<not> grants A f then Queue_Enqueue A x q = Done True q
     else if f = 1 then Queue_Enqueue A x q = Fault OutOfBounds
     else \<exists>q1 q2. Queue_Enqueue A x q = Done True q1 \<and> qsize q1 = 1 \<and>
       Queue_Dequeue q1 = Done None q2 \<and> qsize q2 = 0 \<and> \<not> qevent q2 \<and>
       qarray q2 = Some (None # x # replicate (f - 2) None))"
proof -
  have f: "0 < f" using assms(2) by auto
  have new: "Queue_New A 1 g = Done () (unit_queue f)" using queue_new_one [OF assms(1), of g] assms(2) by simp
  have refused: "Queue_Enqueue A x (unit_queue f) = Done True (unit_queue f)" if "\<not> grants A f"
    unfolding Queue_Enqueue_def unit_queue_grows [OF f assms(3)] using that by simp
  have "\<exists>q2. Queue_Dequeue ((unit_queue f)\<lparr>qcapacity := f, qarray := Some (None # x # replicate (f - 2) None),
        qtail := 2 mod f, qsize := 1, qevent := True\<rparr>) = Done None q2 \<and> qsize q2 = 0 \<and> \<not> qevent q2 \<and>
      qarray q2 = Some (None # x # replicate (f - 2) None)" if "f \<noteq> 1"
    using that f
    by (simp add: Queue_Dequeue_def array_get_def array_set_def cell_get_def cell_set_def next_index_def
        unit_queue_def splice_at_def)
  then show ?thesis
    using new refused f assms(3) by (intro exI [of _ "unit_queue f"]) (auto simp: unit_queue_enqueue)
qed

theorem queue_capacity_one_loses_witness:
  "\<exists>q q1 q2. Queue_New queue_alloc 1 0 = Done () q \<and> Queue_Enqueue queue_alloc (Some 7) q = Done True q1 \<and>
     Queue_Dequeue q1 = Done None q2 \<and> qsize q2 = 0 \<and> qarray q2 = Some [None, Some 7]"
  using queue_capacity_one_loses [of queue_alloc 2 0 "Some 7"]
  by (auto simp: queue_alloc_def [THEN arg_cong [where f = grants]])

end
