(* ===== verification/Stack.thy ===== *)
theory Stack
  imports Objects
begin

text \<open>
  \<^verbatim>\<open>winpr/libwinpr/utils/collections/Stack.c\<close>: a stack of pointers in a growing array.
\<close>

section \<open>Operations\<close>

record 'p wStack =
  ssize :: nat
  scapacity :: nat
  sarray :: "'p pointer list option"
  sobject :: "'p wObject"
  sfreed :: "'p pointer list"

type_synonym ('p, 'a) kprog = "('p wStack, 'a) prog"

definition Stack_Count :: "('p, nat) kprog" where
  "Stack_Count = gets ssize"

definition Stack_Clear :: "('p, unit) kprog" where
  "Stack_Clear =
     bind (gets id) (\<lambda>st.
     bind (release_cells (sobject st) (sarray st) 0 (ssize st)) (\<lambda>(arr, xs).
     modify (\<lambda>st. st\<lparr>sarray := arr, sfreed := sfreed st @ xs, ssize := 0\<rparr>)))"

definition Stack_Contains :: "'p pointer \<Rightarrow> ('p, bool) kprog" where
  "Stack_Contains obj =
     bind (gets id) (\<lambda>st.
     bind (find_equal (sobject st) (sarray st) obj 0 (ssize st)) (\<lambda>r. ret (r \<noteq> None)))"

text \<open>\<^verbatim>\<open>Stack_Push\<close> returns nothing, also when the larger array is refused.\<close>

definition Stack_Push :: "'p pointer allocator \<Rightarrow> 'p pointer \<Rightarrow> ('p, unit) kprog" where
  "Stack_Push A obj st =
     (let push = (\<lambda>st. bind (cell_set (sarray st) (ssize st) obj) (\<lambda>arr.
            modify (\<lambda>st. st\<lparr>sarray := arr, ssize := add64 (ssize st) 1\<rparr>)) st)
      in if add64 (ssize st) 1 \<ge> scapacity st
         then (let new_cap = mul64 (scapacity st) 2
               in case realloc_cells A (sarray st) new_cap of
                    None \<Rightarrow> Done () st
                  | Some new_arr \<Rightarrow> push (st\<lparr>sarray := Some new_arr, scapacity := new_cap\<rparr>))
         else push st)"

definition Stack_Pop :: "('p, 'p pointer) kprog" where
  "Stack_Pop =
     bind (gets id) (\<lambda>st.
     if ssize st > 0
     then seq (modify (\<lambda>st. st\<lparr>ssize := ssize st - 1\<rparr>)) (cell_get (sarray st) (ssize st - 1))
     else ret None)"

definition Stack_Peek :: "('p, 'p pointer) kprog" where
  "Stack_Peek =
     bind (gets id) (\<lambda>st. if ssize st > 0 then cell_get (sarray st) (ssize st - 1) else ret None)"

definition default_stack_equals :: "'p pointer \<Rightarrow> 'p pointer \<Rightarrow> bool" where
  "default_stack_equals obj1 obj2 = (obj1 = obj2)"

text \<open>\<^verbatim>\<open>calloc\<close> of the 32 cells: refused (\<open>None\<close>), or zeroed.\<close>

definition Stack_New :: "'p pointer allocator \<Rightarrow> 'p wStack option" where
  "Stack_New A =
     (case malloc A 32 of
        None \<Rightarrow> None
      | Some _ \<Rightarrow> Some \<lparr>ssize = 0, scapacity = 32, sarray = Some (replicate 32 None),
                sobject = \<lparr>fnObjectNew = None, fnObjectFree = False,
                  fnObjectEquals = Some default_stack_equals\<rparr>,
                sfreed = []\<rparr>)"

section \<open>Invariant and abstraction\<close>

text \<open>The list of a stack has its top first.\<close>

definition k_inv :: "'p wStack \<Rightarrow> bool" where
  "k_inv st \<longleftrightarrow>
     (case sarray st of None \<Rightarrow> False | Some a \<Rightarrow> length a = scapacity st) \<and>
     ssize st < scapacity st \<and> 16 * scapacity st < 2 ^ 64"

definition k_list :: "'p wStack \<Rightarrow> 'p pointer list" where
  "k_list st = rev (take (ssize st) (the (sarray st)))"

lemma k_invE:
  assumes "k_inv st"
  obtains a where "sarray st = Some a" "length a = scapacity st" "ssize st < scapacity st"
    "16 * scapacity st < 2 ^ 64" "k_list st = rev (take (ssize st) a)"
  using assms by (auto simp: k_inv_def k_list_def split: option.splits)

lemma length_k_list: "k_inv st \<Longrightarrow> length (k_list st) = ssize st"
  by (erule k_invE) simp

definition k_ready :: "'p pointer allocator \<Rightarrow> 'p wStack \<Rightarrow> bool" where
  "k_ready A st \<longleftrightarrow> ssize st + 1 < scapacity st \<or> grants A (scapacity st * 2)"

lemma push_top:
  assumes "k_inv st" and "k_ready A st" and "32 * scapacity st < 2 ^ 64"
  shows "\<exists>st'. Stack_Push A obj st = Done () st' \<and> k_inv st' \<and> k_list st' = obj # k_list st"
proof -
  from assms(1) obtain a where a: "sarray st = Some a" "length a = scapacity st"
      "ssize st < scapacity st" "16 * scapacity st < 2 ^ 64" "k_list st = rev (take (ssize st) a)"
    by (auto elim!: k_invE)
  have add: "add64 (ssize st) 1 = ssize st + 1" using a(3,4) by simp
  show ?thesis
  proof (cases "ssize st + 1 < scapacity st")
    case True
    let ?st = "st\<lparr>sarray := Some (a[ssize st := obj]), ssize := ssize st + 1\<rparr>"
    have "Stack_Push A obj st = Done () ?st"
      using True a add by (simp add: Stack_Push_def Let_def)
    moreover have "k_inv ?st" using True a by (simp add: k_inv_def)
    moreover have "k_list ?st = obj # k_list st"
      using a by (simp add: k_list_def take_Suc_conv_app_nth)
    ultimately show ?thesis by blast
  next
    case False
    then have g: "grants A (scapacity st * 2)" using assms(2) by (simp add: k_ready_def)
    let ?n = "scapacity st * 2"
    let ?b = "a @ map (garbage A) [scapacity st..<?n]"
    have cap: "mul64 (scapacity st) 2 = ?n" using a(4) by simp
    have "realloc_cells A (sarray st) ?n = Some ?b"
      using g a assms(3) by (simp add: realloc_cells_id realloc_def)
    moreover have "ssize st < length ?b" using a(2,3) by simp
    ultimately have "Stack_Push A obj st = Done () (st\<lparr>sarray := Some (?b[ssize st := obj]),
        scapacity := ?n, ssize := ssize st + 1\<rparr>)" (is "_ = Done () ?st")
      using False a(1,3) add cap by (simp add: Stack_Push_def Let_def)
    moreover have "k_inv ?st" using False a assms(3) by (simp add: k_inv_def)
    moreover have "k_list ?st = obj # k_list st"
      using a by (simp add: k_list_def take_Suc_conv_app_nth list_update_append nth_append)
    ultimately show ?thesis by blast
  qed
qed

lemma pop_top:
  assumes "k_inv st"
  shows "\<exists>st'. Stack_Pop st = Done (case k_list st of [] \<Rightarrow> None | x # _ \<Rightarrow> x) st' \<and> k_inv st' \<and>
    k_list st' = tl (k_list st)"
proof (cases "ssize st")
  case 0
  then show ?thesis using assms by (auto simp: Stack_Pop_def k_list_def)
next
  case (Suc n)
  from assms obtain a where a: "sarray st = Some a" "length a = scapacity st"
      "ssize st < scapacity st" "16 * scapacity st < 2 ^ 64" "k_list st = rev (take (ssize st) a)"
    by (auto elim!: k_invE)
  let ?st = "st\<lparr>ssize := n\<rparr>"
  have "k_list st = a ! n # k_list ?st"
    using Suc a by (simp add: k_list_def take_Suc_conv_app_nth)
  moreover have "Stack_Pop st = Done (a ! n) ?st" using Suc a by (simp add: Stack_Pop_def)
  moreover have "k_inv ?st" using Suc a by (simp add: k_inv_def)
  ultimately show ?thesis by (intro exI [of _ ?st]) simp
qed

lemma stack_clear_run:
  assumes "k_inv st"
  shows "\<exists>st'. Stack_Clear st = Done () st' \<and> k_inv st' \<and> k_list st' = [] \<and>
    sfreed st' = sfreed st @ (if fnObjectFree (sobject st) then rev (k_list st) else [])"
proof -
  from assms obtain a where a: "sarray st = Some a" "length a = scapacity st"
      "ssize st < scapacity st" "16 * scapacity st < 2 ^ 64" "k_list st = rev (take (ssize st) a)"
    by (auto elim!: k_invE)
  then show ?thesis
    using release_cells_run [of 0 "ssize st" a "sobject st" st]
    by (auto simp: Stack_Clear_def k_inv_def k_list_def)
qed

lemma stack_contains_run:
  assumes "k_inv st" and "fnObjectEquals (sobject st) = Some f"
  shows "Stack_Contains obj st = Done (\<exists>x \<in> set (k_list st). f x obj) st"
proof -
  from assms(1) obtain a where a: "sarray st = Some a" "length a = scapacity st"
      "ssize st < scapacity st" "k_list st = rev (take (ssize st) a)"
    by (auto elim!: k_invE)
  have "(List.find (\<lambda>j. f (a ! j) obj) [0..<ssize st] \<noteq> None) = (\<exists>x \<in> set (k_list st). f x obj)"
    using a find_upt_bex [of "ssize st" a "\<lambda>x. f x obj"] by simp
  then show ?thesis
    using a find_equal_run [OF assms(2), of "ssize st" a obj 0 st] by (simp add: Stack_Contains_def)
qed

section \<open>Properties\<close>

definition demo_stack :: "nat wStack" where
  "demo_stack = \<lparr>ssize = 1, scapacity = 2, sarray = Some [Some 5, None],
     sobject = \<lparr>fnObjectNew = None, fnObjectFree = False,
       fnObjectEquals = Some default_stack_equals\<rparr>, sfreed = []\<rparr>"

definition stack_alloc :: "nat pointer allocator" where
  "stack_alloc = \<lparr>grants = (\<lambda>_. True), garbage = (\<lambda>_. Some 99)\<rparr>"

text \<open>
  C30. The stack is last in, first out: on a stack that satisfies its invariant a push puts the
  object on top, also when the array has to grow, a pop returns and removes the top and returns
  \<^verbatim>\<open>NULL\<close> on an empty stack, and \<^verbatim>\<open>Stack_Contains\<close> says whether some stored object is equal. A push for
  which no memory is granted is dropped without a sign.
\<close>

theorem stack_refines_lifo:
  assumes "k_inv st" and "32 * scapacity st < 2 ^ 64" and "fnObjectEquals (sobject st) = Some f"
  shows "(\<exists>st'. Stack_Push A obj st = Done () st' \<and> k_inv st' \<and>
            k_list st' = (if k_ready A st then obj # k_list st else k_list st)) \<and>
         (\<exists>st'. Stack_Pop st = Done (case k_list st of [] \<Rightarrow> None | x # _ \<Rightarrow> x) st' \<and> k_inv st' \<and>
            k_list st' = tl (k_list st)) \<and>
         Stack_Contains obj st = Done (\<exists>x \<in> set (k_list st). f x obj) st"
proof -
  have "Stack_Push A obj st = Done () st" if "\<not> k_ready A st"
  proof -
    have "scapacity st \<le> ssize st + 1" "\<not> grants A (scapacity st * 2)" "ssize st < scapacity st"
      using that assms(1) by (auto simp: k_ready_def k_inv_def)
    moreover have "mul64 (scapacity st) 2 = scapacity st * 2" using assms(2) by simp
    ultimately show ?thesis
      using assms(2) by (simp add: Stack_Push_def Let_def realloc_cells_id realloc_def)
  qed
  then show ?thesis
    using push_top [OF assms(1) _ assms(2)] pop_top [OF assms(1)] stack_contains_run [OF assms(1,3)]
      assms(1) by auto
qed

theorem stack_refines_lifo_witness:
  "(\<exists>st'. Stack_Push stack_alloc (Some 7) demo_stack = Done () st' \<and> k_inv st' \<and>
      k_list st' = [Some 7, Some 5]) \<and>
   (\<exists>st'. Stack_Pop demo_stack = Done (Some 5) st' \<and> k_inv st' \<and> k_list st' = []) \<and>
   Stack_Contains (Some 7) demo_stack = Done False demo_stack"
  using stack_refines_lifo [of demo_stack default_stack_equals stack_alloc "Some 7"]
  by (simp add: demo_stack_def stack_alloc_def k_inv_def k_list_def k_ready_def default_stack_equals_def)

end
