(* ===== verification/ArrayList.thy ===== *)
theory ArrayList
  imports Objects
begin

text \<open>
  \<^verbatim>\<open>winpr/libwinpr/utils/collections/ArrayList.c\<close>: a list of pointers in a growing array, with
  insertion, removal and search. One definition per function, the invariant, the refinement to a
  list, and the properties.
\<close>

section \<open>Operations\<close>

text \<open>\<^verbatim>\<open>SSIZE_T\<close> arguments are integers. The item list is the first \<open>lsize\<close> cells of the array.\<close>

record 'p wArrayList =
  lcapacity :: nat
  lgrowthFactor :: nat
  lsize :: nat
  larray :: "'p pointer list option"
  lobject :: "'p wObject"
  lfreed :: "'p pointer list"

type_synonym ('p, 'a) lprog = "('p wArrayList, 'a) prog"

definition ArrayList_Capacity :: "('p, nat) lprog" where
  "ArrayList_Capacity = gets lcapacity"

definition ArrayList_Count :: "('p, nat) lprog" where
  "ArrayList_Count = gets lsize"

definition ArrayList_Items :: "('p, nat \<times> 'p pointer list option) lprog" where
  "ArrayList_Items = gets (\<lambda>l. (lsize l, larray l))"

definition ArrayList_GetItem :: "nat \<Rightarrow> ('p, 'p pointer) lprog" where
  "ArrayList_GetItem index =
     bind (gets id) (\<lambda>l. if index < lsize l then cell_get (larray l) index else ret None)"

definition list_store :: "nat \<Rightarrow> 'p pointer \<Rightarrow> ('p, unit) lprog" where
  "list_store index x l =
     bind (cell_set (larray l) index x) (\<lambda>arr. modify (\<lambda>l. l\<lparr>larray := arr\<rparr>)) l"

definition ArrayList_SetItem :: "nat \<Rightarrow> 'p pointer \<Rightarrow> ('p, unit) lprog" where
  "ArrayList_SetItem index obj =
     bind (gets id) (\<lambda>l.
     if index \<ge> lsize l then fail
     else (case fnObjectNew (lobject l) of
             Some f \<Rightarrow> seq (list_store index (f obj))
                          (if obj \<noteq> None \<and> f obj = None then fail else ret ())
           | None \<Rightarrow> list_store index obj))"

definition ArrayList_EnsureCapacity :: "'p pointer allocator \<Rightarrow> nat \<Rightarrow> ('p, unit) lprog" where
  "ArrayList_EnsureCapacity A count =
     seq (assert_that (\<lambda>_. count > 0))
    (bind (gets id) (\<lambda>l.
     if add64 (lsize l) count > lcapacity l
     then
       (let grown = mul64 (lcapacity l) (lgrowthFactor l);
            newCapacity = (if grown < add64 (lsize l) count then add64 (lsize l) count else grown)
        in case realloc_cells A (larray l) newCapacity of
             None \<Rightarrow> fail
           | Some newArray \<Rightarrow> modify (\<lambda>l. l\<lparr>larray := Some newArray, lcapacity := newCapacity\<rparr>))
     else ret ()))"

text \<open>
  \<open>list_move dst src n\<close> is \<^verbatim>\<open>MoveMemory(&array[dst], &array[src], n * sizeof(void*))\<close>; \<open>int64\<close> is the
  conversion of a \<^verbatim>\<open>size_t\<close> expression to \<^verbatim>\<open>INT64\<close>.
\<close>

definition list_move :: "nat \<Rightarrow> nat \<Rightarrow> nat \<Rightarrow> ('p, unit) lprog" where
  "list_move dst src n l =
     bind (load_cells (larray l) src n) (\<lambda>xs.
     bind (store_cells (larray l) dst xs) (\<lambda>arr.
     modify (\<lambda>l. l\<lparr>larray := arr\<rparr>))) l"

definition int64 :: "int \<Rightarrow> int" where
  "int64 x = (x + 2 ^ 63) mod 2 ^ 64 - 2 ^ 63"

definition ArrayList_Shift :: "'p pointer allocator \<Rightarrow> nat \<Rightarrow> int \<Rightarrow> ('p, unit) lprog" where
  "ArrayList_Shift A index count =
     (if count > 0
      then seq (ArrayList_EnsureCapacity A (nat count))
          (bind (gets id) (\<lambda>l.
           seq (list_move (add64 index (nat count)) index (sub64 (lsize l) index))
               (modify (\<lambda>l. l\<lparr>lsize := add64 (lsize l) (nat count)\<rparr>))))
      else if count < 0
      then bind (gets id) (\<lambda>l.
        let chunk = int64 (int (lsize l) - int index + count) in
        seq (if chunk > 0 then list_move index (add64 index (nat (- count))) (nat chunk) else ret ())
            (modify (\<lambda>l. l\<lparr>lsize := sub64 (lsize l) (nat (- count))\<rparr>)))
      else ret ())"

definition ArrayList_Clear :: "('p, unit) lprog" where
  "ArrayList_Clear =
     bind (gets id) (\<lambda>l.
     bind (release_cells (lobject l) (larray l) 0 (lsize l)) (\<lambda>(arr, xs).
     modify (\<lambda>l. l\<lparr>larray := arr, lfreed := lfreed l @ xs, lsize := 0\<rparr>)))"

definition ArrayList_Contains :: "'p pointer \<Rightarrow> ('p, bool) lprog" where
  "ArrayList_Contains obj =
     bind (gets id) (\<lambda>l.
     bind (find_equal (lobject l) (larray l) obj 0 (lsize l)) (\<lambda>r. ret (r \<noteq> None)))"

definition ArrayList_Append :: "'p pointer allocator \<Rightarrow> 'p pointer \<Rightarrow> ('p, unit) lprog" where
  "ArrayList_Append A obj =
     seq (ArrayList_EnsureCapacity A 1)
    (bind (gets lsize) (\<lambda>index.
     seq (modify (\<lambda>l. l\<lparr>lsize := add64 (lsize l) 1\<rparr>))
         (ArrayList_SetItem index obj)))"

text \<open>An index outside the list is ignored, and so is a failing \<^verbatim>\<open>fnObjectNew\<close>.\<close>

definition ArrayList_Insert :: "'p pointer allocator \<Rightarrow> nat \<Rightarrow> 'p pointer \<Rightarrow> ('p, unit) lprog" where
  "ArrayList_Insert A index obj =
     bind (gets lsize) (\<lambda>n.
     if index < n
     then seq (ArrayList_Shift A index 1)
              (\<lambda>l. case ArrayList_SetItem index obj l of Failed l' \<Rightarrow> Done () l' | r \<Rightarrow> r)
     else ret ())"

definition list_free_object :: "'p pointer \<Rightarrow> ('p, unit) lprog" where
  "list_free_object x =
     modify (\<lambda>l. if fnObjectFree (lobject l) then l\<lparr>lfreed := lfreed l @ [x]\<rparr> else l)"

definition ArrayList_RemoveAt :: "'p pointer allocator \<Rightarrow> nat \<Rightarrow> ('p, unit) lprog" where
  "ArrayList_RemoveAt A index =
     bind (gets id) (\<lambda>l.
     if index < lsize l
     then bind (cell_get (larray l) index) (\<lambda>x.
          seq (list_free_object x) (ArrayList_Shift A index (- 1)))
     else ret ())"

definition ArrayList_Remove :: "'p pointer allocator \<Rightarrow> 'p pointer \<Rightarrow> ('p, unit) lprog" where
  "ArrayList_Remove A obj =
     bind (gets id) (\<lambda>l.
     bind (find_equal (lobject l) (larray l) obj 0 (lsize l)) (\<lambda>r.
     case r of
       Some index \<Rightarrow>
         bind (cell_get (larray l) index) (\<lambda>x.
         seq (list_free_object x) (ArrayList_Shift A index (- 1)))
     | None \<Rightarrow> ret ()))"

definition ArrayList_IndexOf :: "'p pointer \<Rightarrow> int \<Rightarrow> int \<Rightarrow> ('p, int) lprog" where
  "ArrayList_IndexOf obj startIndex count =
     bind (gets id) (\<lambda>l.
     let sindex = (if startIndex < 0 then 0 else nat startIndex);
         cindex = (if count < 0 then lsize l else nat count)
     in bind (find_equal (lobject l) (larray l) obj sindex (sindex + cindex)) (\<lambda>r.
        ret (case r of Some i \<Rightarrow> int i | None \<Rightarrow> - 1)))"

text \<open>The downward loop of \<^verbatim>\<open>ArrayList_LastIndexOf\<close> compares the cell below its counter.\<close>

fun find_last ::
    "'p wObject \<Rightarrow> 'p pointer list option \<Rightarrow> 'p pointer \<Rightarrow> nat \<Rightarrow> nat \<Rightarrow> ('s, nat option) prog" where
  "find_last ob arr obj sindex 0 = ret None"
| "find_last ob arr obj sindex (Suc k) =
     (if Suc k > sindex
      then bind (cell_get arr k) (\<lambda>x.
        case fnObjectEquals ob of
          None \<Rightarrow> fault NullDereference
        | Some f \<Rightarrow> if f x obj then ret (Some (Suc k)) else find_last ob arr obj sindex k)
      else ret None)"

definition ArrayList_LastIndexOf :: "'p pointer \<Rightarrow> int \<Rightarrow> int \<Rightarrow> ('p, int) lprog" where
  "ArrayList_LastIndexOf obj startIndex count =
     bind (gets id) (\<lambda>l.
     let sindex = (if startIndex < 0 then 0 else nat startIndex);
         cindex = (if count < 0 then lsize l else nat count)
     in bind (find_last (lobject l) (larray l) obj sindex (sindex + cindex)) (\<lambda>r.
        ret (case r of Some i \<Rightarrow> int i | None \<Rightarrow> - 1)))"

definition ArrayList_DefaultCompare :: "'p pointer \<Rightarrow> 'p pointer \<Rightarrow> bool" where
  "ArrayList_DefaultCompare objA objB = (if objA = objB then True else False)"

text \<open>
  The callback of \<^verbatim>\<open>ArrayList_ForEach\<close> may change the list and state of its own, the second
  component; the number of rounds is fixed at the start. \<open>Failed\<close> is a callback that returned
  \<^verbatim>\<open>FALSE\<close>.
\<close>

fun foreach_loop ::
    "('p pointer \<Rightarrow> nat \<Rightarrow> ('p wArrayList \<times> 'c, unit) prog) \<Rightarrow> nat \<Rightarrow> nat \<Rightarrow>
      ('p wArrayList \<times> 'c, unit) prog" where
  "foreach_loop fkt index 0 = ret ()"
| "foreach_loop fkt index (Suc k) =
     (\<lambda>(l, c). case ArrayList_GetItem index l of
        Done obj l' \<Rightarrow> seq (fkt obj index) (foreach_loop fkt (index + 1) k) (l', c)
      | Failed l' \<Rightarrow> Failed (l', c)
      | Fault e \<Rightarrow> Fault e)"

definition ArrayList_ForEachAP ::
    "('p pointer \<Rightarrow> nat \<Rightarrow> ('p wArrayList \<times> 'c, unit) prog) \<Rightarrow> ('p wArrayList \<times> 'c, unit) prog" where
  "ArrayList_ForEachAP fkt = bind (gets (lsize \<circ> fst)) (foreach_loop fkt 0)"

definition ArrayList_New :: "'p pointer allocator \<Rightarrow> ('p wArrayList, unit) outcome" where
  "ArrayList_New A = ArrayList_EnsureCapacity A 32
     \<lparr>lcapacity = 0, lgrowthFactor = 2, lsize = 0, larray = None,
      lobject = \<lparr>fnObjectNew = None, fnObjectFree = False,
        fnObjectEquals = Some ArrayList_DefaultCompare\<rparr>, lfreed = []\<rparr>"

section \<open>Invariant and abstraction\<close>

definition l_inv :: "'p wArrayList \<Rightarrow> bool" where
  "l_inv l \<longleftrightarrow>
     (case larray l of None \<Rightarrow> False | Some a \<Rightarrow> length a = lcapacity l) \<and>
     lsize l \<le> lcapacity l \<and> 8 * lcapacity l < 2 ^ 63"

definition l_list :: "'p wArrayList \<Rightarrow> 'p pointer list" where
  "l_list l = take (lsize l) (the (larray l))"

definition l_grown :: "'p wArrayList \<Rightarrow> nat" where
  "l_grown l = max (lcapacity l * lgrowthFactor l) (lsize l + 1)"

definition l_sized :: "'p wArrayList \<Rightarrow> bool" where
  "l_sized l \<longleftrightarrow> 8 * l_grown l < 2 ^ 63"

definition l_ready :: "'p pointer allocator \<Rightarrow> 'p wArrayList \<Rightarrow> bool" where
  "l_ready A l \<longleftrightarrow> lsize l < lcapacity l \<or> grants A (l_grown l)"

definition l_stored :: "'p wArrayList \<Rightarrow> 'p pointer \<Rightarrow> 'p pointer" where
  "l_stored l obj = (case fnObjectNew (lobject l) of Some f \<Rightarrow> f obj | None \<Rightarrow> obj)"

lemma l_stored_upd [simp]:
  "l_stored (l\<lparr>larray := x\<rparr>) obj = l_stored l obj"
  "l_stored (l\<lparr>lcapacity := c\<rparr>) obj = l_stored l obj"
  "l_stored (l\<lparr>lsize := n\<rparr>) obj = l_stored l obj"
  by (simp_all add: l_stored_def)

lemma l_invE:
  assumes "l_inv l"
  obtains a where "larray l = Some a" "length a = lcapacity l" "lsize l \<le> lcapacity l"
    "8 * lcapacity l < 2 ^ 63" "l_list l = take (lsize l) a" "length (l_list l) = lsize l"
  using assms by (auto simp: l_inv_def l_list_def split: option.splits)

lemma list_ensure_one:
  assumes "l_inv l" and "l_sized l" and "l_ready A l"
  shows "\<exists>a. length a = lcapacity (l\<lparr>lcapacity := length a\<rparr>) \<and>
    ArrayList_EnsureCapacity A 1 l = Done () (l\<lparr>larray := Some a, lcapacity := length a\<rparr>) \<and>
    lsize l < length a \<and> take (lsize l) a = l_list l \<and> 8 * length a < 2 ^ 63"
proof -
  from assms(1) obtain a where a: "larray l = Some a" "length a = lcapacity l"
      "lsize l \<le> lcapacity l" "8 * lcapacity l < 2 ^ 63" "l_list l = take (lsize l) a"
    by (auto elim!: l_invE)
  have add: "add64 (lsize l) 1 = lsize l + 1" using a(3,4) by simp
  show ?thesis
  proof (cases "lsize l < lcapacity l")
    case True
    then show ?thesis using a add by (intro exI [of _ a]) (simp add: ArrayList_EnsureCapacity_def)
  next
    case False
    then have g: "grants A (l_grown l)" "lsize l = lcapacity l"
      using assms(3) a(3) by (auto simp: l_ready_def)
    have "lcapacity l * lgrowthFactor l \<le> l_grown l" by (simp add: l_grown_def)
    then have m: "mul64 (lcapacity l) (lgrowthFactor l) = lcapacity l * lgrowthFactor l"
      using assms(2) by (intro mul64_id) (simp add: l_sized_def)
    have n: "(if mul64 (lcapacity l) (lgrowthFactor l) < add64 (lsize l) (Suc 0)
        then add64 (lsize l) (Suc 0) else mul64 (lcapacity l) (lgrowthFactor l)) = l_grown l"
      unfolding m add [unfolded One_nat_def] by (simp add: l_grown_def max_def)
    have gt: "lcapacity l < add64 (lsize l) (Suc 0)" using add g(2) by simp
    have "lsize l + 1 \<le> l_grown l" by (simp add: l_grown_def)
    then have le: "lcapacity l < l_grown l" using g(2) by simp
    have "8 * l_grown l < 2 ^ 64" using assms(2) by (simp add: l_sized_def)
    then have r: "realloc_cells A (larray l) (l_grown l) =
        Some (a @ map (garbage A) [lcapacity l..<l_grown l])" (is "_ = Some ?b")
      using g(1) a(1,2) le by (simp add: realloc_cells_id realloc_def)
    have len: "length ?b = l_grown l" using a(2) le by simp
    have "ArrayList_EnsureCapacity A 1 l = Done () (l\<lparr>larray := Some ?b, lcapacity := l_grown l\<rparr>)"
      using gt r by (simp add: ArrayList_EnsureCapacity_def Let_def n)
    then show ?thesis
      using a len le g(2) assms(2) by (intro exI [of _ ?b]) (simp add: l_sized_def)
  qed
qed

lemma set_item_run:
  assumes "larray l = Some a" and "index < lsize l" and "index < length a"
  shows "ArrayList_SetItem index obj l =
    (let l' = l\<lparr>larray := Some (a[index := l_stored l obj])\<rparr>
     in if obj \<noteq> None \<and> l_stored l obj = None then Failed l' else Done () l')"
  using assms
  by (cases "fnObjectNew (lobject l)")
    (auto simp: ArrayList_SetItem_def list_store_def l_stored_def Let_def)

lemma append_run:
  assumes "l_inv l" and "l_sized l" and "l_ready A l"
  shows "\<exists>l'. ArrayList_Append A obj l =
      (if obj \<noteq> None \<and> l_stored l obj = None then Failed l' else Done () l') \<and>
    l_inv l' \<and> l_list l' = l_list l @ [l_stored l obj]"
proof -
  obtain a where a: "ArrayList_EnsureCapacity A 1 l = Done () (l\<lparr>larray := Some a, lcapacity := length a\<rparr>)"
      "lsize l < length a" "take (lsize l) a = l_list l" "8 * length a < 2 ^ 63"
    using list_ensure_one [OF assms] by blast
  let ?l1 = "l\<lparr>larray := Some a, lcapacity := length a, lsize := lsize l + 1\<rparr>"
  let ?l = "l\<lparr>larray := Some (a[lsize l := l_stored l obj]), lcapacity := length a, lsize := lsize l + 1\<rparr>"
  have add: "add64 (lsize l) 1 = lsize l + 1" using a(2,4) by simp
  have "ArrayList_Append A obj l = ArrayList_SetItem (lsize l) obj ?l1"
    using a(1) add by (simp add: ArrayList_Append_def)
  also have "\<dots> = (if obj \<noteq> None \<and> l_stored l obj = None then Failed ?l else Done () ?l)"
    using set_item_run [of ?l1 a "lsize l" obj] a(2) by (simp add: Let_def)
  finally show ?thesis
    using a by (intro exI [of _ ?l]) (simp add: l_inv_def l_list_def take_Suc_conv_app_nth)
qed

lemma int64_id: "- (2 ^ 63) \<le> x \<Longrightarrow> x < 2 ^ 63 \<Longrightarrow> int64 x = x"
  by (simp add: int64_def)

lemma insert_cells:
  assumes "i < n" and "n < length a"
  shows "take (n + 1) ((splice_at (i + 1) (take (n - i) (drop i a)) a)[i := x]) =
    take i (take n a) @ x # drop i (take n a)"
proof -
  have "splice_at (i + 1) (take (n - i) (drop i a)) a =
      take (i + 1) a @ take (n - i) (drop i a) @ drop (n + 1) a"
    using assms by (simp add: splice_at_def)
  then have "take (n + 1) ((splice_at (i + 1) (take (n - i) (drop i a)) a)[i := x]) =
      (take (i + 1) a)[i := x] @ take (n - i) (drop i a)"
    using assms by (simp add: list_update_append)
  moreover have "(take (i + 1) a)[i := x] = take i a @ [x]"
    using assms by (simp add: take_Suc_conv_app_nth list_update_append)
  ultimately show ?thesis using assms by (simp add: drop_take)
qed

lemma insert_run:
  assumes "l_inv l" and "l_sized l" and "l_ready A l" and "index < lsize l"
  shows "\<exists>l'. ArrayList_Insert A index obj l = Done () l' \<and> l_inv l' \<and>
    l_list l' = take index (l_list l) @ l_stored l obj # drop index (l_list l)"
proof -
  obtain a where a: "ArrayList_EnsureCapacity A 1 l = Done () (l\<lparr>larray := Some a, lcapacity := length a\<rparr>)"
      "lsize l < length a" "take (lsize l) a = l_list l" "8 * length a < 2 ^ 63"
    using list_ensure_one [OF assms(1-3)] by blast
  let ?b = "splice_at (index + 1) (take (lsize l - index) (drop index a)) a"
  let ?l1 = "l\<lparr>larray := Some ?b, lcapacity := length a, lsize := lsize l + 1\<rparr>"
  let ?l = "?l1\<lparr>larray := Some (?b[index := l_stored l obj])\<rparr>"
  have len: "length ?b = length a" using a(2) assms(4) by simp
  have ar: "add64 (lsize l) 1 = lsize l + 1" "add64 index 1 = index + 1"
      "sub64 (lsize l) index = lsize l - index"
    using a(2,4) assms(4) by simp_all
  have "ArrayList_Shift A index 1 l = Done () ?l1"
    using a(1,2) ar assms(4) by (simp add: ArrayList_Shift_def list_move_def)
  then have "ArrayList_Insert A index obj l = Done () ?l"
    using assms(4) set_item_run [of ?l1 ?b index obj] len a(2)
    by (simp add: ArrayList_Insert_def Let_def split: if_splits)
  moreover have "l_inv ?l" using len a by (simp add: l_inv_def)
  moreover have "l_list ?l = take index (l_list l) @ l_stored l obj # drop index (l_list l)"
    using insert_cells [OF assms(4) a(2), of "l_stored l obj"] a(3) by (simp add: l_list_def)
  ultimately show ?thesis by blast
qed

lemma shift_down_run:
  assumes "l_inv l" and "index < lsize l"
  shows "\<exists>a. ArrayList_Shift A index (- 1) l = Done () (l\<lparr>larray := Some a, lsize := lsize l - 1\<rparr>) \<and>
    length a = lcapacity l \<and>
    take (lsize l - 1) a = take index (l_list l) @ drop (index + 1) (l_list l)"
proof -
  from assms(1) obtain a where a: "larray l = Some a" "length a = lcapacity l"
      "lsize l \<le> lcapacity l" "8 * lcapacity l < 2 ^ 63" "l_list l = take (lsize l) a"
    by (auto elim!: l_invE)
  have c: "int64 (int (lsize l) - int index + - 1) = int (lsize l - index - 1)"
    using assms(2) a(3,4) by (subst int64_id) auto
  have ar: "add64 index 1 = index + 1" "sub64 (lsize l) 1 = lsize l - 1" using a(3,4) assms(2) by simp_all
  let ?b = "splice_at index (take (lsize l - index - 1) (drop (index + 1) a)) a"
  have b: "?b = take index a @ take (lsize l - index - 1) (drop (index + 1) a) @ drop (lsize l - 1) a"
    using assms(2) a(2,3) by (simp add: splice_at_def)
  have "ArrayList_Shift A index (- 1) l = Done () (l\<lparr>larray := Some ?b, lsize := lsize l - 1\<rparr>)"
  proof (cases "index + 1 < lsize l")
    case True
    moreover have "nat (int (lsize l) - (1 + int index)) = lsize l - Suc index" by simp
    ultimately show ?thesis
      using a(1,2,3) ar c by (simp add: ArrayList_Shift_def Let_def list_move_def)
  next
    case False
    then have "lsize l - index - 1 = 0" using assms(2) by linarith
    then show ?thesis using a(1) ar c by (simp add: ArrayList_Shift_def Let_def)
  qed
  moreover have "take (lsize l - 1) ?b = take index (l_list l) @ drop (index + 1) (l_list l)"
    using assms(2) a(2,3,5) unfolding b by (simp add: drop_take)
  ultimately show ?thesis using a assms(2) by (intro exI [of _ ?b]) simp
qed

lemma remove_cell_run:
  assumes "l_inv l" and "index < lsize l"
  shows "\<exists>l'. bind (cell_get (larray l) index) (\<lambda>x.
      seq (list_free_object x) (ArrayList_Shift A index (- 1))) l = Done () l' \<and> l_inv l' \<and>
    l_list l' = take index (l_list l) @ drop (index + 1) (l_list l) \<and>
    lfreed l' = lfreed l @ (if fnObjectFree (lobject l) then [l_list l ! index] else [])"
proof -
  from assms obtain b where b: "larray l = Some b" "length b = lcapacity l"
      "lsize l \<le> lcapacity l" "8 * lcapacity l < 2 ^ 63" "l_list l = take (lsize l) b"
    by (auto elim!: l_invE)
  define f where "f = lfreed l @ (if fnObjectFree (lobject l) then [b ! index] else [])"
  let ?l1 = "l\<lparr>lfreed := f\<rparr>"
  have fr: "list_free_object (b ! index) l = Done () ?l1"
    by (simp add: list_free_object_def f_def)
  have inv: "l_inv ?l1" "index < lsize ?l1" "l_list ?l1 = l_list l" "lcapacity ?l1 = lcapacity l"
    using assms by (simp_all add: l_inv_def l_list_def split: option.splits)
  obtain a where a: "ArrayList_Shift A index (- 1) ?l1 =
        Done () (?l1\<lparr>larray := Some a, lsize := lsize ?l1 - 1\<rparr>)" "length a = lcapacity l"
      "take (lsize l - 1) a = take index (l_list l) @ drop (index + 1) (l_list l)"
    using shift_down_run [OF inv(1,2), of A] inv(3,4) by auto
  have "index < length b" using assms(2) b by simp
  let ?l = "?l1\<lparr>larray := Some a, lsize := lsize l - 1\<rparr>"
  have "bind (cell_get (larray l) index) (\<lambda>x.
      seq (list_free_object x) (ArrayList_Shift A index (- 1))) l = Done () ?l"
    using fr a(1) b(1) \<open>index < length b\<close> by simp
  moreover have "l_inv ?l" using b a(2) by (simp add: l_inv_def)
  moreover have "l_list ?l = take index (l_list l) @ drop (index + 1) (l_list l)"
    using a(3) by (simp add: l_list_def)
  moreover have "lfreed ?l = lfreed l @ (if fnObjectFree (lobject l) then [l_list l ! index] else [])"
    using assms(2) b(5) by (simp add: f_def)
  ultimately show ?thesis by blast
qed

lemma remove_at_run:
  assumes "l_inv l"
  shows "\<exists>l'. ArrayList_RemoveAt A index l = Done () l' \<and> l_inv l' \<and>
    l_list l' = take index (l_list l) @ drop (index + 1) (l_list l)"
proof (cases "index < lsize l")
  case True
  then show ?thesis
    using remove_cell_run [OF assms True, of A] by (auto simp: ArrayList_RemoveAt_def)
next
  case False
  moreover have "length (l_list l) = lsize l" using assms by (auto elim!: l_invE)
  ultimately show ?thesis using assms by (auto simp: ArrayList_RemoveAt_def)
qed

text \<open>Searching: the first item equal to the object, or none.\<close>

lemma list_find_run:
  assumes "l_inv l" and "fnObjectEquals (lobject l) = Some f"
  shows "find_equal (lobject l) (larray l) obj 0 (lsize l) l =
    Done (List.find (\<lambda>j. f (l_list l ! j) obj) [0..<lsize l]) l"
proof -
  from assms(1) obtain a where a: "larray l = Some a" "lsize l \<le> length a"
      "l_list l = take (lsize l) a"
    by (auto elim!: l_invE)
  have "List.find (\<lambda>j. f (a ! j) obj) [0..<lsize l] = List.find (\<lambda>j. f (l_list l ! j) obj) [0..<lsize l]"
    using a(3) by (intro find_cong) auto
  then show ?thesis using find_equal_run [OF assms(2) a(2), of obj 0 l] a(1) by simp
qed

lemma find_last_run:
  assumes "fnObjectEquals ob = Some f" and "n \<le> length a"
  shows "find_last ob (Some a) obj 0 n s =
    Done (map_option Suc (List.find (\<lambda>j. f (a ! j) obj) (rev [0..<n]))) s"
  using assms(2) by (induction n arbitrary: s) (simp_all add: assms(1))

lemma find_skip: "List.find P xs = None \<Longrightarrow> List.find P (xs @ ys) = List.find P ys"
  by (induction xs) (auto split: if_splits)

section \<open>Properties\<close>

definition list_alloc :: "nat pointer allocator" where
  "list_alloc = \<lparr>grants = (\<lambda>_. True), garbage = (\<lambda>_. Some 99)\<rparr>"

definition demo_list :: "nat wArrayList" where
  "demo_list = \<lparr>lcapacity = 3, lgrowthFactor = 2, lsize = 3,
     larray = Some [Some 1, Some 2, Some 1],
     lobject = \<lparr>fnObjectNew = None, fnObjectFree = True,
       fnObjectEquals = Some ArrayList_DefaultCompare\<rparr>, lfreed = []\<rparr>"

lemma demo_list_ok [simp]:
  "l_inv demo_list" "l_list demo_list = [Some 1, Some 2, Some 1]" "l_sized demo_list"
  "l_ready list_alloc demo_list" "lsize demo_list = 3" "l_stored demo_list x = x"
  "fnObjectEquals (lobject demo_list) = Some ArrayList_DefaultCompare"
  "fnObjectFree (lobject demo_list)" "lfreed demo_list = []"
  by (simp_all add: demo_list_def l_inv_def l_list_def l_sized_def l_grown_def l_ready_def
      l_stored_def list_alloc_def)

text \<open>
  C32. The array list behaves like a list. On one that satisfies its invariant, with room or with
  the memory to grow, \<^verbatim>\<open>ArrayList_Append\<close> adds the object (or its copy by \<^verbatim>\<open>fnObjectNew\<close>) at the end,
  reporting failure only when the copy is \<^verbatim>\<open>NULL\<close>; \<^verbatim>\<open>ArrayList_Insert\<close> puts it before the given index and
  does nothing, with success, for an index outside the list; \<^verbatim>\<open>ArrayList_RemoveAt\<close> takes out the item
  at the index, if there is one.
\<close>

theorem arraylist_refines_list:
  assumes "l_inv l" and "l_sized l" and "l_ready A l"
  shows "(\<exists>l'. ArrayList_Append A obj l =
            (if obj \<noteq> None \<and> l_stored l obj = None then Failed l' else Done () l') \<and> l_inv l' \<and>
            l_list l' = l_list l @ [l_stored l obj]) \<and>
         (\<exists>l'. ArrayList_Insert A i obj l = Done () l' \<and> l_inv l' \<and>
            l_list l' = (if i < length (l_list l)
              then take i (l_list l) @ l_stored l obj # drop i (l_list l) else l_list l)) \<and>
         (\<exists>l'. ArrayList_RemoveAt A i l = Done () l' \<and> l_inv l' \<and>
            l_list l' = take i (l_list l) @ drop (i + 1) (l_list l))"
proof -
  have "length (l_list l) = lsize l" using assms(1) by (auto elim!: l_invE)
  moreover have "ArrayList_Insert A i obj l = Done () l" if "\<not> i < lsize l"
    using that by (simp add: ArrayList_Insert_def)
  ultimately show ?thesis
    using append_run [OF assms, of obj] insert_run [OF assms, of i obj] remove_at_run [OF assms(1), of A i]
      assms(1)
    by (cases "i < lsize l") simp_all
qed

theorem arraylist_refines_list_witness:
  "(\<exists>l'. ArrayList_Append list_alloc (Some 7) demo_list = Done () l' \<and> l_inv l' \<and>
      l_list l' = [Some 1, Some 2, Some 1, Some 7]) \<and>
   (\<exists>l'. ArrayList_Insert list_alloc 1 (Some 7) demo_list = Done () l' \<and> l_inv l' \<and>
      l_list l' = [Some 1, Some 7, Some 2, Some 1]) \<and>
   (\<exists>l'. ArrayList_RemoveAt list_alloc 1 demo_list = Done () l' \<and> l_inv l' \<and>
      l_list l' = [Some 1, Some 1])"
  using arraylist_refines_list [of demo_list list_alloc "Some 7" 1] by simp

definition l_first ::
    "('p pointer \<Rightarrow> 'p pointer \<Rightarrow> bool) \<Rightarrow> 'p pointer \<Rightarrow> 'p wArrayList \<Rightarrow> nat option" where
  "l_first f obj l = List.find (\<lambda>j. f (l_list l ! j) obj) [0..<length (l_list l)]"

text \<open>
  Searching an array list finds the first equal item: \<^verbatim>\<open>ArrayList_Contains\<close> says whether there is
  one, \<^verbatim>\<open>ArrayList_IndexOf\<close> over the whole list returns its index or \<open>-1\<close>, and \<^verbatim>\<open>ArrayList_Remove\<close>
  removes that one item and releases it, and leaves the list alone when there is none.
\<close>

theorem arraylist_search_first:
  assumes "l_inv l" and "fnObjectEquals (lobject l) = Some f"
  shows "ArrayList_Contains obj l = Done (\<exists>x \<in> set (l_list l). f x obj) l \<and>
    ArrayList_IndexOf obj (- 1) (- 1) l = Done (case l_first f obj l of Some i \<Rightarrow> int i | None \<Rightarrow> - 1) l \<and>
    (\<exists>l'. ArrayList_Remove A obj l = Done () l' \<and> l_inv l' \<and>
       l_list l' = (case l_first f obj l of Some i \<Rightarrow> take i (l_list l) @ drop (i + 1) (l_list l)
                    | None \<Rightarrow> l_list l) \<and>
       lfreed l' = lfreed l @ (case l_first f obj l of Some i \<Rightarrow>
         if fnObjectFree (lobject l) then [l_list l ! i] else [] | None \<Rightarrow> []))"
proof -
  have len: "length (l_list l) = lsize l" using assms(1) by (auto elim!: l_invE)
  have run: "find_equal (lobject l) (larray l) obj 0 (lsize l) l = Done (l_first f obj l) l"
    using list_find_run [OF assms(1,2), of obj] len by (simp add: l_first_def)
  have "(l_first f obj l \<noteq> None) = (\<exists>x \<in> set (l_list l). f x obj)"
    using find_upt_bex [of "lsize l" "l_list l" "\<lambda>x. f x obj"] len by (simp add: l_first_def)
  then have c: "ArrayList_Contains obj l = Done (\<exists>x \<in> set (l_list l). f x obj) l"
    using run by (simp add: ArrayList_Contains_def)
  have i: "ArrayList_IndexOf obj (- 1) (- 1) l = Done (case l_first f obj l of Some i \<Rightarrow> int i | None \<Rightarrow> - 1) l"
    using run by (simp add: ArrayList_IndexOf_def Let_def)
  show ?thesis
  proof (cases "l_first f obj l")
    case None
    then show ?thesis using c i run assms(1) by (simp add: ArrayList_Remove_def)
  next
    case (Some k)
    then have "k < lsize l" unfolding l_first_def len by (rule find_upt_Some(2))
    then show ?thesis
      using c i run Some remove_cell_run [OF assms(1), of k A] by (auto simp: ArrayList_Remove_def)
  qed
qed

theorem arraylist_search_first_witness:
  "ArrayList_IndexOf (Some 1) (- 1) (- 1) demo_list = Done 0 demo_list \<and>
   (\<exists>l'. ArrayList_Remove list_alloc (Some 1) demo_list = Done () l' \<and> l_inv l' \<and>
      l_list l' = [Some 2, Some 1] \<and> lfreed l' = [Some 1])"
  using arraylist_search_first [of demo_list ArrayList_DefaultCompare "Some 1" list_alloc]
  by (simp add: ArrayList_DefaultCompare_def l_first_def upt_rec)

text \<open>
  \<^verbatim>\<open>ArrayList_LastIndexOf\<close> is off by one: over the whole list it returns the index of the last
  equal item plus one, not the zero-based index its comment promises, and \<open>-1\<close> when there is none.
\<close>

theorem arraylist_last_index_off_by_one:
  assumes "l_inv l" and "fnObjectEquals (lobject l) = Some f" and "i < lsize l"
    and "f (l_list l ! i) obj" and "\<And>j. i < j \<Longrightarrow> j < lsize l \<Longrightarrow> \<not> f (l_list l ! j) obj"
  shows "ArrayList_LastIndexOf obj (- 1) (- 1) l = Done (int i + 1) l"
proof -
  from assms(1) obtain a where a: "larray l = Some a" "lsize l \<le> length a"
      "l_list l = take (lsize l) a"
    by (auto elim!: l_invE)
  have "[0..<lsize l] = [0..<i] @ i # [i + 1..<lsize l]"
    using upt_add_eq_append [of 0 i "lsize l - i"] assms(3) by (simp add: upt_conv_Cons)
  then have "rev [0..<lsize l] = rev [i + 1..<lsize l] @ i # rev [0..<i]" by simp
  moreover have "List.find (\<lambda>j. f (a ! j) obj) (rev [i + 1..<lsize l]) = None"
    using assms(5) a(3) by (auto simp: find_None_iff)
  moreover have "f (a ! i) obj" using assms(3,4) a(3) by simp
  ultimately have "List.find (\<lambda>j. f (a ! j) obj) (rev [0..<lsize l]) = Some i"
    by (simp add: find_skip)
  then show ?thesis
    using find_last_run [OF assms(2) a(2), of obj l] a(1) by (simp add: ArrayList_LastIndexOf_def Let_def)
qed

theorem arraylist_last_index_off_by_one_witness:
  "l_list demo_list ! 1 = Some 2 \<and>
   ArrayList_LastIndexOf (Some 2) (- 1) (- 1) demo_list = Done 2 demo_list"
  using arraylist_last_index_off_by_one [of demo_list ArrayList_DefaultCompare 1 "Some 2"]
  by (simp add: ArrayList_DefaultCompare_def less_Suc_eq numeral_3_eq_3 nth_Cons' )

end
