(* ===== verification/StreamPool.thy ===== *)
theory StreamPool
  imports Stream Objects
begin

text \<open>
  The pool of streams, \<^verbatim>\<open>winpr/libwinpr/utils/collections/StreamPool.c\<close>, with the reference counts
  of its streams: every function except the statistics text. Streams live in a store from addresses
  to streams, the pool keeps arrays of their addresses. The invariant says that each live stream is
  owned once; a step relation over the calls carries it along every history of a pool.
\<close>

section \<open>State\<close>

text \<open>
  A pooled stream is the stream with the reference count and whether its \<^verbatim>\<open>pool\<close> pointer is set.
  Streams live in a store from addresses to pooled streams; an address not in it is dangling. The
  fields \<^verbatim>\<open>aSize\<close>, \<^verbatim>\<open>aCapacity\<close>, \<^verbatim>\<open>aArray\<close> and \<^verbatim>\<open>uSize\<close>, \<^verbatim>\<open>uCapacity\<close>, \<^verbatim>\<open>uArray\<close> of the C structure are two
  records of the same shape.
\<close>

record pooled =
  p_stream :: wStream
  p_count :: u32
  p_pool :: bool

record stream_array =
  p_size :: nat
  p_capacity :: nat
  p_array :: "nat pointer list option"

record wStreamPool =
  available :: stream_array
  used :: stream_array
  defaultSize :: nat
  streams :: "nat \<Rightarrow> pooled option"
  next_address :: nat

type_synonym 'a poolprog = "(wStreamPool, 'a) prog"

text \<open>\<open>deref\<close> and \<open>assign\<close> go through a stream pointer; \<open>on_stream\<close> runs a stream operation behind one.\<close>

definition deref :: "nat pointer \<Rightarrow> pooled poolprog" where
  "deref s p =
     (case s of None \<Rightarrow> Fault NullDereference
      | Some a \<Rightarrow> (case streams p a of None \<Rightarrow> Fault NullDereference | Some x \<Rightarrow> Done x p))"

definition assign :: "nat pointer \<Rightarrow> (pooled \<Rightarrow> pooled) \<Rightarrow> unit poolprog" where
  "assign s f =
     bind (deref s) (\<lambda>x. modify (\<lambda>p. p\<lparr>streams := (streams p)(the s := Some (f x))\<rparr>))"

definition on_stream :: "nat pointer \<Rightarrow> 'a sprog \<Rightarrow> 'a poolprog" where
  "on_stream s m =
     bind (deref s) (\<lambda>x.
     case m (p_stream x) of
       Done v t \<Rightarrow> seq (assign s (\<lambda>x. x\<lparr>p_stream := t\<rparr>)) (ret v)
     | Failed t \<Rightarrow> seq (assign s (\<lambda>x. x\<lparr>p_stream := t\<rparr>)) fail
     | Fault e \<Rightarrow> fault e)"

text \<open>A call whose result the C code does not look at.\<close>

definition ignore :: "('s, unit) prog \<Rightarrow> ('s, unit) prog" where
  "ignore m = or_value () m"

section \<open>The arrays\<close>

definition array_of :: "bool \<Rightarrow> wStreamPool \<Rightarrow> stream_array" where
  "array_of usedOrAvailable p = (if usedOrAvailable then used p else available p)"

definition set_array :: "bool \<Rightarrow> (stream_array \<Rightarrow> stream_array) \<Rightarrow> unit poolprog" where
  "set_array usedOrAvailable f =
     modify (\<lambda>p. if usedOrAvailable then p\<lparr>used := f (used p)\<rparr> else p\<lparr>available := f (available p)\<rparr>)"

definition StreamPool_EnsureCapacity :: "nat pointer allocator \<Rightarrow> nat \<Rightarrow> bool \<Rightarrow> unit poolprog" where
  "StreamPool_EnsureCapacity A count usedOrAvailable =
     bind (gets (array_of usedOrAvailable)) (\<lambda>arr.
     let cap = p_capacity arr; sz = p_size arr; wanted = add64 sz count;
         new_cap = (if cap = 0 then wanted
                    else if wanted > cap then mul64 cap 2
                    else if wanted < cap div 3 then cap div 2
                    else 0)
     in if new_cap > 0
        then
          seq (if cap < wanted
               then set_array usedOrAvailable (\<lambda>a. a\<lparr>p_capacity := add64 cap count\<rparr>) else ret ())
         (case realloc_cells A (p_array arr) new_cap of
            None \<Rightarrow> fail
          | Some new_arr \<Rightarrow>
              set_array usedOrAvailable (\<lambda>a. a\<lparr>p_capacity := new_cap, p_array := Some new_arr\<rparr>))
        else ret ())"

text \<open>
  \<open>shift_array u\<close> is \<^verbatim>\<open>StreamPool_ShiftUsed\<close> for the used streams and \<^verbatim>\<open>StreamPool_ShiftAvailable\<close> for
  the available ones, two functions that differ in the fields only; the same holds for
  \<open>push_array\<close>, which stores behind the last stream.
\<close>

definition move_array :: "bool \<Rightarrow> nat \<Rightarrow> nat \<Rightarrow> nat \<Rightarrow> unit poolprog" where
  "move_array u dst src n =
     bind (gets (\<lambda>p. p_array (array_of u p))) (\<lambda>arr.
     bind (load_cells arr src n) (\<lambda>xs.
     bind (store_cells arr dst xs) (\<lambda>arr'.
     set_array u (\<lambda>a. a\<lparr>p_array := arr'\<rparr>))))"

definition shift_array :: "nat pointer allocator \<Rightarrow> bool \<Rightarrow> nat \<Rightarrow> int \<Rightarrow> unit poolprog" where
  "shift_array A u index count =
     (if count > 0
      then
        let pcount = nat count in
        seq (ignore (StreamPool_EnsureCapacity A pcount u))
       (bind (gets (\<lambda>p. p_size (array_of u p))) (\<lambda>sz.
        seq (move_array u (add64 index pcount) index (sub64 sz index))
            (set_array u (\<lambda>a. a\<lparr>p_size := add64 sz pcount\<rparr>))))
      else if count < 0
      then
        let pcount = nat (- count); off = add64 index pcount in
        bind (gets (\<lambda>p. p_size (array_of u p))) (\<lambda>sz.
        seq (if sz > off then move_array u index off (sub64 (sub64 sz index) pcount) else ret ())
            (set_array u (\<lambda>a. a\<lparr>p_size := sub64 sz pcount\<rparr>)))
      else ret ())"

definition StreamPool_ShiftUsed :: "nat pointer allocator \<Rightarrow> nat \<Rightarrow> int \<Rightarrow> unit poolprog" where
  "StreamPool_ShiftUsed A = shift_array A True"

definition StreamPool_ShiftAvailable :: "nat pointer allocator \<Rightarrow> nat \<Rightarrow> int \<Rightarrow> unit poolprog" where
  "StreamPool_ShiftAvailable A = shift_array A False"

definition push_array :: "bool \<Rightarrow> nat pointer \<Rightarrow> unit poolprog" where
  "push_array u s =
     bind (gets (array_of u)) (\<lambda>arr.
     bind (cell_set (p_array arr) (p_size arr) s) (\<lambda>cells.
     set_array u (\<lambda>a. a\<lparr>p_array := cells, p_size := add64 (p_size arr) 1\<rparr>)))"

definition StreamPool_AddUsed :: "nat pointer allocator \<Rightarrow> nat pointer \<Rightarrow> unit poolprog" where
  "StreamPool_AddUsed A s = seq (ignore (StreamPool_EnsureCapacity A 1 True)) (push_array True s)"

text \<open>The first index from \<open>i\<close> up to below \<open>n\<close> whose stream satisfies a test; both loops over an array that look for a stream are this scan.\<close>

function scan_array :: "bool \<Rightarrow> (nat pointer \<Rightarrow> bool poolprog) \<Rightarrow> nat \<Rightarrow> nat \<Rightarrow> nat option poolprog" where
  "scan_array u test i n =
     (if i < n
      then
        bind (gets (\<lambda>p. p_array (array_of u p))) (\<lambda>arr.
        bind (cell_get arr i) (\<lambda>s.
        bind (test s) (\<lambda>b.
        if b then ret (Some i) else scan_array u test (i + 1) n)))
      else ret None)"
  by pat_completeness auto
termination
  by (relation "measure (\<lambda>(_, _, i, n). n - i)") auto

declare scan_array.simps [simp del]

definition StreamPool_RemoveUsed :: "nat pointer allocator \<Rightarrow> nat pointer \<Rightarrow> unit poolprog" where
  "StreamPool_RemoveUsed A s =
     bind (gets (\<lambda>p. p_size (used p))) (\<lambda>n.
     bind (scan_array True (\<lambda>x. ret (x = s)) 0 n) (\<lambda>r.
     case r of Some index \<Rightarrow> StreamPool_ShiftUsed A index (- 1) | None \<Rightarrow> ret ()))"

section \<open>Taking and returning streams\<close>

text \<open>A new stream at a fresh address; \<open>None\<close> is \<^verbatim>\<open>NULL\<close>.\<close>

definition pool_new_stream :: "byte allocator \<Rightarrow> nat \<Rightarrow> nat pointer poolprog" where
  "pool_new_stream M sz p =
     (case Stream_New (grants M) None sz (map (garbage M) [0..<sz]) of
        None \<Rightarrow> Done None p
      | Some t \<Rightarrow>
          Done (Some (next_address p))
            (p\<lparr>streams := (streams p)(next_address p \<mapsto> \<lparr>p_stream = t, p_count = 0, p_pool = False\<rparr>),
               next_address := next_address p + 1\<rparr>))"

definition StreamPool_Take :: "nat pointer allocator \<Rightarrow> byte allocator \<Rightarrow> nat \<Rightarrow> nat pointer poolprog" where
  "StreamPool_Take A M req =
     bind (gets defaultSize) (\<lambda>ds.
     let sz = (if req = 0 then ds else req) in
     bind (gets (\<lambda>p. p_size (available p))) (\<lambda>n.
     bind (scan_array False (\<lambda>s. bind (deref s) (\<lambda>x. ret (capacity (p_stream x) \<ge> sz))) 0 n) (\<lambda>found.
     bind (case found of
             None \<Rightarrow> pool_new_stream M sz
           | Some index \<Rightarrow>
               bind (gets (\<lambda>p. p_array (available p))) (\<lambda>arr.
               bind (cell_get arr index) (\<lambda>s.
               seq (ignore (on_stream s (Stream_SetPosition 0)))
              (bind (deref s) (\<lambda>x.
               seq (ignore (on_stream s (Stream_SetLength (capacity (p_stream x)))))
              (seq (StreamPool_ShiftAvailable A index (- 1)) (ret s)))))))
       (\<lambda>s. case s of
          None \<Rightarrow> ret None
        | Some _ \<Rightarrow>
            seq (assign s (\<lambda>x. x\<lparr>p_pool := True, p_count := 1\<rparr>))
           (seq (StreamPool_AddUsed A s) (ret s))))))"

definition StreamPool_Remove :: "nat pointer allocator \<Rightarrow> nat pointer \<Rightarrow> unit poolprog" where
  "StreamPool_Remove A s =
     seq (ignore (StreamPool_EnsureCapacity A 1 False))
    (seq (on_stream s Stream_EnsureValidity)
    (bind (gets (\<lambda>p. p_size (available p))) (\<lambda>n.
     bind (scan_array False (\<lambda>cs. ret (cs = s)) 0 n) (\<lambda>r.
     seq (assert_that (\<lambda>_. r = None))
    (seq (push_array False s)
         (StreamPool_RemoveUsed A s))))))"

definition StreamPool_ReleaseOrReturn :: "nat pointer allocator \<Rightarrow> nat pointer \<Rightarrow> unit poolprog" where
  "StreamPool_ReleaseOrReturn A s =
     seq (assign s (\<lambda>x. if p_count x > 0 then x\<lparr>p_count := p_count x - 1\<rparr> else x))
    (bind (deref s) (\<lambda>x. if p_count x = 0 then StreamPool_Remove A s else ret ()))"

definition StreamPool_Return :: "nat pointer allocator \<Rightarrow> nat pointer \<Rightarrow> unit poolprog" where
  "StreamPool_Return A s = (case s of None \<Rightarrow> ret () | Some _ \<Rightarrow> StreamPool_Remove A s)"

definition Stream_AddRef :: "nat pointer \<Rightarrow> unit poolprog" where
  "Stream_AddRef s =
     seq (assert_that (\<lambda>_. s \<noteq> None))
    (bind (deref s) (\<lambda>x. if p_pool x then assign s (\<lambda>x. x\<lparr>p_count := p_count x + 1\<rparr>) else ret ()))"

definition Stream_Release :: "nat pointer allocator \<Rightarrow> nat pointer \<Rightarrow> unit poolprog" where
  "Stream_Release A s =
     seq (assert_that (\<lambda>_. s \<noteq> None))
    (bind (deref s) (\<lambda>x. if p_pool x then StreamPool_ReleaseOrReturn A s else ret ()))"

text \<open>
  A pointer into the buffer of the stream at address \<open>a\<close> is the pair of \<open>a\<close> and the offset; buffers of
  different streams do not overlap.
\<close>

definition StreamPool_Find :: "nat \<times> nat \<Rightarrow> nat pointer poolprog" where
  "StreamPool_Find ptr =
     bind (gets (\<lambda>p. p_size (used p))) (\<lambda>n.
     bind (scan_array True (\<lambda>s. bind (deref s) (\<lambda>x.
             ret (s = Some (fst ptr) \<and> snd ptr < capacity (p_stream x)))) 0 n) (\<lambda>r.
     case r of
       None \<Rightarrow> ret None
     | Some index \<Rightarrow> bind (gets (\<lambda>p. p_array (used p))) (\<lambda>arr. cell_get arr index)))"

section \<open>Construction and destruction\<close>

text \<open>\<^verbatim>\<open>Stream_Free(s, s->isAllocatedStream)\<close>: the address leaves the store when the structure is freed.\<close>

definition pool_free_stream :: "nat pointer \<Rightarrow> unit poolprog" where
  "pool_free_stream s =
     (case s of
        None \<Rightarrow> fault NullDereference
      | Some a \<Rightarrow>
          seq (on_stream s Stream_EnsureValidity)
         (bind (deref s) (\<lambda>x.
          if isAllocatedStream (p_stream x)
          then modify (\<lambda>p. p\<lparr>streams := (streams p)(a := None)\<rparr>) else ret ())))"

fun clear_array :: "bool \<Rightarrow> nat \<Rightarrow> unit poolprog" where
  "clear_array u 0 = ret ()"
| "clear_array u (Suc n) =
     seq (set_array u (\<lambda>a. a\<lparr>p_size := n\<rparr>))
    (bind (gets (\<lambda>p. p_array (array_of u p))) (\<lambda>arr.
     bind (cell_get arr n) (\<lambda>s.
     seq (pool_free_stream s) (clear_array u n))))"

definition StreamPool_Clear :: "unit poolprog" where
  "StreamPool_Clear =
     bind (gets (\<lambda>p. p_size (available p))) (\<lambda>n.
     seq (clear_array False n)
    (bind (gets (\<lambda>p. p_size (used p))) (\<lambda>m. clear_array True m)))"

definition StreamPool_New :: "nat pointer allocator \<Rightarrow> bool \<Rightarrow> nat \<Rightarrow> (unit, wStreamPool option) outcome" where
  "StreamPool_New A pool_granted ds =
     (if \<not> pool_granted then Done None ()
      else
        let none = \<lparr>p_size = 0, p_capacity = 0, p_array = None\<rparr>;
            p = \<lparr>available = none, used = none, defaultSize = ds, streams = (\<lambda>_. None), next_address = 0\<rparr>
        in case seq (StreamPool_EnsureCapacity A 32 False) (StreamPool_EnsureCapacity A 32 True) p of
             Done _ p' \<Rightarrow> Done (Some p') ()
           | Failed p' \<Rightarrow> (case StreamPool_Clear p' of Fault e \<Rightarrow> Fault e | _ \<Rightarrow> Done None ())
           | Fault e \<Rightarrow> Fault e)"

definition StreamPool_Free :: "wStreamPool option \<Rightarrow> (unit, (nat \<Rightarrow> pooled option)) outcome" where
  "StreamPool_Free pool =
     (case pool of
        None \<Rightarrow> Done (\<lambda>_. None) ()
      | Some p \<Rightarrow> (case StreamPool_Clear p of
                    Done _ p' \<Rightarrow> Done (streams p') ()
                  | Failed p' \<Rightarrow> Done (streams p') ()
                  | Fault e \<Rightarrow> Fault e))"

section \<open>The arrays as lists\<close>

definition arr_ok :: "stream_array \<Rightarrow> bool" where
  "arr_ok a \<longleftrightarrow> (case p_array a of None \<Rightarrow> False | Some c \<Rightarrow> length c = p_capacity a) \<and>
     p_size a \<le> p_capacity a \<and> 0 < p_capacity a \<and> p_capacity a < 2 ^ 59"

definition cells :: "stream_array \<Rightarrow> nat pointer list" where
  "cells a = take (p_size a) (the (p_array a))"

definition with_array :: "bool \<Rightarrow> stream_array \<Rightarrow> wStreamPool \<Rightarrow> wStreamPool" where
  "with_array u a p = (if u then p\<lparr>used := a\<rparr> else p\<lparr>available := a\<rparr>)"

lemma with_array_simps [simp]:
  "array_of u (with_array u a p) = a" "array_of (\<not> u) (with_array u a p) = array_of (\<not> u) p"
  "streams (with_array u a p) = streams p" "next_address (with_array u a p) = next_address p"
  "defaultSize (with_array u a p) = defaultSize p" "with_array u a (with_array u b p) = with_array u a p"
  "used (with_array True a p) = a" "used (with_array False a p) = used p"
  "available (with_array False a p) = a" "available (with_array True a p) = available p"
  by (simp_all add: with_array_def array_of_def)

lemma array_of_simps [simp]: "array_of True p = used p" "array_of False p = available p"
  by (simp_all add: array_of_def)

lemma set_array_run [simp]: "set_array u f p = Done () (with_array u (f (array_of u p)) p)"
  by (simp add: set_array_def with_array_def array_of_def)

lemma arr_okE:
  assumes "arr_ok a"
  obtains c where "p_array a = Some c" "length c = p_capacity a" "p_size a \<le> p_capacity a"
    "0 < p_capacity a" "p_capacity a < 2 ^ 59" "cells a = take (p_size a) c"
  using assms by (auto simp: arr_ok_def cells_def split: option.splits)

lemma length_cells [simp]: "arr_ok a \<Longrightarrow> length (cells a) = p_size a"
  by (auto elim!: arr_okE)

text \<open>Whether the array of pointers can be resized: the next doubling stays in range and is granted.\<close>

definition arr_ready :: "nat pointer allocator \<Rightarrow> stream_array \<Rightarrow> bool" where
  "arr_ready A a \<longleftrightarrow> p_capacity a < 2 ^ 58 \<and> (\<forall>n. n \<le> 2 * p_capacity a \<longrightarrow> grants A n)"

definition pool_ready :: "nat pointer allocator \<Rightarrow> wStreamPool \<Rightarrow> bool" where
  "pool_ready A p \<longleftrightarrow> arr_ready A (used p) \<and> arr_ready A (available p)"

lemma pool_ensure_one:
  assumes ok: "arr_ok (array_of u p)" and ready: "arr_ready A (array_of u p)"
  shows "\<exists>a. StreamPool_EnsureCapacity A 1 u p = Done () (with_array u a p) \<and> arr_ok a \<and>
    cells a = cells (array_of u p) \<and> p_size a = p_size (array_of u p) \<and> p_size a < p_capacity a \<and>
    p_capacity a \<le> 2 * p_capacity (array_of u p)"
proof -
  let ?a = "array_of u p"
  from ok obtain c where c: "p_array ?a = Some c" "length c = p_capacity ?a" "p_size ?a \<le> p_capacity ?a"
    "0 < p_capacity ?a" "p_capacity ?a < 2 ^ 59" "cells ?a = take (p_size ?a) c"
    by (rule arr_okE)
  have lim: "p_capacity ?a < 2 ^ 58" and gr: "\<And>n. n \<le> 2 * p_capacity ?a \<Longrightarrow> grants A n"
    using ready by (auto simp: arr_ready_def)
  have w: "add64 (p_size ?a) 1 = p_size ?a + 1" using c by (simp del: One_nat_def)
  have two: "mul64 (p_capacity ?a) 2 = p_capacity ?a * 2" using lim by simp
  have resize: "\<exists>b. realloc_cells A (Some c) n = Some b \<and> length b = n \<and> take (p_size ?a) b = take (p_size ?a) c"
    if "n \<le> 2 * p_capacity ?a" "p_size ?a \<le> n" for n
  proof -
    have "realloc_cells A (Some c) n = realloc A (Some c) n" using that lim by (intro realloc_cells_id) simp
    moreover have "realloc A (Some c) n = Some (take n c @ map (garbage A) [length c..<n])"
      using gr [OF that(1)] by (simp add: realloc_def)
    ultimately show ?thesis using that(2) c(2,3) by auto
  qed
  consider "p_size ?a = p_capacity ?a" | "p_size ?a < p_capacity ?a" "p_size ?a + 1 < p_capacity ?a div 3"
    | "p_size ?a < p_capacity ?a" "\<not> p_size ?a + 1 < p_capacity ?a div 3" using c(3) by linarith
  then show ?thesis
  proof cases
    case 1
    obtain b where b: "realloc_cells A (Some c) (p_capacity ?a * 2) = Some b" "length b = p_capacity ?a * 2"
        "take (p_size ?a) b = take (p_size ?a) c"
      using resize [of "p_capacity ?a * 2"] c(3) by auto
    then have "StreamPool_EnsureCapacity A 1 u p =
        Done () (with_array u (?a\<lparr>p_capacity := p_capacity ?a * 2, p_array := Some b\<rparr>) p)"
      using 1 c w two by (simp add: StreamPool_EnsureCapacity_def Let_def)
    with b c 1 lim show ?thesis by (auto simp: arr_ok_def cells_def)
  next
    case 2
    have pos: "0 < p_capacity ?a div 2" "p_size ?a < p_capacity ?a div 2" "p_capacity ?a div 2 \<le> 2 * p_capacity ?a"
      using 2 by linarith+
    then obtain b where b: "realloc_cells A (Some c) (p_capacity ?a div 2) = Some b" "length b = p_capacity ?a div 2"
        "take (p_size ?a) b = take (p_size ?a) c"
      using resize [of "p_capacity ?a div 2"] by auto
    from pos have "StreamPool_EnsureCapacity A 1 u p =
        Done () (with_array u (?a\<lparr>p_capacity := p_capacity ?a div 2, p_array := Some b\<rparr>) p)"
      using 2 c w b(1) by (simp add: StreamPool_EnsureCapacity_def Let_def)
    with b c pos lim show ?thesis by (auto simp: arr_ok_def cells_def)
  next
    case 3
    then have "StreamPool_EnsureCapacity A 1 u p = Done () (with_array u ?a p)"
      using c w by (simp add: StreamPool_EnsureCapacity_def Let_def with_array_def array_of_def)
    with ok 3 show ?thesis by auto
  qed
qed

lemma push_run:
  assumes "arr_ok (array_of u p)" and "p_size (array_of u p) < p_capacity (array_of u p)"
  shows "\<exists>a. push_array u s p = Done () (with_array u a p) \<and> arr_ok a \<and>
    cells a = cells (array_of u p) @ [s] \<and> p_capacity a = p_capacity (array_of u p)"
proof -
  let ?a = "array_of u p"
  from assms(1) obtain c where c: "p_array ?a = Some c" "length c = p_capacity ?a"
      "p_capacity ?a < 2 ^ 59" "cells ?a = take (p_size ?a) c"
    by (rule arr_okE)
  let ?b = "?a\<lparr>p_array := Some (c[p_size ?a := s]), p_size := p_size ?a + 1\<rparr>"
  have "add64 (p_size ?a) 1 = p_size ?a + 1" using assms(2) c by (simp del: One_nat_def)
  then have "push_array u s p = Done () (with_array u ?b p)"
    using assms(2) c(1,2) by (simp add: push_array_def)
  moreover have "cells ?b = cells ?a @ [s]"
    using assms(2) c by (simp add: cells_def take_Suc_conv_app_nth)
  ultimately show ?thesis using assms(2) c by (auto simp: arr_ok_def)
qed

lemma pool_shift_run:
  assumes "arr_ok (array_of u p)" and "i < p_size (array_of u p)"
  shows "\<exists>a. shift_array A u i (- 1) p = Done () (with_array u a p) \<and> arr_ok a \<and>
    cells a = take i (cells (array_of u p)) @ drop (i + 1) (cells (array_of u p)) \<and>
    p_capacity a = p_capacity (array_of u p)"
proof -
  let ?a = "array_of u p"
  let ?n = "p_size ?a"
  from assms(1) obtain c where c: "p_array ?a = Some c" "length c = p_capacity ?a" "?n \<le> p_capacity ?a"
      "0 < p_capacity ?a" "p_capacity ?a < 2 ^ 59" "cells ?a = take ?n c"
    by (rule arr_okE)
  have ar: "add64 i 1 = i + 1" "sub64 ?n 1 = ?n - 1" "sub64 (sub64 ?n i) 1 = ?n - i - 1"
    using c assms(2) by (simp_all del: One_nat_def)
  let ?d = "splice_at i (take (?n - i - 1) (drop (i + 1) c)) c"
  have d: "?d = take i c @ take (?n - i - 1) (drop (i + 1) c) @ drop (?n - 1) c"
    using assms(2) c(2,3) by (simp add: splice_at_def)
  let ?b = "?a\<lparr>p_array := Some ?d, p_size := ?n - 1\<rparr>"
  have "shift_array A u i (- 1) p = Done () (with_array u ?b p)"
  proof (cases "i + 1 < ?n")
    case True
    then show ?thesis using c(1,2,3) ar by (simp add: shift_array_def Let_def move_array_def)
  next
    case False
    then have "?n - i - 1 = 0" by linarith
    then have "?d = c" by simp
    moreover have "?a\<lparr>p_array := Some c, p_size := ?n - 1\<rparr> = ?a\<lparr>p_size := ?n - 1\<rparr>" using c(1) by (cases ?a) simp
    ultimately show ?thesis using False ar by (simp add: shift_array_def Let_def)
  qed
  moreover have "cells ?b = take i (cells ?a) @ drop (i + 1) (cells ?a)"
    using assms(2) c unfolding d by (simp add: cells_def drop_take)
  moreover have "arr_ok ?b" using c assms(2) by (simp add: arr_ok_def)
  ultimately show ?thesis by auto
qed

lemma scan_run:
  assumes "arr_ok (array_of u p)" and "n = p_size (array_of u p)"
    and "\<And>s. s \<in> set (cells (array_of u p)) \<Longrightarrow> test s p = Done (P s) p"
  shows "scan_array u test i n p = Done (List.find (\<lambda>j. P (cells (array_of u p) ! j)) [i..<n]) p"
proof (induction "n - i" arbitrary: i)
  case 0
  then show ?case by (simp add: scan_array.simps)
next
  case (Suc k)
  let ?c = "cells (array_of u p)"
  from assms(1) obtain c where c: "p_array (array_of u p) = Some c" "length c = p_capacity (array_of u p)"
      "p_size (array_of u p) \<le> p_capacity (array_of u p)" "?c = take n c"
    unfolding assms(2) by (rule arr_okE)
  have i: "i < n" "k = n - (i + 1)" using Suc.hyps(2) by linarith+
  have cell: "cell_get (Some c) i p = Done (?c ! i) p" using c i assms(2) by simp
  have "?c ! i \<in> set ?c" using i c assms(2) by (intro nth_mem) simp
  note t = assms(3) [OF this]
  show ?case
    using i Suc.hyps(1) [OF i(2)] c(1) cell t
    by (subst scan_array.simps) (simp add: upt_rec [of i n])
qed

lemma remove1_nth:
  assumes "i < length xs" and "distinct xs"
  shows "take i xs @ drop (i + 1) xs = remove1 (xs ! i) xs"
proof -
  have xs: "xs = take i xs @ xs ! i # drop (i + 1) xs" using assms(1) by (metis Suc_eq_plus1 id_take_nth_drop)
  then have "xs ! i \<notin> set (take i xs)" using assms(2) by (metis distinct_append disjoint_iff list.set_intros(1))
  then show ?thesis using xs by (metis remove1.simps(2) remove1_append)
qed

lemma find_index_mem:
  assumes "s \<in> set xs" and "distinct xs"
  obtains i where "List.find (\<lambda>j. xs ! j = s) [0..<length xs] = Some i" "i < length xs" "xs ! i = s"
    "take i xs @ drop (i + 1) xs = remove1 s xs"
proof -
  from assms(1) have "List.find (\<lambda>j. xs ! j = s) [0..<length xs] \<noteq> None"
    by (auto simp: find_upt_None in_set_conv_nth)
  then obtain i where i: "List.find (\<lambda>j. xs ! j = s) [0..<length xs] = Some i" by blast
  note f = find_upt_Some [OF i]
  have "take i xs @ drop (i + 1) xs = remove1 s xs" using remove1_nth [OF f(2) assms(2)] f(3) by simp
  with i f that show thesis by simp
qed

section \<open>Ownership\<close>

text \<open>
  The invariant: both arrays are well formed; every stream in the store is in exactly one of them,
  exactly once; its fields are consistent; a stream in use belongs to the pool and is referenced;
  addresses at or above the next one are free.
\<close>

definition avail :: "wStreamPool \<Rightarrow> nat pointer list" where
  "avail p = cells (available p)"

definition in_use :: "wStreamPool \<Rightarrow> nat pointer list" where
  "in_use p = cells (used p)"

definition pooled_ok :: "pooled \<Rightarrow> bool" where
  "pooled_ok x \<longleftrightarrow> stream_ok (p_stream x) \<and> isAllocatedStream (p_stream x)"

definition pool_base :: "wStreamPool \<Rightarrow> bool" where
  "pool_base p \<longleftrightarrow> arr_ok (available p) \<and> arr_ok (used p) \<and> distinct (avail p @ in_use p) \<and>
     set (avail p @ in_use p) = Some ` dom (streams p) \<and>
     (\<forall>a x. streams p a = Some x \<longrightarrow> pooled_ok x \<and> a < next_address p)"

definition referenced :: "(nat \<Rightarrow> pooled option) \<Rightarrow> nat pointer \<Rightarrow> bool" where
  "referenced f s \<longleftrightarrow>
     (case s of None \<Rightarrow> False
      | Some a \<Rightarrow> (case f a of None \<Rightarrow> False | Some x \<Rightarrow> p_pool x \<and> 0 < p_count x))"

definition pool_inv :: "wStreamPool \<Rightarrow> bool" where
  "pool_inv p \<longleftrightarrow> pool_base p \<and> list_all (referenced (streams p)) (in_use p)"

lemma pool_baseD:
  assumes "pool_base p"
  shows "arr_ok (available p)" and "arr_ok (used p)" and "distinct (avail p)" and "distinct (in_use p)"
    and "set (avail p) \<inter> set (in_use p) = {}" and "set (avail p) \<union> set (in_use p) = Some ` dom (streams p)"
  using assms by (auto simp: pool_base_def)

lemma pool_inv_base [simp]: "pool_inv p \<Longrightarrow> pool_base p"
  by (simp add: pool_inv_def)

lemmas pool_invD = pool_baseD [OF pool_inv_base]

lemma pool_live:
  assumes "pool_base p" and "s \<in> set (avail p) \<union> set (in_use p)"
  obtains a x where "s = Some a" "streams p a = Some x" "pooled_ok x" "a < next_address p" "deref s p = Done x p"
proof -
  from assms pool_baseD(6) [OF assms(1)] obtain a x where a: "s = Some a" "streams p a = Some x" by blast
  moreover from this assms(1) have "pooled_ok x" "a < next_address p" by (auto simp: pool_base_def)
  ultimately show thesis using that by (simp add: deref_def)
qed

lemma pool_inv_used:
  assumes "pool_inv p" and "s \<in> set (in_use p)"
  obtains a x where "s = Some a" "streams p a = Some x" "pooled_ok x" "p_pool x" "0 < p_count x" "s \<notin> set (avail p)"
proof -
  from pool_live [OF pool_inv_base [OF assms(1)], of s] assms(2) obtain a x where
    a: "s = Some a" "streams p a = Some x" "pooled_ok x" by (metis UnI2)
  moreover from assms have "referenced (streams p) s" by (simp add: pool_inv_def list_all_iff)
  moreover have "s \<notin> set (avail p)" using assms(2) pool_invD(5) [OF assms(1)] by blast
  ultimately show thesis using that by (simp add: referenced_def)
qed

lemma assign_run:
  "streams p a = Some x \<Longrightarrow> assign (Some a) f p = Done () (p\<lparr>streams := (streams p)(a \<mapsto> f x)\<rparr>)"
  by (simp add: assign_def deref_def)

lemma deref_run: "streams p a = Some x \<Longrightarrow> deref (Some a) p = Done x p"
  by (simp add: deref_def)

lemma on_stream_run:
  assumes "streams p a = Some x" and "m (p_stream x) = Done v t"
  shows "on_stream (Some a) m p = Done v (p\<lparr>streams := (streams p)(a \<mapsto> x\<lparr>p_stream := t\<rparr>)\<rparr>)"
  using assms by (simp add: on_stream_def deref_run assign_run)

lemma on_stream_same:
  assumes "streams p a = Some x" and "m (p_stream x) = Done v (p_stream x)"
  shows "on_stream (Some a) m p = Done v p"
proof -
  have "(streams p)(a \<mapsto> x) = streams p" using assms(1) by (simp add: fun_upd_idem)
  then show ?thesis using on_stream_run [where m = m, OF assms] by simp
qed

lemma ignore_Done [simp]: "m s = Done () s' \<Longrightarrow> ignore m s = Done () s'"
  by (simp add: ignore_def or_value_def)

text \<open>The streams behind the pointers change, the arrays do not.\<close>

lemma update_store_simps [simp]:
  "avail (p\<lparr>streams := f\<rparr>) = avail p" "in_use (p\<lparr>streams := f\<rparr>) = in_use p"
  "avail (p\<lparr>next_address := n\<rparr>) = avail p" "in_use (p\<lparr>next_address := n\<rparr>) = in_use p"
  "with_array u a (p\<lparr>streams := f\<rparr>) = (with_array u a p)\<lparr>streams := f\<rparr>"
  "array_of u (p\<lparr>streams := f\<rparr>) = array_of u p" "array_of u (p\<lparr>next_address := n\<rparr>) = array_of u p"
  "pool_ready A (p\<lparr>streams := f\<rparr>) = pool_ready A p"
  by (simp_all add: avail_def in_use_def with_array_def array_of_def pool_ready_def)

lemma with_array_lists [simp]:
  "avail (with_array True a p) = avail p" "avail (with_array False a p) = cells a"
  "in_use (with_array True a p) = cells a" "in_use (with_array False a p) = in_use p"
  by (simp_all add: avail_def in_use_def with_array_def)

lemma add_used_run:
  assumes "arr_ok (used p)" and "arr_ready A (used p)"
  shows "\<exists>a. StreamPool_AddUsed A s p = Done () (with_array True a p) \<and> arr_ok a \<and> cells a = in_use p @ [s] \<and>
    p_capacity a \<le> 2 * p_capacity (used p)"
proof -
  obtain a where a: "StreamPool_EnsureCapacity A 1 True p = Done () (with_array True a p)" "arr_ok a"
      "cells a = in_use p" "p_size a < p_capacity a" "p_capacity a \<le> 2 * p_capacity (used p)"
    using pool_ensure_one [of True p A] assms by (auto simp: in_use_def)
  obtain b where "push_array True s (with_array True a p) = Done () (with_array True b p)" "arr_ok b"
      "cells b = in_use p @ [s]" "p_capacity b = p_capacity a"
    using push_run [of True "with_array True a p" s] a by auto
  with a(1,5) show ?thesis by (auto simp: StreamPool_AddUsed_def)
qed

lemma remove_used_run:
  assumes "arr_ok (used p)" and "distinct (in_use p)" and "s \<in> set (in_use p)"
  shows "\<exists>a. StreamPool_RemoveUsed A s p = Done () (with_array True a p) \<and> arr_ok a \<and>
    cells a = remove1 s (in_use p)"
proof -
  obtain i where i: "List.find (\<lambda>j. in_use p ! j = s) [0..<length (in_use p)] = Some i" "i < length (in_use p)"
      "take i (in_use p) @ drop (i + 1) (in_use p) = remove1 s (in_use p)"
    using find_index_mem [OF assms(3,2)] by metis
  have "scan_array True (\<lambda>x. ret (x = s)) 0 (p_size (used p)) p = Done (Some i) p"
    using scan_run [of True p _ "\<lambda>x. ret (x = s)" "\<lambda>x. x = s" 0] i(1) assms(1) by (simp add: in_use_def)
  moreover obtain a where "shift_array A True i (- 1) p = Done () (with_array True a p)" "arr_ok a"
      "cells a = take i (in_use p) @ drop (i + 1) (in_use p)"
    using pool_shift_run [of True p i A] i(2) assms(1) by (auto simp: in_use_def)
  ultimately show ?thesis
    using i(3) by (auto simp: StreamPool_RemoveUsed_def StreamPool_ShiftUsed_def)
qed

lemma remove_run:
  assumes inv: "pool_base p" and ready: "pool_ready A p" and s: "s \<in> set (in_use p)"
  shows "\<exists>b c. StreamPool_Remove A s p = Done () (with_array True b (with_array False c p)) \<and>
    arr_ok b \<and> arr_ok c \<and> cells b = remove1 s (in_use p) \<and> cells c = avail p @ [s]"
proof -
  note D = pool_baseD [OF inv]
  have "s \<notin> set (avail p)" using s D(5) by blast
  then obtain a x where x: "s = Some a" "streams p a = Some x" "pooled_ok x" "s \<notin> set (avail p)"
    using pool_live [OF inv, of s] s by (metis UnI2)
  obtain c where c: "StreamPool_EnsureCapacity A 1 False p = Done () (with_array False c p)" "arr_ok c"
      "cells c = avail p" "p_size c < p_capacity c"
    using pool_ensure_one [of False p A] D(1) ready by (auto simp: avail_def pool_ready_def)
  let ?p = "with_array False c p"
  have "Stream_EnsureValidity (p_stream x) = Done () (p_stream x)"
    using x(3) by (simp add: Stream_EnsureValidity_def pooled_ok_def stream_ok_def)
  then have valid: "on_stream s Stream_EnsureValidity ?p = Done () ?p"
    using on_stream_same [of ?p a x] x(1,2) by simp
  have "List.find (\<lambda>j. avail p ! j = s) [0..<p_size c] = None"
    using x(4) c(2,3) length_cells [OF c(2)] by (auto simp: find_upt_None in_set_conv_nth)
  then have scan: "scan_array False (\<lambda>cs. ret (cs = s)) 0 (p_size c) ?p = Done None ?p"
    using scan_run [of False ?p _ "\<lambda>x. ret (x = s)" "\<lambda>x. x = s" 0] c by simp
  obtain d where d: "push_array False s ?p = Done () (with_array False d p)" "arr_ok d"
      "cells d = avail p @ [s]"
    using push_run [of False ?p s] c by auto
  obtain b where "StreamPool_RemoveUsed A s (with_array False d p) =
        Done () (with_array True b (with_array False d p))" "arr_ok b" "cells b = remove1 s (in_use p)"
    using remove_used_run [of "with_array False d p" s A] D(2,4) s by auto
  with c(1) valid scan d show ?thesis by (auto simp: StreamPool_Remove_def)
qed

text \<open>A stream as it is handed out: empty position, full length, one reference, large enough.\<close>

definition handed_out :: "nat \<Rightarrow> pooled \<Rightarrow> bool" where
  "handed_out n x \<longleftrightarrow> pooled_ok x \<and> p_pool x \<and> p_count x = 1 \<and> pointer (p_stream x) = 0 \<and>
     s_length (p_stream x) = capacity (p_stream x) \<and> n \<le> capacity (p_stream x)"

definition wanted_size :: "wStreamPool \<Rightarrow> nat \<Rightarrow> nat" where
  "wanted_size p n = (if n = 0 then defaultSize p else n)"

text \<open>The last part of \<open>StreamPool_Take\<close>, for a stream that is in neither array any more.\<close>

lemma hand_out:
  assumes ok: "arr_ok (used p)" and ready: "arr_ready A (used p)" and x: "streams p a = Some x" "pooled_ok x"
    and fields: "pointer (p_stream x) = 0" "s_length (p_stream x) = capacity (p_stream x)" "n \<le> capacity (p_stream x)"
  shows "\<exists>b y. seq (assign (Some a) (\<lambda>x. x\<lparr>p_pool := True, p_count := 1\<rparr>))
      (seq (StreamPool_AddUsed A (Some a)) (ret (Some a))) p =
      Done (Some a) (with_array True b (p\<lparr>streams := (streams p)(a \<mapsto> y)\<rparr>)) \<and>
    arr_ok b \<and> cells b = in_use p @ [Some a] \<and> handed_out n y \<and> p_stream y = p_stream x \<and>
    p_capacity b \<le> 2 * p_capacity (used p)"
proof -
  let ?y = "x\<lparr>p_pool := True, p_count := 1\<rparr>"
  let ?p = "p\<lparr>streams := (streams p)(a \<mapsto> ?y)\<rparr>"
  have "assign (Some a) (\<lambda>x. x\<lparr>p_pool := True, p_count := 1\<rparr>) p = Done () ?p" by (rule assign_run [OF x(1)])
  moreover obtain b where "StreamPool_AddUsed A (Some a) ?p = Done () (with_array True b ?p)" "arr_ok b"
      "cells b = in_use p @ [Some a]" "p_capacity b \<le> 2 * p_capacity (used p)"
    using add_used_run [of ?p A "Some a"] ok ready by auto
  moreover have "handed_out n ?y" using x(2) fields by (simp add: handed_out_def pooled_ok_def)
  ultimately show ?thesis by (intro exI [of _ b] exI [of _ ?y]) simp
qed

lemma scan_available:
  assumes "pool_inv p"
  shows "scan_array False (\<lambda>s. bind (deref s) (\<lambda>x. ret (capacity (p_stream x) \<ge> n))) 0 (p_size (available p)) p =
    Done (List.find (\<lambda>j. n \<le> capacity (p_stream (the (streams p (the (avail p ! j)))))) [0..<length (avail p)]) p"
proof -
  note D = pool_invD [OF assms]
  have "bind (deref s) (\<lambda>x. ret (capacity (p_stream x) \<ge> n)) p =
      Done (n \<le> capacity (p_stream (the (streams p (the s))))) p" if s: "s \<in> set (avail p)" for s
  proof -
    obtain a x where "s = Some a" "streams p a = Some x" "deref s p = Done x p"
      using pool_live [OF pool_inv_base [OF assms], of s] s by blast
    then show ?thesis by simp
  qed
  then show ?thesis
    using scan_run [of False p _ _ "\<lambda>s. n \<le> capacity (p_stream (the (streams p (the s))))" 0] D(1)
    by (simp add: avail_def)
qed

lemma take_available:
  assumes inv: "pool_inv p" and i: "i < length (avail p)" "avail p ! i = Some a" and x: "streams p a = Some x"
  shows "\<exists>c y. bind (gets (\<lambda>p. p_array (available p))) (\<lambda>arr.
       bind (cell_get arr i) (\<lambda>s.
       seq (ignore (on_stream s (Stream_SetPosition 0)))
      (bind (deref s) (\<lambda>x.
       seq (ignore (on_stream s (Stream_SetLength (capacity (p_stream x)))))
      (seq (StreamPool_ShiftAvailable A i (- 1)) (ret s)))))) p =
     Done (Some a) (with_array False c (p\<lparr>streams := (streams p)(a \<mapsto> y)\<rparr>)) \<and>
     arr_ok c \<and> cells c = take i (avail p) @ drop (i + 1) (avail p) \<and>
     pooled_ok y \<and> pointer (p_stream y) = 0 \<and> s_length (p_stream y) = capacity (p_stream y) \<and>
     capacity (p_stream y) = capacity (p_stream x) \<and> isOwner (p_stream y) = isOwner (p_stream x) \<and>
     p_capacity c = p_capacity (available p)"
proof -
  note D = pool_invD [OF inv]
  from D(1) obtain cs where cs: "p_array (available p) = Some cs" "length cs = p_capacity (available p)"
      "p_size (available p) \<le> p_capacity (available p)" "avail p = take (p_size (available p)) cs"
    unfolding avail_def by (rule arr_okE)
  have cell: "cell_get (Some cs) i p = Done (Some a) p" using i cs by simp
  have okx: "pooled_ok x" using pool_inv_base [OF inv] x by (auto simp: pool_base_def)
  let ?x1 = "x\<lparr>p_stream := (p_stream x)\<lparr>pointer := 0\<rparr>\<rparr>"
  let ?x2 = "x\<lparr>p_stream := (p_stream x)\<lparr>pointer := 0, s_length := capacity (p_stream x)\<rparr>\<rparr>"
  let ?p1 = "p\<lparr>streams := (streams p)(a \<mapsto> ?x1)\<rparr>"
  let ?p2 = "p\<lparr>streams := (streams p)(a \<mapsto> ?x2)\<rparr>"
  have 1: "on_stream (Some a) (Stream_SetPosition 0) p = Done () ?p1"
    using x by (intro on_stream_run) (simp_all add: Stream_SetPosition_def)
  have 2: "on_stream (Some a) (Stream_SetLength (capacity (p_stream x))) ?p1 = Done () ?p2"
    using on_stream_run [of ?p1 a ?x1 "Stream_SetLength (capacity (p_stream x))" "()" "p_stream ?x2"]
    by (simp add: Stream_SetLength_def)
  obtain c where c: "shift_array A False i (- 1) ?p2 = Done () (with_array False c ?p2)" "arr_ok c"
      "cells c = take i (avail p) @ drop (i + 1) (avail p)" "p_capacity c = p_capacity (available p)"
    using pool_shift_run [of False ?p2 i A] i(1) D(1) by (auto simp: avail_def)
  have "pooled_ok ?x2" using okx by (simp add: pooled_ok_def stream_ok_def)
  then show ?thesis
    using cs(1) cell 1 2 c deref_run [of ?p1 a ?x1]
    by (intro exI [of _ c] exI [of _ ?x2]) (simp add: StreamPool_ShiftAvailable_def)
qed

lemma pool_inv_update:
  assumes inv: "pool_base p" and ok: "arr_ok b" "arr_ok c" and dist: "distinct (cells c @ cells b)"
    and sets: "set (cells c @ cells b) = set (avail p @ in_use p)"
    and x: "streams p a = Some x" and y: "pooled_ok y" "Some a \<in> set (cells b) \<Longrightarrow> p_pool y \<and> 0 < p_count y"
    and others: "\<And>s. s \<in> set (cells b) \<Longrightarrow> s \<noteq> Some a \<Longrightarrow> referenced (streams p) s"
  shows "pool_inv (with_array True b (with_array False c (p\<lparr>streams := (streams p)(a \<mapsto> y)\<rparr>)))"
proof -
  let ?f = "(streams p)(a \<mapsto> y)"
  have below: "\<And>a x. streams p a = Some x \<Longrightarrow> pooled_ok x \<and> a < next_address p"
    using inv by (simp add: pool_base_def)
  have "dom ?f = dom (streams p)" using x by auto
  then have "set (cells c @ cells b) = Some ` dom ?f"
    using sets pool_baseD(6) [OF inv] by simp
  moreover have "pooled_ok z \<and> e < next_address p" if "?f e = Some z" for e z
    using that below [of e z] below [OF x] y(1) by (auto split: if_splits)
  moreover have "referenced ?f s" if "s \<in> set (cells b)" for s
    using that y(2) others [of s] by (cases "s = Some a") (auto simp: referenced_def split: option.splits)
  ultimately show ?thesis
    using ok dist
    by (simp add: pool_inv_def pool_base_def list_all_iff)
qed

lemma pool_inv_new:
  assumes inv: "pool_inv p" and ok: "arr_ok b" and cells: "cells b = in_use p @ [Some (next_address p)]"
    and y: "pooled_ok y" "p_pool y" "0 < p_count y"
  shows "pool_inv (with_array True b (p\<lparr>streams := (streams p)(next_address p \<mapsto> y),
    next_address := next_address p + 1\<rparr>))"
proof -
  let ?n = "next_address p"
  let ?f = "(streams p)(?n \<mapsto> y)"
  note D = pool_invD [OF inv]
  have below: "\<And>a x. streams p a = Some x \<Longrightarrow> pooled_ok x \<and> a < ?n"
    using pool_inv_base [OF inv] by (simp add: pool_base_def)
  then have "streams p ?n = None" by (metis less_irrefl not_Some_eq)
  then have new: "Some ?n \<notin> set (avail p) \<union> set (in_use p)" using D(6) by auto
  have "set (avail p @ cells b) = Some ` dom ?f" using cells D(6) by auto
  moreover have "distinct (avail p @ cells b)" using cells new D(3-5) by auto
  moreover have "pooled_ok z \<and> e < ?n + 1" if "?f e = Some z" for e z
    using that below [of e z] y(1) by (auto split: if_splits)
  moreover have "referenced ?f s" if "s \<in> set (cells b)" for s
  proof (cases "s = Some ?n")
    case True
    with y show ?thesis by (simp add: referenced_def)
  next
    case False
    with that cells have "s \<in> set (in_use p)" by simp
    then have "referenced (streams p) s" using inv by (simp add: pool_inv_def list_all_iff)
    with False show ?thesis by (auto simp: referenced_def split: option.splits)
  qed
  ultimately show ?thesis
    using ok D(1)
    by (simp add: pool_inv_def pool_base_def list_all_iff)
qed

text \<open>
  What \<open>StreamPool_Take\<close> does when it hands out the stream at \<open>a\<close>: nobody held it, it is the newest one
  in use, an available one keeps its memory and a new one has the size asked for, and no other
  stream changes.
\<close>

definition same_memory :: "pooled option \<Rightarrow> nat \<Rightarrow> wStream \<Rightarrow> bool" where
  "same_memory old n t \<longleftrightarrow>
     (case old of
        None \<Rightarrow> capacity t = n \<and> isOwner t
      | Some x \<Rightarrow> capacity t = capacity (p_stream x) \<and> isOwner t = isOwner (p_stream x))"

definition taken :: "wStreamPool \<Rightarrow> nat \<Rightarrow> nat \<Rightarrow> wStreamPool \<Rightarrow> bool" where
  "taken p n a p' \<longleftrightarrow> Some a \<notin> set (in_use p) \<and> in_use p' = in_use p @ [Some a] \<and>
     avail p' = remove1 (Some a) (avail p) \<and>
     (\<exists>x. streams p' a = Some x \<and> handed_out n x \<and> same_memory (streams p a) n (p_stream x)) \<and>
     (\<forall>b. b \<noteq> a \<longrightarrow> streams p' b = streams p b) \<and> defaultSize p' = defaultSize p \<and>
     p_capacity (used p') \<le> 2 * p_capacity (used p) \<and> p_capacity (available p') \<le> p_capacity (available p)"

lemma take_old_run:
  assumes inv: "pool_inv p" and ready: "pool_ready A p"
    and found: "List.find (\<lambda>j. wanted_size p n \<le> capacity (p_stream (the (streams p (the (avail p ! j))))))
      [0..<length (avail p)] = Some i"
  shows "\<exists>a p'. StreamPool_Take A M n p = Done (Some a) p' \<and> pool_inv p' \<and> taken p (wanted_size p n) a p'"
proof -
  note f = find_upt_Some [OF found]
  note D = pool_invD [OF inv]
  have ini: "avail p ! i \<in> set (avail p)" using f(2) by (intro nth_mem)
  then obtain a x where a: "avail p ! i = Some a" "streams p a = Some x"
    using pool_live [OF pool_inv_base [OF inv], of "avail p ! i"] by blast
  have n: "wanted_size p n \<le> capacity (p_stream x)" using f(3) a by simp
  from take_available [OF inv f(2) a, of A] obtain c y where
    t: "bind (gets (\<lambda>p. p_array (available p))) (\<lambda>arr.
       bind (cell_get arr i) (\<lambda>s.
       seq (ignore (on_stream s (Stream_SetPosition 0)))
      (bind (deref s) (\<lambda>x.
       seq (ignore (on_stream s (Stream_SetLength (capacity (p_stream x)))))
      (seq (StreamPool_ShiftAvailable A i (- 1)) (ret s)))))) p =
     Done (Some a) (with_array False c (p\<lparr>streams := (streams p)(a \<mapsto> y)\<rparr>))"
    and c: "arr_ok c" "cells c = take i (avail p) @ drop (i + 1) (avail p)"
    and y: "pooled_ok y" "pointer (p_stream y) = 0" "s_length (p_stream y) = capacity (p_stream y)"
      "capacity (p_stream y) = capacity (p_stream x)" "isOwner (p_stream y) = isOwner (p_stream x)"
    and capc: "p_capacity c = p_capacity (available p)" by blast
  let ?p = "with_array False c (p\<lparr>streams := (streams p)(a \<mapsto> y)\<rparr>)"
  have "wanted_size p n \<le> capacity (p_stream y)" using n y(4) by simp
  from hand_out [of ?p A a y, OF _ _ _ y(1-3) this] D(2) ready obtain b z where
    h: "seq (assign (Some a) (\<lambda>x. x\<lparr>p_pool := True, p_count := 1\<rparr>))
      (seq (StreamPool_AddUsed A (Some a)) (ret (Some a))) ?p =
      Done (Some a) (with_array True b (?p\<lparr>streams := (streams p)(a \<mapsto> y, a \<mapsto> z)\<rparr>))"
    and b: "arr_ok b" "cells b = in_use p @ [Some a]" and z: "handed_out (wanted_size p n) z"
    and mem: "p_stream z = p_stream y" and capb: "p_capacity b \<le> 2 * p_capacity (used p)"
    by (auto simp: pool_ready_def)
  let ?q = "with_array True b (with_array False c (p\<lparr>streams := (streams p)(a \<mapsto> z)\<rparr>))"
  have run: "StreamPool_Take A M n p = Done (Some a) ?q"
    using scan_available [OF inv, of "wanted_size p n"] found t h
    by (simp add: StreamPool_Take_def wanted_size_def Let_def)
  have rem: "cells c = remove1 (Some a) (avail p)"
    using c(2) a(1) f(2) D(3) remove1_nth [OF f(2) D(3)] by simp
  have mem': "Some a \<in> set (avail p)" using ini a(1) by simp
  have "Some a \<notin> set (in_use p)" using mem' D(5) by blast
  moreover have "pool_inv ?q"
    using inv b c(1) rem z mem' D(3,4,5) by (intro pool_inv_update [OF pool_inv_base [OF inv] b(1) c(1) _ _ a(2)])
      (auto simp: handed_out_def pool_inv_def list_all_iff)
  ultimately show ?thesis
    using run b rem z mem y a(2) capb capc by (intro exI [of _ a] exI [of _ ?q]) (simp add: taken_def same_memory_def)
qed

lemma take_new_run:
  assumes inv: "pool_inv p" and ready: "pool_ready A p" and size: "wanted_size p n < 2 ^ 64"
    and found: "List.find (\<lambda>j. wanted_size p n \<le> capacity (p_stream (the (streams p (the (avail p ! j))))))
      [0..<length (avail p)] = None"
  shows "if wanted_size p n = 0 \<or> \<not> grants M 56 \<or> \<not> grants M (wanted_size p n)
    then StreamPool_Take A M n p = Done None p
    else \<exists>a p'. StreamPool_Take A M n p = Done (Some a) p' \<and> pool_inv p' \<and> taken p (wanted_size p n) a p'"
proof -
  let ?n = "wanted_size p n"
  let ?junk = "map (garbage M) [0..<?n]"
  note D = pool_invD [OF inv]
  have run: "StreamPool_Take A M n p = bind (pool_new_stream M ?n) (\<lambda>s. case s of
      None \<Rightarrow> ret None
    | Some _ \<Rightarrow> seq (assign s (\<lambda>x. x\<lparr>p_pool := True, p_count := 1\<rparr>))
        (seq (StreamPool_AddUsed A s) (ret s))) p"
    using scan_available [OF inv, of ?n] found by (simp add: StreamPool_Take_def wanted_size_def Let_def)
  show ?thesis
  proof (cases "?n = 0 \<or> \<not> grants M 56 \<or> \<not> grants M ?n")
    case True
    then have "Stream_New (grants M) None ?n ?junk = None" by (auto simp: Stream_New_def)
    then have "pool_new_stream M ?n p = Done None p" by (simp add: pool_new_stream_def)
    with True run show ?thesis by simp
  next
    case False
    then obtain t where t: "Stream_New (grants M) None ?n ?junk = Some t" "stream_ok t" "pointer t = 0"
        "s_length t = ?n" "capacity t = ?n" "isAllocatedStream t" "isOwner t"
      using size by (auto simp: Stream_New_def stream_ok_def)
    let ?a = "next_address p"
    let ?x = "\<lparr>p_stream = t, p_count = 0, p_pool = False\<rparr>"
    let ?p = "p\<lparr>streams := (streams p)(?a \<mapsto> ?x), next_address := ?a + 1\<rparr>"
    have new: "pool_new_stream M ?n p = Done (Some ?a) ?p" using t(1) by (simp add: pool_new_stream_def)
    have "pooled_ok ?x" using t by (simp add: pooled_ok_def)
    from hand_out [of ?p A ?a ?x ?n, OF _ _ _ this] D(2) ready t obtain b z where
      h: "seq (assign (Some ?a) (\<lambda>x. x\<lparr>p_pool := True, p_count := 1\<rparr>))
        (seq (StreamPool_AddUsed A (Some ?a)) (ret (Some ?a))) ?p =
        Done (Some ?a) (with_array True b (?p\<lparr>streams := (streams p)(?a \<mapsto> z)\<rparr>))"
      and b: "arr_ok b" "cells b = in_use p @ [Some ?a]" and z: "handed_out ?n z" and mem: "p_stream z = t"
      and capb: "p_capacity b \<le> 2 * p_capacity (used p)"
      by (auto simp: pool_ready_def)
    let ?q = "with_array True b (p\<lparr>streams := (streams p)(?a \<mapsto> z), next_address := ?a + 1\<rparr>)"
    have "StreamPool_Take A M n p = Done (Some ?a) ?q"
      unfolding run bind_Done [where m = "pool_new_stream M ?n", OF new] option.case h
      by (simp add: with_array_def)
    moreover have "pool_inv ?q"
      using z by (intro pool_inv_new [OF inv b]) (auto simp: handed_out_def)
    moreover have new': "Some ?a \<notin> set (avail p) \<union> set (in_use p)"
      using pool_live [OF pool_inv_base [OF inv], of "Some ?a"] by blast
    moreover have "streams p ?a = None" using new' D(6) by auto
    then have "taken p ?n ?a ?q"
      using b z mem t new' capb by (simp add: taken_def same_memory_def remove1_idem)
    ultimately show ?thesis using False by auto
  qed
qed

lemma take_run:
  assumes "pool_inv p" and "pool_ready A p" and "wanted_size p n < 2 ^ 64"
  shows "StreamPool_Take A M n p = Done None p \<or>
    (\<exists>a p'. StreamPool_Take A M n p = Done (Some a) p' \<and> pool_inv p' \<and> taken p (wanted_size p n) a p')"
  using take_old_run [OF assms(1,2), of n _ M] take_new_run [OF assms, of M]
  by (metis not_Some_eq)

text \<open>Nothing is handed out only when a new stream is needed and its memory is refused.\<close>

lemma take_refused:
  assumes "pool_inv p" and "pool_ready A p" and "wanted_size p n < 2 ^ 64" and "StreamPool_Take A M n p = Done None p"
  shows "wanted_size p n = 0 \<or> \<not> grants M 56 \<or> \<not> grants M (wanted_size p n)"
proof (cases "List.find (\<lambda>j. wanted_size p n \<le> capacity (p_stream (the (streams p (the (avail p ! j))))))
    [0..<length (avail p)]")
  case None
  then show ?thesis using take_new_run [OF assms(1-3) None, of M] assms(4) by (auto split: if_splits)
next
  case (Some i)
  then show ?thesis using take_old_run [OF assms(1,2) Some, of M] assms(4) by simp
qed

section \<open>Giving streams back\<close>

lemma remove_inv:
  assumes inv: "pool_base p" and ready: "pool_ready A p" and s: "s \<in> set (in_use p)"
    and others: "\<And>r. r \<in> set (in_use p) \<Longrightarrow> r \<noteq> s \<Longrightarrow> referenced (streams p) r"
  shows "\<exists>p'. StreamPool_Remove A s p = Done () p' \<and> pool_inv p' \<and> in_use p' = remove1 s (in_use p) \<and>
    avail p' = avail p @ [s] \<and> streams p' = streams p \<and> defaultSize p' = defaultSize p"
proof -
  obtain b c where bc: "StreamPool_Remove A s p = Done () (with_array True b (with_array False c p))"
    "arr_ok b" "arr_ok c" "cells b = remove1 s (in_use p)" "cells c = avail p @ [s]"
    using remove_run [OF inv ready s] by blast
  note D = pool_baseD [OF inv]
  have "s \<notin> set (avail p)" using s D(5) by blast
  then obtain a x where x: "s = Some a" "streams p a = Some x" "pooled_ok x" "s \<notin> set (avail p)"
    using pool_live [OF inv, of s] s by (metis UnI2)
  let ?q = "with_array True b (with_array False c p)"
  have upd: "with_array True b (with_array False c (p\<lparr>streams := (streams p)(a \<mapsto> x)\<rparr>)) = ?q"
    using x(2) by (simp add: with_array_def fun_upd_idem)
  have "pool_inv (with_array True b (with_array False c (p\<lparr>streams := (streams p)(a \<mapsto> x)\<rparr>)))"
    using bc D(3,4,5) s x others by (intro pool_inv_update [OF inv bc(2,3) _ _ x(2,3)]) auto
  then show ?thesis using bc upd by auto
qed

text \<open>Dropping a reference: the last one gives the stream back, any other only counts down.\<close>

lemma release_run:
  assumes inv: "pool_inv p" and ready: "pool_ready A p" and s: "Some a \<in> set (in_use p)"
    and x: "streams p a = Some x"
  shows "\<exists>p'. Stream_Release A (Some a) p = Done () p' \<and> pool_inv p' \<and>
    streams p' = (streams p)(a \<mapsto> x\<lparr>p_count := p_count x - 1\<rparr>) \<and> defaultSize p' = defaultSize p \<and>
    (if p_count x = 1 then in_use p' = remove1 (Some a) (in_use p) \<and> avail p' = avail p @ [Some a]
     else in_use p' = in_use p \<and> avail p' = avail p)"
proof -
  obtain b z where "Some a = Some b" "streams p b = Some z" "pooled_ok z" "p_pool z" "0 < p_count z"
    by (rule pool_inv_used [OF inv s])
  with x have u: "p_pool x" "0 < p_count x" "pooled_ok x" by simp_all
  let ?y = "x\<lparr>p_count := p_count x - 1\<rparr>"
  let ?p = "p\<lparr>streams := (streams p)(a \<mapsto> ?y)\<rparr>"
  have y: "pooled_ok ?y" using u(3) by (simp add: pooled_ok_def)
  have run: "Stream_Release A (Some a) p = (if p_count x = 1 then StreamPool_Remove A (Some a) ?p else Done () ?p)"
    using u x assign_run [OF x, of "\<lambda>x. if 0 < p_count x then x\<lparr>p_count := p_count x - 1\<rparr> else x"]
    by (simp add: Stream_Release_def StreamPool_ReleaseOrReturn_def deref_run)
  have others: "referenced (streams p) r" if "r \<in> set (in_use p)" for r using that inv by (simp add: pool_inv_def list_all_iff)
  have same: "with_array True (used p) (with_array False (available p) ?p) = ?p" by (simp add: with_array_def)
  note D = pool_invD [OF inv]
  show ?thesis
  proof (cases "p_count x = 1")
    case False
    then have "0 < p_count ?y" using u(2) by (simp add: word_neq_0_conv [symmetric])
    then have "pool_inv (with_array True (used p) (with_array False (available p) ?p))"
      using D(3-5) u(1) others
      by (intro pool_inv_update [OF pool_inv_base [OF inv] D(2,1) _ _ x y]) (simp_all add: avail_def in_use_def)
    then have "pool_inv ?p" unfolding same .
    then show ?thesis using False run by simp
  next
    case True
    have "dom ((streams p)(a \<mapsto> ?y)) = dom (streams p)" using x by auto
    moreover have "pooled_ok z \<and> e < next_address p" if "((streams p)(a \<mapsto> ?y)) e = Some z" for e z
      using that y x pool_inv_base [OF inv] by (cases "e = a") (auto simp: pool_base_def)
    ultimately have base: "pool_base ?p"
      using pool_inv_base [OF inv] unfolding pool_base_def by simp
    have "referenced (streams ?p) r" if "r \<in> set (in_use p)" "r \<noteq> Some a" for r
      using others [OF that(1)] that(2) by (auto simp: referenced_def split: option.splits)
    then obtain p' where "StreamPool_Remove A (Some a) ?p = Done () p'" "pool_inv p'"
        "in_use p' = remove1 (Some a) (in_use p)" "avail p' = avail p @ [Some a]" "streams p' = streams ?p"
        "defaultSize p' = defaultSize p"
      using remove_inv [OF base, of A "Some a"] ready s by auto
    with True run show ?thesis by simp
  qed
qed

text \<open>The streams behind the pointers in use may be written to, and get more references.\<close>

lemma store_inv:
  assumes inv: "pool_inv p" and s: "Some a \<in> set (in_use p)" and y: "pooled_ok y" "p_pool y" "0 < p_count y"
  shows "pool_inv (p\<lparr>streams := (streams p)(a \<mapsto> y)\<rparr>)"
proof -
  note D = pool_invD [OF inv]
  obtain b x where "Some a = Some b" "streams p b = Some x" by (rule pool_inv_used [OF inv s])
  then have x: "streams p a = Some x" by simp
  have "referenced (streams p) r" if "r \<in> set (in_use p)" for r using that inv by (simp add: pool_inv_def list_all_iff)
  then have "pool_inv (with_array True (used p) (with_array False (available p) (p\<lparr>streams := (streams p)(a \<mapsto> y)\<rparr>)))"
    using D(3-5) y(2,3)
    by (intro pool_inv_update [OF pool_inv_base [OF inv] D(2,1) _ _ x y(1)]) (simp_all add: avail_def in_use_def)
  moreover have "with_array True (used p) (with_array False (available p) (p\<lparr>streams := (streams p)(a \<mapsto> y)\<rparr>)) =
      p\<lparr>streams := (streams p)(a \<mapsto> y)\<rparr>"
    by (simp add: with_array_def)
  ultimately show ?thesis by metis
qed

lemma add_ref_run:
  assumes "pool_inv p" and "Some a \<in> set (in_use p)" and "streams p a = Some x"
  shows "Stream_AddRef (Some a) p = Done () (p\<lparr>streams := (streams p)(a \<mapsto> x\<lparr>p_count := p_count x + 1\<rparr>)\<rparr>)"
proof -
  obtain b z where "Some a = Some b" "streams p b = Some z" "p_pool z" by (rule pool_inv_used [OF assms(1,2)])
  then have "p_pool x" using assms(3) by simp
  then show ?thesis using assms(3) by (simp add: Stream_AddRef_def deref_run assign_run)
qed

section \<open>Clearing and creating a pool\<close>

definition forget :: "nat pointer list \<Rightarrow> (nat \<Rightarrow> pooled option) \<Rightarrow> nat \<Rightarrow> pooled option" where
  "forget ss f = (\<lambda>a. if Some a \<in> set ss then None else f a)"

lemma clear_array_run:
  assumes "arr_ok (array_of u p)" and "n = p_size (array_of u p)" and "distinct (cells (array_of u p))"
    and "\<And>s. s \<in> set (cells (array_of u p)) \<Longrightarrow> \<exists>a x. s = Some a \<and> streams p a = Some x \<and> pooled_ok x"
  shows "clear_array u n p = Done () (with_array u ((array_of u p)\<lparr>p_size := 0\<rparr>)
    (p\<lparr>streams := forget (cells (array_of u p)) (streams p)\<rparr>))"
  using assms
proof (induction n arbitrary: p)
  case 0
  then have "cells (array_of u p) = []" by (simp add: cells_def)
  moreover have "(array_of u p)\<lparr>p_size := 0\<rparr> = array_of u p" using 0(2) by (cases "array_of u p") simp
  ultimately show ?case by (simp add: forget_def with_array_def array_of_def)
next
  case (Suc n)
  let ?a = "array_of u p"
  let ?b = "?a\<lparr>p_size := n\<rparr>"
  from Suc.prems(1) obtain c where c: "p_array ?a = Some c" "length c = p_capacity ?a" "p_size ?a \<le> p_capacity ?a"
      "0 < p_capacity ?a" "p_capacity ?a < 2 ^ 59" "cells ?a = take (p_size ?a) c"
    by (rule arr_okE)
  have n: "n < length c" using c(2,3) Suc.prems(2) by simp
  have split: "cells ?a = cells ?b @ [c ! n]"
    using c(1,6) n Suc.prems(2) [symmetric] by (simp add: cells_def take_Suc_conv_app_nth)
  then obtain a x where x: "c ! n = Some a" "streams p a = Some x" "pooled_ok x"
    using Suc.prems(4) [of "c ! n"] by auto
  let ?p1 = "with_array u ?b p"
  let ?p2 = "with_array u ?b (p\<lparr>streams := (streams p)(a := None)\<rparr>)"
  have "Stream_EnsureValidity (p_stream x) = Done () (p_stream x)"
    using x(3) by (simp add: Stream_EnsureValidity_def pooled_ok_def stream_ok_def)
  then have "on_stream (Some a) Stream_EnsureValidity ?p1 = Done () ?p1"
    using on_stream_same [of ?p1 a x] x(2) by simp
  then have free: "pool_free_stream (Some a) ?p1 = Done () ?p2"
    using x(2,3) by (simp add: pool_free_stream_def deref_run pooled_ok_def)
  have fresh: "c ! n \<notin> set (cells ?b)" using split Suc.prems(3) by simp
  have ar: "array_of u ?p2 = ?b" and st: "streams ?p2 = (streams p)(a := None)" by simp_all
  have IH: "clear_array u n ?p2 = Done () (with_array u ((array_of u ?p2)\<lparr>p_size := 0\<rparr>)
      (?p2\<lparr>streams := forget (cells (array_of u ?p2)) (streams ?p2)\<rparr>))"
  proof (rule Suc.IH)
    show "arr_ok (array_of u ?p2)" unfolding ar using c Suc.prems(2) by (simp add: arr_ok_def)
    show "n = p_size (array_of u ?p2)" unfolding ar by simp
    show "distinct (cells (array_of u ?p2))" unfolding ar using split Suc.prems(3) by simp
    show "\<exists>e z. s = Some e \<and> streams ?p2 e = Some z \<and> pooled_ok z" if s: "s \<in> set (cells (array_of u ?p2))" for s
    proof -
      from s have mem: "s \<in> set (cells ?b)" unfolding ar .
      then obtain e z where e: "s = Some e" "streams p e = Some z" "pooled_ok z"
        using Suc.prems(4) [of s] split by auto
      moreover have "e \<noteq> a" using mem fresh x(1) e(1) by metis
      ultimately show ?thesis unfolding st by simp
    qed
  qed
  have F: "forget (cells ?b) ((streams p)(a := None)) = forget (cells ?a) (streams p)"
    unfolding split using x(1) by (auto simp: forget_def fun_eq_iff)
  have eq: "with_array u (?b\<lparr>p_size := 0\<rparr>) (?p2\<lparr>streams := F\<rparr>) = with_array u (?a\<lparr>p_size := 0\<rparr>) (p\<lparr>streams := F\<rparr>)" for F
    by (simp add: with_array_def)
  have cell: "cell_get (p_array (array_of u ?p1)) n ?p1 = Done (Some a) ?p1" using c(1) n x(1) by simp
  have "clear_array u (Suc n) p = clear_array u n ?p2"
    using cell free by simp
  then show ?case unfolding IH [unfolded ar st F eq] by simp
qed

lemma clear_run:
  assumes inv: "pool_inv p"
  shows "\<exists>p'. StreamPool_Clear p = Done () p' \<and> pool_inv p' \<and> avail p' = [] \<and> in_use p' = [] \<and> streams p' = (\<lambda>_. None)"
proof -
  note D = pool_invD [OF inv]
  have live: "\<exists>a x. s = Some a \<and> streams p a = Some x \<and> pooled_ok x" if "s \<in> set (avail p) \<union> set (in_use p)" for s
    using pool_live [OF pool_inv_base [OF inv] that] by metis
  let ?e = "\<lambda>a. a\<lparr>p_size := 0\<rparr>"
  let ?p1 = "with_array False (?e (available p)) (p\<lparr>streams := forget (avail p) (streams p)\<rparr>)"
  let ?p2 = "with_array True (?e (used p)) (?p1\<lparr>streams := forget (in_use p) (forget (avail p) (streams p))\<rparr>)"
  have 1: "clear_array False (p_size (available p)) p = Done () ?p1"
    using clear_array_run [of False p] D(1,3) live by (simp add: avail_def)
  have used1: "used ?p1 = used p" by (simp add: with_array_def)
  have 2: "clear_array True (p_size (used p)) ?p1 = Done () ?p2"
  proof -
    have "\<exists>a x. s = Some a \<and> streams ?p1 a = Some x \<and> pooled_ok x" if "s \<in> set (in_use p)" for s
    proof -
      have "s \<notin> set (avail p)" using that D(5) by blast
      with live [of s] that show ?thesis by (auto simp: forget_def)
    qed
    then show ?thesis
      using clear_array_run [of True ?p1 "p_size (used p)"] D(2,4) used1 by (simp add: in_use_def)
  qed
  have "forget (in_use p) (forget (avail p) (streams p)) a = None" for a
    using D(6) by (cases "streams p a") (auto simp: forget_def)
  then have none: "streams ?p2 = (\<lambda>_. None)" by (simp add: with_array_def fun_eq_iff)
  have ok: "arr_ok (?e a)" if "arr_ok a" for a
    using that by (auto simp: arr_ok_def split: option.splits)
  have empty: "avail ?p2 = []" "in_use ?p2 = []" by (simp_all add: cells_def)
  have "pool_inv ?p2"
    using ok D(1,2) none empty unfolding pool_inv_def pool_base_def by (simp add: with_array_def)
  with 1 2 none empty used1 show ?thesis by (auto simp: StreamPool_Clear_def)
qed

definition fresh_array :: "nat pointer allocator \<Rightarrow> stream_array" where
  "fresh_array A = \<lparr>p_size = 0, p_capacity = 32, p_array = Some (map (garbage A) [0..<32])\<rparr>"

definition fresh_pool :: "nat pointer allocator \<Rightarrow> nat \<Rightarrow> wStreamPool" where
  "fresh_pool A n = \<lparr>available = fresh_array A, used = fresh_array A, defaultSize = n, streams = (\<lambda>_. None),
     next_address = 0\<rparr>"

lemma new_run:
  assumes "grants A 32"
  shows "StreamPool_New A True n = Done (Some (fresh_pool A n)) ()" and "pool_inv (fresh_pool A n)"
proof -
  let ?z = "\<lparr>p_size = 0, p_capacity = 0, p_array = None\<rparr>"
  have re: "realloc_cells A None 32 = Some (map (garbage A) [0..<32])"
    using assms by (subst realloc_cells_id) (simp_all add: realloc_def)
  let ?p = "\<lambda>a u. \<lparr>available = a, used = u, defaultSize = n, streams = (\<lambda>_. None), next_address = 0\<rparr>"
  have 1: "StreamPool_EnsureCapacity A 32 False (?p ?z ?z) = Done () (?p (fresh_array A) ?z)"
    using re by (simp add: StreamPool_EnsureCapacity_def Let_def with_array_def fresh_array_def del: upt_rec_numeral)
  have 2: "StreamPool_EnsureCapacity A 32 True (?p (fresh_array A) ?z) = Done () (?p (fresh_array A) (fresh_array A))"
    using re by (simp add: StreamPool_EnsureCapacity_def Let_def with_array_def fresh_array_def del: upt_rec_numeral)
  show "StreamPool_New A True n = Done (Some (fresh_pool A n)) ()"
    using 1 2 by (simp add: StreamPool_New_def Let_def fresh_pool_def)
  show "pool_inv (fresh_pool A n)"
    by (simp add: pool_inv_def pool_base_def arr_ok_def avail_def in_use_def cells_def fresh_pool_def fresh_array_def
        del: upt_rec_numeral)
qed

section \<open>Histories of a pool\<close>

text \<open>
  What callers may do to a pool, one rule per call: take a stream, add or drop a reference of a
  stream in use, hand one back, write to one, clear the pool. The pool has the memory to resize its
  arrays of pointers (\<open>pool_ready\<close>); requested sizes are \<^verbatim>\<open>size_t\<close> values and a reference count does
  not pass 32 bits.
\<close>

inductive pool_step :: "nat pointer allocator \<Rightarrow> byte allocator \<Rightarrow> wStreamPool \<Rightarrow> wStreamPool \<Rightarrow> bool"
  for A M where
  take: "pool_ready A p \<Longrightarrow> wanted_size p n < 2 ^ 64 \<Longrightarrow> StreamPool_Take A M n p = Done s p' \<Longrightarrow> pool_step A M p p'"
| add_ref: "Some a \<in> set (in_use p) \<Longrightarrow> streams p a = Some x \<Longrightarrow> p_count x + 1 \<noteq> 0 \<Longrightarrow>
    Stream_AddRef (Some a) p = Done () p' \<Longrightarrow> pool_step A M p p'"
| release: "pool_ready A p \<Longrightarrow> Some a \<in> set (in_use p) \<Longrightarrow> Stream_Release A (Some a) p = Done () p' \<Longrightarrow> pool_step A M p p'"
| give_back: "pool_ready A p \<Longrightarrow> Some a \<in> set (in_use p) \<Longrightarrow> StreamPool_Return A (Some a) p = Done () p' \<Longrightarrow>
    pool_step A M p p'"
| client_write: "Some a \<in> set (in_use p) \<Longrightarrow> streams p a = Some x \<Longrightarrow> stream_ok t \<Longrightarrow> isAllocatedStream t \<Longrightarrow>
    pool_step A M p (p\<lparr>streams := (streams p)(a \<mapsto> x\<lparr>p_stream := t\<rparr>)\<rparr>)"
| clear: "StreamPool_Clear p = Done () p' \<Longrightarrow> pool_step A M p p'"

inductive pool_reachable :: "nat pointer allocator \<Rightarrow> byte allocator \<Rightarrow> wStreamPool \<Rightarrow> bool" for A M where
  created: "grants A 32 \<Longrightarrow> StreamPool_New A True n = Done (Some p) () \<Longrightarrow> pool_reachable A M p"
| step: "pool_reachable A M p \<Longrightarrow> pool_step A M p p' \<Longrightarrow> pool_reachable A M p'"

lemma remove_inv_used:
  assumes "pool_inv p" and "pool_ready A p" and "s \<in> set (in_use p)"
  shows "\<exists>p'. StreamPool_Remove A s p = Done () p' \<and> pool_inv p'"
  using remove_inv [OF pool_inv_base [OF assms(1)] assms(2,3)] assms(1)
  by (auto simp: pool_inv_def list_all_iff)

lemma pool_step_inv:
  assumes "pool_step A M p p'" and "pool_inv p"
  shows "pool_inv p'"
  using assms
proof cases
  case (take n s)
  then show ?thesis using take_run [OF assms(2) take(1,2), of M] assms(2) by auto
next
  case (add_ref a x)
  obtain b z where "Some a = Some b" "streams p b = Some z" "pooled_ok z" "p_pool z"
    by (rule pool_inv_used [OF assms(2) add_ref(1)])
  with add_ref(2) have "pooled_ok x" "p_pool x" by simp_all
  then show ?thesis
    using add_ref add_ref_run [OF assms(2) add_ref(1,2)]
      store_inv [OF assms(2) add_ref(1), of "x\<lparr>p_count := p_count x + 1\<rparr>"]
    by (simp add: pooled_ok_def word_neq_0_conv)
next
  case (release a)
  obtain b z where "Some a = Some b" "streams p b = Some z" by (rule pool_inv_used [OF assms(2) release(2)])
  then show ?thesis using release_run [OF assms(2) release(1,2), of z] release(3) by auto
next
  case (give_back a)
  then show ?thesis using remove_inv_used [OF assms(2) give_back(1,2)] by (simp add: StreamPool_Return_def)
next
  case (client_write a x t)
  obtain b z where "Some a = Some b" "streams p b = Some z" "p_pool z" "0 < p_count z"
    by (rule pool_inv_used [OF assms(2) client_write(2)])
  then show ?thesis
    using client_write store_inv [OF assms(2) client_write(2), of "x\<lparr>p_stream := t\<rparr>"] by (simp add: pooled_ok_def)
next
  case clear
  then show ?thesis using clear_run [OF assms(2)] by auto
qed

lemma pool_reachable_inv: "pool_reachable A M p \<Longrightarrow> pool_inv p"
proof (induction rule: pool_reachable.induct)
  case (created n p)
  then show ?case using new_run [OF created(1), of n] by simp
qed (blast intro: pool_step_inv)

text \<open>
  C8. A pooled stream has one owner. In every state that calls can bring a pool into, each live
  stream is in exactly one of the two arrays and in it once, so nothing leaks and nothing is
  listed twice; \<^verbatim>\<open>StreamPool_Take\<close> answers with \<^verbatim>\<open>NULL\<close> and an unchanged pool or hands out a stream that
  nobody holds, rewound, of the size asked for and with one reference; and dropping a reference of
  a stream in use always succeeds, gives the stream back exactly when it was the last one, and
  leaves every other stream alone.
\<close>

theorem stream_pool_exclusive:
  assumes "pool_reachable A M p" and "pool_ready A p" and "wanted_size p n < 2 ^ 64"
  shows "distinct (avail p @ in_use p) \<and> set (avail p @ in_use p) = Some ` dom (streams p) \<and>
    (\<exists>r p'. StreamPool_Take A M n p = Done r p' \<and>
      (case r of None \<Rightarrow> p' = p | Some a \<Rightarrow> taken p (wanted_size p n) a p')) \<and>
    (\<forall>a x. Some a \<in> set (in_use p) \<longrightarrow> streams p a = Some x \<longrightarrow>
      (\<exists>p'. Stream_Release A (Some a) p = Done () p' \<and>
        in_use p' = (if p_count x = 1 then remove1 (Some a) (in_use p) else in_use p) \<and>
        (\<forall>b. b \<noteq> a \<longrightarrow> streams p' b = streams p b)))"
proof -
  have inv: "pool_inv p" using assms(1) by (rule pool_reachable_inv)
  have "distinct (avail p @ in_use p) \<and> set (avail p @ in_use p) = Some ` dom (streams p)"
    using pool_inv_base [OF inv] by (simp only: pool_base_def simp_thms)
  moreover have "\<exists>r p'. StreamPool_Take A M n p = Done r p' \<and>
      (case r of None \<Rightarrow> p' = p | Some a \<Rightarrow> taken p (wanted_size p n) a p')"
    using take_run [OF inv assms(2,3), of M] by fastforce
  moreover have "\<exists>p'. Stream_Release A (Some a) p = Done () p' \<and>
        in_use p' = (if p_count x = 1 then remove1 (Some a) (in_use p) else in_use p) \<and>
        (\<forall>b. b \<noteq> a \<longrightarrow> streams p' b = streams p b)"
    if "Some a \<in> set (in_use p)" "streams p a = Some x" for a x
    using release_run [OF inv assms(2) that] by (auto split: if_splits)
  ultimately show ?thesis by blast
qed

definition demo_pointers :: "nat pointer allocator" where
  "demo_pointers = \<lparr>grants = \<lambda>_. True, garbage = \<lambda>_. None\<rparr>"

definition demo_bytes :: "byte allocator" where
  "demo_bytes = \<lparr>grants = \<lambda>_. True, garbage = \<lambda>_. 0\<rparr>"

definition demo_pool :: wStreamPool where
  "demo_pool = fresh_pool demo_pointers 1024"

lemma demo_pool_run:
  "StreamPool_New demo_pointers True 1024 = Done (Some demo_pool) ()" "pool_ready demo_pointers demo_pool"
  "wanted_size demo_pool 16 = 16" "pool_reachable demo_pointers demo_bytes demo_pool"
proof -
  have g: "grants demo_pointers 32" by (simp add: demo_pointers_def)
  show new: "StreamPool_New demo_pointers True 1024 = Done (Some demo_pool) ()"
    using new_run(1) [OF g] by (simp add: demo_pool_def)
  show "pool_reachable demo_pointers demo_bytes demo_pool" using g new by (rule created)
  show "pool_ready demo_pointers demo_pool" "wanted_size demo_pool 16 = 16"
    by (simp_all add: pool_ready_def arr_ready_def demo_pointers_def demo_pool_def fresh_pool_def fresh_array_def
        wanted_size_def del: upt_rec_numeral)
qed

theorem stream_pool_exclusive_witness:
  "\<exists>r p'. StreamPool_Take demo_pointers demo_bytes 16 demo_pool = Done r p' \<and>
      (case r of None \<Rightarrow> p' = demo_pool | Some a \<Rightarrow> taken demo_pool (wanted_size demo_pool 16) a p')"
  using stream_pool_exclusive [OF demo_pool_run(4,2), of 16] demo_pool_run(3) by simp

lemma release_returned:
  assumes inv: "pool_inv p" and ready: "arr_ready A (available p)" and s: "Some a \<in> set (avail p)"
    and x: "streams p a = Some x" "p_pool x" "p_count x = 0"
  shows "Stream_Release A (Some a) p = Fault AssertionFailed"
proof -
  note D = pool_invD [OF inv]
  obtain c where c: "StreamPool_EnsureCapacity A 1 False p = Done () (with_array False c p)" "arr_ok c"
      "cells c = avail p" "p_size c = p_size (available p)"
    using pool_ensure_one [of False p A] D(1) ready by (auto simp: avail_def)
  let ?p = "with_array False c p"
  have "pooled_ok x" using pool_inv_base [OF inv] x(1) by (simp add: pool_base_def)
  then have "Stream_EnsureValidity (p_stream x) = Done () (p_stream x)"
    by (simp add: Stream_EnsureValidity_def pooled_ok_def stream_ok_def)
  then have valid: "on_stream (Some a) Stream_EnsureValidity ?p = Done () ?p"
    using on_stream_same [of ?p a x] x(1) by simp
  obtain i where "List.find (\<lambda>j. avail p ! j = Some a) [0..<length (avail p)] = Some i"
    using find_index_mem [OF s D(3)] by metis
  then have "scan_array False (\<lambda>cs. ret (cs = Some a)) 0 (p_size c) ?p = Done (Some i) ?p"
    using scan_run [of False ?p _ "\<lambda>x. ret (x = Some a)" "\<lambda>x. x = Some a" 0] c(2,3) length_cells [OF c(2)] by simp
  then have "StreamPool_Remove A (Some a) p = Fault AssertionFailed"
    using c(1) valid by (simp add: StreamPool_Remove_def)
  moreover have "assign (Some a) (\<lambda>x. if 0 < p_count x then x\<lparr>p_count := p_count x - 1\<rparr> else x) p = Done () p"
    using assign_run [OF x(1)] x(1,3) by (simp add: fun_upd_idem)
  ultimately show ?thesis
    using x by (simp add: Stream_Release_def StreamPool_ReleaseOrReturn_def deref_run)
qed

text \<open>
  C34. A reference too many is caught. After the last reference of a stream in use has been dropped
  the stream is back in the pool, and dropping another one aborts on the assertion of
  \<^verbatim>\<open>StreamPool_Remove\<close>: a stream never enters the available array twice.
\<close>

theorem release_twice_aborts:
  assumes "pool_reachable A M p" and "pool_ready A p" and "Some a \<in> set (in_use p)"
    and "streams p a = Some x" and "p_count x = 1"
    and "Stream_Release A (Some a) p = Done () p'" and "pool_ready A p'"
  shows "Some a \<in> set (avail p') \<and> Stream_Release A (Some a) p' = Fault AssertionFailed"
proof -
  have inv: "pool_inv p" using assms(1) by (rule pool_reachable_inv)
  obtain b z where "Some a = Some b" "streams p b = Some z" "p_pool z" by (rule pool_inv_used [OF inv assms(3)])
  then have pool: "p_pool x" using assms(4) by simp
  have p': "pool_inv p'" "streams p' = (streams p)(a \<mapsto> x\<lparr>p_count := 0\<rparr>)" "avail p' = avail p @ [Some a]"
    using release_run [OF inv assms(2-4)] assms(5,6) by auto
  then show ?thesis
    using release_returned [OF p'(1), of A a "x\<lparr>p_count := 0\<rparr>"] assms(7) pool by (simp add: pool_ready_def)
qed

definition demo_array :: "nat \<Rightarrow> nat pointer list \<Rightarrow> stream_array" where
  "demo_array n ss = \<lparr>p_size = length ss, p_capacity = n, p_array = Some (ss @ replicate (n - length ss) None)\<rparr>"

definition demo_stream16 :: "u32 \<Rightarrow> pooled" where
  "demo_stream16 n = \<lparr>p_stream = \<lparr>buffer = replicate 16 0, pointer = 0, s_length = 16, capacity = 16,
     isAllocatedStream = True, isOwner = True, malloc_ok = \<lambda>_. True\<rparr>, p_count = n, p_pool = True\<rparr>"

definition demo_taken :: wStreamPool where
  "demo_taken = \<lparr>available = demo_array 32 [], used = demo_array 16 [Some 0], defaultSize = 1024,
     streams = [0 \<mapsto> demo_stream16 1], next_address = 1\<rparr>"

definition demo_back :: wStreamPool where
  "demo_back = \<lparr>available = demo_array 16 [Some 0], used = (demo_array 16 [Some 0])\<lparr>p_size := 0\<rparr>, defaultSize = 1024,
     streams = [0 \<mapsto> demo_stream16 0], next_address = 1\<rparr>"

lemma demo_pool_eq: "demo_pool = \<lparr>available = demo_array 32 [], used = demo_array 32 [], defaultSize = 1024,
     streams = (\<lambda>_. None), next_address = 0\<rparr>"
  by (simp add: demo_pool_def fresh_pool_def fresh_array_def demo_array_def demo_pointers_def map_replicate_const
      del: upt_rec_numeral)

lemma replicate_first: "0 < n \<Longrightarrow> (replicate n x)[0 := y] = y # replicate (n - 1) x"
  by (cases n) simp_all

lemmas demo_eval = replicate_first demo_array_def demo_stream16_def Let_def StreamPool_EnsureCapacity_def
  with_array_def realloc_cells_def realloc_def map_replicate_const scan_array.simps push_array_def

lemma demo_take: "StreamPool_Take demo_pointers demo_bytes 16 demo_pool = Done (Some 0) demo_taken"
  by (simp add: demo_pool_eq demo_taken_def demo_eval demo_pointers_def demo_bytes_def StreamPool_Take_def
      pool_new_stream_def Stream_New_def StreamPool_AddUsed_def assign_run del: upt_rec_numeral)

lemma demo_release: "Stream_Release demo_pointers (Some 0) demo_taken = Done () demo_back"
  by (simp add: demo_taken_def demo_back_def demo_eval demo_pointers_def Stream_Release_def deref_run assign_run
      StreamPool_ReleaseOrReturn_def StreamPool_Remove_def on_stream_same Stream_EnsureValidity_def
      StreamPool_RemoveUsed_def StreamPool_ShiftUsed_def shift_array_def del: upt_rec_numeral)

theorem release_twice_aborts_witness:
  "Some 0 \<in> set (avail demo_back) \<and> Stream_Release demo_pointers (Some 0) demo_back = Fault AssertionFailed"
proof (rule release_twice_aborts [OF _ _ _ _ _ demo_release])
  show "pool_reachable demo_pointers demo_bytes demo_taken"
    using demo_pool_run(3) by (intro pool_reachable.step [OF demo_pool_run(4)] pool_step.take [OF demo_pool_run(2) _ demo_take]) simp
  show "Some 0 \<in> set (in_use demo_taken)" "streams demo_taken 0 = Some (demo_stream16 1)" "p_count (demo_stream16 1) = 1"
    by (simp_all add: demo_taken_def in_use_def cells_def demo_array_def demo_stream16_def)
  show "pool_ready demo_pointers demo_taken" "pool_ready demo_pointers demo_back"
    by (simp_all add: pool_ready_def arr_ready_def demo_pointers_def demo_taken_def demo_back_def demo_array_def)
qed

text \<open>
  A refused growth of the array is not noticed. When the array of streams in use is full and
  \<^verbatim>\<open>realloc\<close> fails, \<^verbatim>\<open>StreamPool_AddUsed\<close> ignores the failure of \<^verbatim>\<open>StreamPool_EnsureCapacity\<close> and
  \<^verbatim>\<open>StreamPool_Take\<close> writes behind the end of the array.
\<close>

theorem take_ignores_refused_growth:
  assumes inv: "pool_inv p" and "avail p = []" and "p_size (used p) = p_capacity (used p)"
    and "p_capacity (used p) < 2 ^ 58" and "\<not> grants A (2 * p_capacity (used p))"
    and "0 < wanted_size p n" and "wanted_size p n < 2 ^ 64" and "grants M 56" and "grants M (wanted_size p n)"
  shows "StreamPool_Take A M n p = Fault OutOfBounds"
proof -
  note D = pool_invD [OF inv]
  from D(2) obtain c where c: "p_array (used p) = Some c" "length c = p_capacity (used p)" "0 < p_capacity (used p)"
    by (rule arr_okE)
  let ?n = "wanted_size p n"
  let ?k = "p_capacity (used p)"
  let ?t = "\<lparr>buffer = map (garbage M) [0..<?n], pointer = 0, s_length = ?n, capacity = ?n,
    isAllocatedStream = True, isOwner = True, malloc_ok = grants M\<rparr>"
  have "Stream_New (grants M) None ?n (map (garbage M) [0..<?n]) = Some ?t"
    using assms(6,8,9) by (simp add: Stream_New_def)
  then obtain q where new: "pool_new_stream M ?n p = Done (Some (next_address p)) q" "used q = used p"
      "\<exists>x. streams q (next_address p) = Some x"
    by (simp add: pool_new_stream_def)
  then obtain x where x: "streams q (next_address p) = Some x" by blast
  let ?q = "q\<lparr>streams := (streams q)(next_address p \<mapsto> x\<lparr>p_pool := True, p_count := 1\<rparr>)\<rparr>"
  have ar: "add64 ?k 1 = ?k + 1" "mul64 ?k 2 = 2 * ?k" using assms(4) by (simp_all del: One_nat_def)
  have re: "realloc_cells A (Some c) (2 * ?k) = None" using assms(4,5) by (simp add: realloc_cells_id)
  have "StreamPool_EnsureCapacity A 1 True ?q = Failed (with_array True ((used p)\<lparr>p_capacity := ?k + 1\<rparr>) ?q)"
    using new(2) assms(3) ar c re by (simp add: StreamPool_EnsureCapacity_def Let_def)
  then have "StreamPool_AddUsed A (Some (next_address p)) ?q = Fault OutOfBounds"
    using c assms(3) by (simp add: StreamPool_AddUsed_def ignore_def or_value_def push_array_def cell_set_def store_cells_def)
  moreover have "scan_array False test 0 (p_size (available p)) p = Done None p" for test
    using assms(2) length_cells [OF D(1)] by (simp add: avail_def scan_array.simps)
  ultimately show ?thesis
    using new(1) x by (simp add: StreamPool_Take_def wanted_size_def Let_def assign_run)
qed

definition demo_full :: wStreamPool where
  "demo_full = \<lparr>available = demo_array 1 [], used = demo_array 1 [Some 0], defaultSize = 1024,
     streams = [0 \<mapsto> demo_stream16 1], next_address = 1\<rparr>"

theorem take_ignores_refused_growth_witness:
  "StreamPool_Take \<lparr>grants = \<lambda>n. n \<le> 1, garbage = \<lambda>_. None\<rparr> demo_bytes 16 demo_full = Fault OutOfBounds"
proof (rule take_ignores_refused_growth)
  show "pool_inv demo_full"
    by (auto simp: pool_inv_def pool_base_def referenced_def demo_full_def demo_array_def avail_def in_use_def cells_def
        arr_ok_def pooled_ok_def stream_ok_def demo_stream16_def split: if_splits)
qed (simp_all add: demo_full_def demo_array_def avail_def cells_def wanted_size_def demo_bytes_def)

end
