(* ===== verification/Base64.thy ===== *)
theory Base64
  imports Memory
begin

text \<open>
  The base64 codec, \<^verbatim>\<open>libfreerdp/crypto/base64.c\<close>: both alphabets with their decoding tables, the
  encoder with optional padding and line breaks and the decoder, with the output block and its
  bounds. The decoder inverts the encoder and is safe on every string.
\<close>

section \<open>Alphabets\<close>

text \<open>A string literal of the source is the list of its character codes, a \<^verbatim>\<open>signed char\<close> an integer.\<close>

definition chars :: "string \<Rightarrow> byte list" where
  "chars s = map of_char s"

definition enc_base64 :: "byte list" where
  "enc_base64 = chars ''ABCDEFGHIJKLMNOPQRSTUVWXYZabcdefghijklmnopqrstuvwxyz0123456789+/''"

definition enc_base64url :: "byte list" where
  "enc_base64url = chars ''ABCDEFGHIJKLMNOPQRSTUVWXYZabcdefghijklmnopqrstuvwxyz0123456789-_''"

definition dec_base64url :: "int list" where
  "dec_base64url = [
     - 1, - 1, - 1, - 1, - 1, - 1, - 1, - 1, - 1, - 1, - 1, - 1, - 1, - 1, - 1, - 1,
     - 1, - 1, - 1, - 1, - 1, - 1, - 1, - 1, - 1, - 1, - 1, - 1, - 1, - 1, - 1, - 1,
     - 1, - 1, - 1, - 1, - 1, - 1, - 1, - 1, - 1, - 1, - 1, - 1, - 1, 62, - 1, - 1,
     52, 53, 54, 55, 56, 57, 58, 59, 60, 61, - 1, - 1, - 1, - 1, - 1, - 1,
     - 1, 0, 1, 2, 3, 4, 5, 6, 7, 8, 9, 10, 11, 12, 13, 14,
     15, 16, 17, 18, 19, 20, 21, 22, 23, 24, 25, - 1, - 1, - 1, - 1, 63,
     - 1, 26, 27, 28, 29, 30, 31, 32, 33, 34, 35, 36, 37, 38, 39, 40,
     41, 42, 43, 44, 45, 46, 47, 48, 49, 50, 51, - 1, - 1, - 1, - 1, - 1]"

definition dec_base64 :: "int list" where
  "dec_base64 = [
     - 1, - 1, - 1, - 1, - 1, - 1, - 1, - 1, - 1, - 1, - 1, - 1, - 1, - 1, - 1, - 1,
     - 1, - 1, - 1, - 1, - 1, - 1, - 1, - 1, - 1, - 1, - 1, - 1, - 1, - 1, - 1, - 1,
     - 1, - 1, - 1, - 1, - 1, - 1, - 1, - 1, - 1, - 1, - 1, 62, - 1, - 1, - 1, 63,
     52, 53, 54, 55, 56, 57, 58, 59, 60, 61, - 1, - 1, - 1, - 1, - 1, - 1,
     - 1, 0, 1, 2, 3, 4, 5, 6, 7, 8, 9, 10, 11, 12, 13, 14,
     15, 16, 17, 18, 19, 20, 21, 22, 23, 24, 25, - 1, - 1, - 1, - 1, - 1,
     - 1, 26, 27, 28, 29, 30, 31, 32, 33, 34, 35, 36, 37, 38, 39, 40,
     41, 42, 43, 44, 45, 46, 47, 48, 49, 50, 51, - 1, - 1, - 1, - 1, - 1]"

section \<open>Encoding\<close>

text \<open>
  The output block with the write position \<open>p\<close>; \<open>emit bs\<close> is a sequence of \<^verbatim>\<open>*p++ = b\<close>.
\<close>

record b64_out =
  b64_buf :: "byte list"
  b64_pos :: nat

definition emit :: "byte list \<Rightarrow> (b64_out, unit) prog" where
  "emit bs o1 =
     (if b64_pos o1 + length bs \<le> length (b64_buf o1)
      then Done () (o1\<lparr>b64_buf := splice_at (b64_pos o1) bs (b64_buf o1), b64_pos := b64_pos o1 + length bs\<rparr>)
      else Fault OutOfBounds)"

definition b64_char :: "byte list \<Rightarrow> int \<Rightarrow> byte" where
  "b64_char alphabet i = alphabet ! nat i"

definition byte_at :: "byte list \<Rightarrow> nat \<Rightarrow> ('s, int) prog" where
  "byte_at data i = (if i < length data then ret (uint (data ! i)) else fault OutOfBounds)"

text \<open>
  The loop over complete blocks; \<open>i\<close> and \<open>blocks\<close> are the \<^verbatim>\<open>int\<close> variables of the source, \<open>q\<close> is the index
  of \<^verbatim>\<open>q\<close> in \<open>data\<close>.
\<close>

function base64_blocks ::
    "byte list \<Rightarrow> byte list \<Rightarrow> bool \<Rightarrow> nat \<Rightarrow> int \<Rightarrow> int \<Rightarrow> nat \<Rightarrow> nat \<Rightarrow> (b64_out, nat) prog" where
  "base64_blocks alphabet data crLf lineSize blocks i q outCounter =
     (if i < blocks
      then
        bind (byte_at data q) (\<lambda>q0.
        bind (byte_at data (q + 1)) (\<lambda>q1.
        bind (byte_at data (q + 2)) (\<lambda>q2.
        let c = push_bit 16 q0 + push_bit 8 q1 + q2 in
        seq (emit [b64_char alphabet (drop_bit 18 (c AND 0x00FC0000)),
                   b64_char alphabet (drop_bit 12 (c AND 0x0003F000)),
                   b64_char alphabet (drop_bit 6 (c AND 0x00000FC0)),
                   b64_char alphabet (c AND 0x0000003F)])
       (seq (if crLf \<and> (outCounter + 4) mod lineSize = 0 then emit [0x0D, 0x0A] else ret ())
            (base64_blocks alphabet data crLf lineSize blocks (i + 3) (q + 3) (outCounter + 4))))))
      else ret q)"
  by pat_completeness auto
termination
  by (relation "measure (\<lambda>(_, _, _, _, blocks, i, _, _). nat (blocks - i))") auto

declare base64_blocks.simps [simp del]

definition base64_rest :: "byte list \<Rightarrow> byte list \<Rightarrow> bool \<Rightarrow> nat \<Rightarrow> (b64_out, unit) prog" where
  "base64_rest alphabet data pad q =
     (if length data mod 3 = 0 then ret ()
      else if length data mod 3 = 1
      then bind (byte_at data q) (\<lambda>q0.
           let c = push_bit 16 q0 in
           seq (emit [b64_char alphabet (drop_bit 18 (c AND 0x00FC0000)),
                      b64_char alphabet (drop_bit 12 (c AND 0x0003F000))])
               (if pad then emit [0x3D, 0x3D] else ret ()))
      else bind (byte_at data q) (\<lambda>q0.
           bind (byte_at data (q + 1)) (\<lambda>q1.
           let c = push_bit 16 q0 + push_bit 8 q1 in
           seq (emit [b64_char alphabet (drop_bit 18 (c AND 0x00FC0000)),
                      b64_char alphabet (drop_bit 12 (c AND 0x0003F000)),
                      b64_char alphabet (drop_bit 6 (c AND 0x00000FC0))])
               (if pad then emit [0x3D] else ret ()))))"

text \<open>
  \<open>base64_encode_ex\<close> returns the C string, \<open>None\<close> for \<^verbatim>\<open>NULL\<close>. \<open>blocks\<close> is an \<^verbatim>\<open>int\<close>, so the number of
  bytes in complete blocks is cut to 32 bits and signed.
\<close>

definition base64_encode_ex ::
    "byte allocator \<Rightarrow> byte list \<Rightarrow> byte list \<Rightarrow> bool \<Rightarrow> bool \<Rightarrow> nat \<Rightarrow> (unit, byte list option) outcome" where
  "base64_encode_ex A alphabet data pad crLf lineSize =
     (let len = length data;
          outLen = (len + 3) * 4 div 3;
          extra = (if crLf then (outLen + lineSize - 1) div lineSize * 2 else 0)
      in case malloc A (outLen + extra + 1) of
           None \<Rightarrow> Done None ()
         | Some block \<Rightarrow>
             (let blocks = sint (word_of_nat (len - len mod 3) :: u32)
              in case
                   bind (base64_blocks alphabet data crLf lineSize blocks 0 0 0) (\<lambda>q.
                   seq (base64_rest alphabet data pad q)
                  (seq (if crLf \<and> len mod 3 \<noteq> 0 then emit [0x0D, 0x0A] else ret ())
                  (bind (gets b64_pos) (\<lambda>p.
                   seq (emit [0]) (bind (gets b64_buf) (\<lambda>buf. ret (take p buf)))))))
                   \<lparr>b64_buf = block, b64_pos = 0\<rparr>
                 of Done str _ \<Rightarrow> Done (Some str) ()
                  | Failed _ \<Rightarrow> Failed ()
                  | Fault e \<Rightarrow> Fault e))"

definition base64_encode ::
    "byte allocator \<Rightarrow> byte list \<Rightarrow> byte list \<Rightarrow> bool \<Rightarrow> (unit, byte list option) outcome" where
  "base64_encode A alphabet data pad = base64_encode_ex A alphabet data pad False 64"

definition crypto_base64_encode_ex ::
    "byte allocator \<Rightarrow> byte list \<Rightarrow> bool \<Rightarrow> (unit, byte list option) outcome" where
  "crypto_base64_encode_ex A data withCrLf = base64_encode_ex A enc_base64 data True withCrLf 64"

definition crypto_base64_encode :: "byte allocator \<Rightarrow> byte list \<Rightarrow> (unit, byte list option) outcome" where
  "crypto_base64_encode A data = base64_encode A enc_base64 data True"

definition crypto_base64url_encode :: "byte allocator \<Rightarrow> byte list \<Rightarrow> (unit, byte list option) outcome" where
  "crypto_base64url_encode A data = base64_encode A enc_base64url data False"

section \<open>Decoding\<close>

text \<open>A \<^verbatim>\<open>char\<close> is signed: the codes from \<open>0x80\<close> on are negative.\<close>

definition base64_decode_char :: "int list \<Rightarrow> byte \<Rightarrow> int" where
  "base64_decode_char alphabet c = (if sint c \<le> 0 then - 1 else alphabet ! nat (sint c))"

definition next_char :: "int list \<Rightarrow> byte list \<Rightarrow> nat \<Rightarrow> (b64_out, int) prog" where
  "next_char alphabet s i =
     (if i < length s then ret (base64_decode_char alphabet (s ! i)) else fault OutOfBounds)"

text \<open>\<open>put_at k v\<close> is \<^verbatim>\<open>q[k] = v\<close>.\<close>

definition put_at :: "nat \<Rightarrow> int \<Rightarrow> (b64_out, unit) prog" where
  "put_at k v o1 =
     (if b64_pos o1 + k < length (b64_buf o1)
      then Done () (o1\<lparr>b64_buf := (b64_buf o1)[b64_pos o1 + k := word_of_int v]\<rparr>)
      else Fault OutOfBounds)"

definition advance_q :: "nat \<Rightarrow> (b64_out, unit) prog" where
  "advance_q k = modify (\<lambda>o1. o1\<lparr>b64_pos := b64_pos o1 + k\<rparr>)"

fun base64_decode_blocks ::
    "int list \<Rightarrow> byte list \<Rightarrow> nat \<Rightarrow> nat \<Rightarrow> (b64_out, nat) prog" where
  "base64_decode_blocks alphabet s 0 i = ret i"
| "base64_decode_blocks alphabet s (Suc n) i =
     bind (next_char alphabet s i) (\<lambda>n0.
     bind (next_char alphabet s (i + 1)) (\<lambda>n1.
     bind (next_char alphabet s (i + 2)) (\<lambda>n2.
     bind (next_char alphabet s (i + 3)) (\<lambda>n3.
     if n0 = - 1 \<or> n1 = - 1 \<or> n2 = - 1 \<or> n3 = - 1 then fail
     else
       seq (put_at 0 (push_bit 2 n0 + drop_bit 4 n1))
      (seq (put_at 1 (push_bit 4 (n1 AND 15) + drop_bit 2 n2))
      (seq (put_at 2 (push_bit 6 (n2 AND 3) + n3))
      (seq (advance_q 3)
           (base64_decode_blocks alphabet s n (i + 4)))))))))"

text \<open>The last block; its value is how many bytes it holds.\<close>

definition base64_decode_last ::
    "int list \<Rightarrow> byte list \<Rightarrow> nat \<Rightarrow> nat \<Rightarrow> (b64_out, nat) prog" where
  "base64_decode_last alphabet s remainder i =
     bind (next_char alphabet s i) (\<lambda>n0.
     bind (next_char alphabet s (i + 1)) (\<lambda>n1.
     if n0 = - 1 \<or> n1 = - 1 then fail
     else
       bind (if remainder = 2 then ret (- 1) else next_char alphabet s (i + 2)) (\<lambda>n2.
       bind (if remainder \<ge> 2 then ret (- 1)
             else next_char alphabet s (i + 3)) (\<lambda>n3.
       seq (put_at 0 (push_bit 2 n0 + drop_bit 4 n1))
      (if n2 = - 1
       then (if n3 \<noteq> - 1 then fail
             else seq (put_at 1 (push_bit 4 (n1 AND 15))) (ret 1))
       else if n3 = - 1
       then seq (put_at 1 (push_bit 4 (n1 AND 15) + drop_bit 2 n2))
           (seq (put_at 2 (push_bit 6 (n2 AND 3))) (ret 2))
       else seq (put_at 0 (push_bit 2 n0 + drop_bit 4 n1))
           (seq (put_at 1 (push_bit 4 (n1 AND 15) + drop_bit 2 n2))
           (seq (put_at 2 (push_bit 6 (n2 AND 3) + n3)) (ret 3))))))))"

text \<open>\<open>None\<close> is \<^verbatim>\<open>NULL\<close>; otherwise the \<^verbatim>\<open>*data_len\<close> decoded bytes.\<close>

definition base64_decode ::
    "byte allocator \<Rightarrow> int list \<Rightarrow> byte list \<Rightarrow> bool \<Rightarrow> (unit, byte list option) outcome" where
  "base64_decode A alphabet s pad =
     (let remainder = length s mod 4 in
      if (pad \<and> remainder > 0) \<or> remainder = 1 then Done None ()
      else
        (let len = (if \<not> pad \<and> remainder \<noteq> 0 then length s + 4 - remainder else length s)
         in case malloc A (len div 4 * 3 + 1) of
              None \<Rightarrow> Done None ()
            | Some block \<Rightarrow>
                if len div 4 < 1 then Done None ()
                else
                  (case
                     bind (base64_decode_blocks alphabet s (len div 4 - 1) 0) (\<lambda>i.
                     bind (base64_decode_last alphabet s remainder i) (\<lambda>k.
                     seq (advance_q k)
                    (seq (put_at 0 0)
                         (gets (\<lambda>o1. take (b64_pos o1) (b64_buf o1))))))
                     \<lparr>b64_buf = block, b64_pos = 0\<rparr>
                   of Done bs _ \<Rightarrow> Done (Some bs) ()
                    | Failed _ \<Rightarrow> Done None ()
                    | Fault e \<Rightarrow> Fault e)))"

definition crypto_base64_decode :: "byte allocator \<Rightarrow> byte list \<Rightarrow> (unit, byte list option) outcome" where
  "crypto_base64_decode A s = base64_decode A dec_base64 s True"

definition crypto_base64url_decode :: "byte allocator \<Rightarrow> byte list \<Rightarrow> (unit, byte list option) outcome" where
  "crypto_base64url_decode A s = base64_decode A dec_base64url s False"

section \<open>The output block\<close>

definition app :: "byte list \<Rightarrow> b64_out \<Rightarrow> b64_out" where
  "app bs o1 = o1\<lparr>b64_buf := splice_at (b64_pos o1) bs (b64_buf o1), b64_pos := b64_pos o1 + length bs\<rparr>"

definition space :: "b64_out \<Rightarrow> nat" where
  "space o1 = length (b64_buf o1) - b64_pos o1"

lemma app_Nil [simp]: "app [] o1 = o1"
  by (simp add: app_def)

lemma emit_app [simp]: "0 < length bs \<Longrightarrow> length bs \<le> space o1 \<Longrightarrow> emit bs o1 = Done () (app bs o1)"
  by (simp add: emit_def app_def space_def del: length_greater_0_conv)

lemma space_app [simp]: "length bs \<le> space o1 \<Longrightarrow> space (app bs o1) = space o1 - length bs"
  by (cases bs) (simp_all add: space_def app_def)

lemma app_app [simp]:
  assumes "length xs + length ys \<le> space o1"
  shows "app ys (app xs o1) = app (xs @ ys) o1"
proof (cases "xs @ ys = []")
  case False
  then have "b64_pos o1 + length xs + length ys \<le> length (b64_buf o1)"
    using assms by (auto simp: space_def simp flip: length_greater_0_conv)
  then show ?thesis by (simp add: app_def splice_at_append add.assoc)
qed simp

lemma splice_at_Cons:
  assumes "i + length (x # xs) \<le> length b"
  shows "splice_at i (x # xs) b = splice_at (Suc i) xs (b[i := x])"
  using assms by (simp add: splice_at_def upd_conv_take_nth_drop Suc_diff_le add.commute)

lemma put_at_3:
  assumes "3 \<le> space o1"
  shows "seq (put_at 0 x) (seq (put_at 1 y) (seq (put_at 2 z) (seq (advance_q 3) m))) o1 =
    m (app [word_of_int x, word_of_int y, word_of_int z] o1)"
proof -
  have fit: "b64_pos o1 + 3 \<le> length (b64_buf o1)" using assms by (auto simp: space_def)
  then have "((b64_buf o1)[b64_pos o1 := word_of_int x, b64_pos o1 + 1 := word_of_int y,
      b64_pos o1 + 2 := word_of_int z]) =
    splice_at (b64_pos o1) [word_of_int x, word_of_int y, word_of_int z] (b64_buf o1)"
    by (simp add: splice_at_Cons)
  with fit show ?thesis by (simp add: put_at_def advance_q_def app_def numeral_3_eq_3)
qed

section \<open>Sextets\<close>

definition sx0 :: "byte \<Rightarrow> nat" where "sx0 a = unat a div 4"
definition sx1 :: "byte \<Rightarrow> byte \<Rightarrow> nat" where "sx1 a b = unat a mod 4 * 16 + unat b div 16"
definition sx2 :: "byte \<Rightarrow> byte \<Rightarrow> nat" where "sx2 b c = unat b mod 16 * 4 + unat c div 64"
definition sx3 :: "byte \<Rightarrow> nat" where "sx3 c = unat c mod 64"

lemma sx_less [simp]: "sx0 a < 64" "sx1 a b < 64" "sx2 b c < 64" "sx3 c < 64"
  using byte_less [of a] byte_less [of b] byte_less [of c]
  by (simp_all add: sx0_def sx1_def sx2_def sx3_def del: byte_less)

lemma and_drop:
  "drop_bit 18 (c AND 0x00FC0000) = c div 2 ^ 18 mod 64"
  "drop_bit 12 (c AND 0x0003F000) = c div 2 ^ 12 mod 64"
  "drop_bit 6 (c AND 0x00000FC0) = c div 2 ^ 6 mod 64"
  "c AND 0x0000003F = c mod 64" for c :: int
proof -
  have m: "x AND 63 = x mod 64" for x :: int
    using take_bit_eq_mask [of 6 x] by (simp add: take_bit_eq_mod mask_eq_exp_minus_1)
  show "drop_bit 18 (c AND 0x00FC0000) = c div 2 ^ 18 mod 64"
    by (simp add: drop_bit_and) (simp add: drop_bit_eq_div m)
  show "drop_bit 12 (c AND 0x0003F000) = c div 2 ^ 12 mod 64"
    by (simp add: drop_bit_and) (simp add: drop_bit_eq_div m)
  show "drop_bit 6 (c AND 0x00000FC0) = c div 2 ^ 6 mod 64"
    by (simp add: drop_bit_and) (simp add: drop_bit_eq_div m)
  show "c AND 0x0000003F = c mod 64" by (simp add: m)
qed

lemma sextet_arith:
  fixes a b c :: nat
  assumes "a < 256" "b < 256" "c < 256"
  shows "(a * 65536 + b * 256 + c) div 262144 mod 64 = a div 4"
    "(a * 65536 + b * 256 + c) div 4096 mod 64 = a mod 4 * 16 + b div 16"
    "(a * 65536 + b * 256 + c) div 64 mod 64 = b mod 16 * 4 + c div 64"
    "(a * 65536 + b * 256 + c) mod 64 = c mod 64"
proof -
  let ?x = "a * 65536 + b * 256 + c"
  have "?x div 65536 = a" using assms by simp
  then have "?x div 262144 = a div 4" using div_mult2_eq [of ?x 65536 4] by simp
  then show "?x div 262144 mod 64 = a div 4" using assms by simp
  have "?x div 256 = a * 256 + b" using assms by simp
  then have x: "?x div 4096 = (a * 16 + b div 16)" using div_mult2_eq [of ?x 256 16] by simp
  have "(a * 16 + b div 16) mod 64 = a mod 4 * 16 + b div 16"
    using assms(2) mod_mult2_eq [of "a * 16 + b div 16" 16 4] by simp
  with x show "?x div 4096 mod 64 = a mod 4 * 16 + b div 16" by simp
  have x: "?x div 64 = a * 1024 + (b * 4 + c div 64)" by simp
  have "(a * 1024 + k) mod 64 = k mod 64" for k
    using mod_mult_self3 [of "a * 16" 64 k] by (simp add: mult.commute)
  moreover have "(b * 4 + c div 64) mod 64 = b mod 16 * 4 + c div 64"
    using assms(3) mod_mult2_eq [of "b * 4 + c div 64" 4 16] by simp
  ultimately show "?x div 64 mod 64 = b mod 16 * 4 + c div 64" using x by simp
  show "?x mod 64 = c mod 64"
    using mod_mult_self3 [of "a * 1024 + b * 4" 64 c] by (simp add: algebra_simps)
qed

lemma sextets_run:
  fixes a b d :: byte
  defines "c \<equiv> push_bit 16 (uint a) + push_bit 8 (uint b) + uint d"
  shows "b64_char alphabet (drop_bit 18 (c AND 0x00FC0000)) = alphabet ! sx0 a"
    "b64_char alphabet (drop_bit 12 (c AND 0x0003F000)) = alphabet ! sx1 a b"
    "b64_char alphabet (drop_bit 6 (c AND 0x00000FC0)) = alphabet ! sx2 b d"
    "b64_char alphabet (c AND 0x0000003F) = alphabet ! sx3 d"
proof -
  have c: "c = int (unat a * 65536 + unat b * 256 + unat d)"
    by (simp add: c_def push_bit_eq_mult)
  note ar = sextet_arith [OF byte_less [of a] byte_less [of b] byte_less [of d]]
  have q: "nat (int n div int k mod int m) = n div k mod m" "nat (int n mod int m) = n mod m" for n k m
    by (simp_all flip: zdiv_int zmod_int)
  show "b64_char alphabet (drop_bit 18 (c AND 0x00FC0000)) = alphabet ! sx0 a"
    unfolding and_drop b64_char_def c sx0_def
    using ar(1) q(1) [of "unat a * 65536 + unat b * 256 + unat d" 262144 64] by simp
  show "b64_char alphabet (drop_bit 12 (c AND 0x0003F000)) = alphabet ! sx1 a b"
    unfolding and_drop b64_char_def c sx1_def
    using ar(2) q(1) [of "unat a * 65536 + unat b * 256 + unat d" 4096 64] by simp
  show "b64_char alphabet (drop_bit 6 (c AND 0x00000FC0)) = alphabet ! sx2 b d"
    unfolding and_drop b64_char_def c sx2_def
    using ar(3) q(1) [of "unat a * 65536 + unat b * 256 + unat d" 64 64] by simp
  show "b64_char alphabet (c AND 0x0000003F) = alphabet ! sx3 d"
    unfolding and_drop b64_char_def c sx3_def
    using ar(4) q(2) [of "unat a * 65536 + unat b * 256 + unat d" 64] by simp
qed

lemma sextets_short:
  fixes a b :: byte
  shows "b64_char alphabet (drop_bit 18 (push_bit 16 (uint a) AND 0x00FC0000)) = alphabet ! sx0 a"
    "b64_char alphabet (drop_bit 12 (push_bit 16 (uint a) AND 0x0003F000)) = alphabet ! sx1 a 0"
    "b64_char alphabet (drop_bit 18 (push_bit 16 (uint a) + push_bit 8 (uint b) AND 0x00FC0000)) = alphabet ! sx0 a"
    "b64_char alphabet (drop_bit 12 (push_bit 16 (uint a) + push_bit 8 (uint b) AND 0x0003F000)) = alphabet ! sx1 a b"
    "b64_char alphabet (drop_bit 6 (push_bit 16 (uint a) + push_bit 8 (uint b) AND 0x00000FC0)) = alphabet ! sx2 b 0"
  using sextets_run [where b = 0 and d = 0] sextets_run [where b = b and d = 0] by simp_all

section \<open>The text of the encoder\<close>

fun b64_full :: "byte list \<Rightarrow> bool \<Rightarrow> nat \<Rightarrow> nat \<Rightarrow> byte list \<Rightarrow> byte list" where
  "b64_full alphabet crLf L cnt (a # b # d # r) =
     [alphabet ! sx0 a, alphabet ! sx1 a b, alphabet ! sx2 b d, alphabet ! sx3 d] @
     (if crLf \<and> (cnt + 4) mod L = 0 then [0x0D, 0x0A] else []) @
     b64_full alphabet crLf L (cnt + 4) r"
| "b64_full alphabet crLf L cnt _ = []"

fun b64_tail :: "byte list \<Rightarrow> bool \<Rightarrow> byte list \<Rightarrow> byte list" where
  "b64_tail alphabet pad (a # b # d # r) = b64_tail alphabet pad r"
| "b64_tail alphabet pad [] = []"
| "b64_tail alphabet pad [a] =
     [alphabet ! sx0 a, alphabet ! sx1 a 0] @ (if pad then [0x3D, 0x3D] else [])"
| "b64_tail alphabet pad [a, b] =
     [alphabet ! sx0 a, alphabet ! sx1 a b, alphabet ! sx2 b 0] @ (if pad then [0x3D] else [])"

definition b64_text :: "byte list \<Rightarrow> bool \<Rightarrow> bool \<Rightarrow> nat \<Rightarrow> byte list \<Rightarrow> byte list" where
  "b64_text alphabet pad crLf L data =
     b64_full alphabet crLf L 0 data @ b64_tail alphabet pad data @
     (if crLf \<and> length data mod 3 \<noteq> 0 then [0x0D, 0x0A] else [])"

lemma length_b64_full:
  assumes "0 < L"
  shows "length (b64_full alphabet crLf L cnt data) \<le>
    4 * (length data div 3) +
    (if crLf then 2 * ((cnt + 4 * (length data div 3)) div L - cnt div L) else 0)"
proof (induction alphabet crLf L cnt data rule: b64_full.induct)
  case (1 alphabet crLf L cnt a b d r)
  let ?k = "length r div 3"
  have k: "length (a # b # d # r) div 3 = Suc ?k" by simp
  have mono: "cnt div L \<le> (cnt + 4) div L" "(cnt + 4) div L \<le> (cnt + 4 + 4 * ?k) div L"
    by (simp_all add: div_le_mono)
  have hit: "cnt div L < (cnt + 4) div L" if "(cnt + 4) mod L = 0"
  proof (rule ccontr)
    assume "\<not> ?thesis"
    with mono have eq: "(cnt + 4) div L = cnt div L" by simp
    have "cnt + 4 = (cnt + 4) div L * L" using that by (metis add_0_right div_mult_mod_eq)
    also have "\<dots> \<le> cnt" unfolding eq by (rule div_times_less_eq_dividend)
    finally show False by simp
  qed
  define s m e where "s = cnt div L" and "m = (cnt + 4) div L" and "e = (cnt + 4 + 4 * ?k) div L"
  have e: "(cnt + 4 * Suc ?k) div L = e" by (simp add: e_def algebra_simps)
  have IH: "length (b64_full alphabet crLf L (cnt + 4) r) \<le>
      4 * ?k + (if crLf then 2 * (e - m) else 0)"
    using 1 by (simp only: e_def m_def)
  have "s \<le> m" "m \<le> e" "(cnt + 4) mod L = 0 \<Longrightarrow> s < m"
    using mono hit by (simp_all add: s_def m_def e_def)
  with IH show ?case
    unfolding k e s_def [symmetric] by (cases crLf) auto
qed simp_all

lemma length_b64_tail:
  "length (b64_tail alphabet pad data) \<le> (if length data mod 3 = 0 then 0 else 4)"
  by (induction alphabet pad data rule: b64_tail.induct) auto

text \<open>The allocation of the encoder holds the text and its terminator.\<close>

lemma b64_text_fits:
  assumes "0 < L"
  shows "length (b64_text alphabet pad crLf L data) \<le>
    (length data + 3) * 4 div 3 +
    (if crLf then ((length data + 3) * 4 div 3 + L - 1) div L * 2 else 0)"
proof -
  let ?n = "length data"
  let ?k = "?n div 3"
  have n: "?n = 3 * ?k + ?n mod 3" by simp
  have big: "4 * ?k + 4 \<le> (?n + 3) * 4 div 3" by presburger
  then have out: "4 * ?k + (if ?n mod 3 = 0 then 0 else 4) \<le> (?n + 3) * 4 div 3" by simp
  have "4 * ?k + L \<le> (?n + 3) * 4 div 3 + L - 1"
    using big by linarith
  then have "(4 * ?k + L) div L \<le> ((?n + 3) * 4 div 3 + L - 1) div L" by (rule div_le_mono)
  moreover have "(4 * ?k + L) div L = 4 * ?k div L + 1"
    using assms div_add_self2 [of L "4 * ?k"] by simp
  ultimately have lines: "4 * ?k div L + 1 \<le> ((?n + 3) * 4 div 3 + L - 1) div L"
    by (simp only:)
  show ?thesis
    using length_b64_full [OF assms, of alphabet crLf 0 data] length_b64_tail [of alphabet pad data] out lines
    by (auto simp: b64_text_def split: if_splits)
qed

lemma byte_at_run [simp]: "i < length data \<Longrightarrow> byte_at data i s = Done (uint (data ! i)) s"
  by (simp add: byte_at_def)

lemma drop_nths:
  assumes "drop q data = a # b # d # r"
  shows "q + 2 < length data" "data ! q = a" "data ! (q + 1) = b" "data ! (q + 2) = d"
    "drop (q + 3) data = r"
proof -
  show len: "q + 2 < length data"
    using assms length_drop [of q data] by simp
  show "data ! q = a" "data ! (q + 1) = b" "data ! (q + 2) = d"
    using assms len nth_drop [of q data 0] nth_drop [of q data 1] nth_drop [of q data 2] by simp_all
  show "drop (q + 3) data = r"
    using assms drop_drop [of 3 q data] by (simp add: add.commute)
qed

lemma base64_blocks_step:
  assumes "i < blocks" and "drop q data = a # b # d # r"
    and "emit [alphabet ! sx0 a, alphabet ! sx1 a b, alphabet ! sx2 b d, alphabet ! sx3 d] o1 = Done () o2"
    and "(if crLf \<and> (cnt + 4) mod L = 0 then emit [0x0D, 0x0A] else ret ()) o2 = Done () o3"
  shows "base64_blocks alphabet data crLf L blocks i q cnt o1 =
    base64_blocks alphabet data crLf L blocks (i + 3) (q + 3) (cnt + 4) o3"
proof -
  note d = drop_nths [OF assms(2)]
  have b: "byte_at data q o1 = Done (uint a) o1" "byte_at data (q + 1) o1 = Done (uint b) o1"
    "byte_at data (q + 2) o1 = Done (uint d) o1"
    using d by (simp_all only: byte_at_run)
  note nl = seq_Done [where m = "if crLf \<and> (cnt + 4) mod L = 0 then emit [0x0D, 0x0A] else ret ()", OF assms(4)]
  note four = seq_Done [where m = "emit [alphabet ! sx0 a, alphabet ! sx1 a b, alphabet ! sx2 b d,
    alphabet ! sx3 d]", OF assms(3)]
  show ?thesis
    by (subst base64_blocks.simps)
      (simp only: assms(1) if_True b bind_Done Let_def sextets_run four nl)
qed

lemma base64_blocks_end:
  assumes "length (drop q data) < 3" and "q \<le> length data" and "q mod 3 = 0"
  shows "base64_blocks alphabet data crLf L (int (length data - length data mod 3)) (int q) q cnt o1 =
    Done (length data - length data mod 3) o1"
proof -
  obtain k where k: "q = 3 * k" using assms(3) by auto
  have "length data = 3 * k + length (drop q data)" using assms(2) k by simp
  then have "length data mod 3 = length (drop q data)"
    using assms(1) by (metis mod_less mod_mult_self4 mult.commute add.commute)
  with assms(2) have "length data - length data mod 3 = q" by simp
  then show ?thesis by (subst base64_blocks.simps) simp
qed

lemma base64_blocks_run:
  assumes "drop q data = rest" and "q \<le> length data" and "q mod 3 = 0"
    and "length (b64_full alphabet crLf L cnt rest) \<le> space o1"
  shows "base64_blocks alphabet data crLf L (int (length data - length data mod 3)) (int q) q cnt o1 =
    Done (length data - length data mod 3) (app (b64_full alphabet crLf L cnt rest) o1)"
  using assms
proof (induction alphabet crLf L cnt rest arbitrary: q o1 rule: b64_full.induct)
  case (1 alphabet crLf L cnt a b d r)
  note d = drop_nths [OF "1.prems"(1)]
  let ?four = "[alphabet ! sx0 a, alphabet ! sx1 a b, alphabet ! sx2 b d, alphabet ! sx3 d]"
  let ?nl = "if crLf \<and> (cnt + 4) mod L = 0 then [0x0D, 0x0A] else [] :: byte list"
  let ?rest = "b64_full alphabet crLf L (cnt + 4) r"
  have lt: "int q < int (length data - length data mod 3)"
    using d(1) "1.prems"(3) by simp
  have sp: "4 + length ?nl + length ?rest \<le> space o1"
    using "1.prems"(4) by simp
  have nl: "(if crLf \<and> (cnt + 4) mod L = 0 then emit [0x0D, 0x0A] else ret ()) (app ?four o1) =
    Done () (app (?four @ ?nl) o1)"
    using sp by (cases "crLf \<and> (cnt + 4) mod L = 0") auto
  have IH: "base64_blocks alphabet data crLf L (int (length data - length data mod 3)) (int (q + 3)) (q + 3) (cnt + 4)
    (app (?four @ ?nl) o1) =
    Done (length data - length data mod 3) (app ?rest (app (?four @ ?nl) o1))"
    using d "1.prems"(3) sp by (intro "1.IH") simp_all
  have all: "app ?rest (app (?four @ ?nl) o1) = app (b64_full alphabet crLf L cnt (a # b # d # r)) o1"
    using sp by simp
  have em: "emit ?four o1 = Done () (app ?four o1)"
    using sp by (intro emit_app) simp_all
  have iq: "int q + 3 = int (q + 3)" by simp
  show ?case
    unfolding base64_blocks_step [OF lt "1.prems"(1) em nl] iq IH all ..
qed (subst base64_blocks_end; simp)+

lemma base64_rest_run:
  assumes "q = length data - length data mod 3"
    and "length (b64_tail alphabet pad (drop q data)) \<le> space o1"
  shows "base64_rest alphabet data pad q o1 = Done () (app (b64_tail alphabet pad (drop q data)) o1)"
proof -
  have len: "length (drop q data) = length data mod 3" using assms(1) by simp
  have one: "length xs = 1 \<Longrightarrow> \<exists>a. xs = [a]" and two: "length xs = 2 \<Longrightarrow> \<exists>a b. xs = [a, b]"
    for xs :: "byte list"
    by (auto simp: length_Suc_conv numeral_2_eq_2)
  have "length data mod 3 < 3" by simp
  then consider "length data mod 3 = 0" | "length data mod 3 = 1" | "length data mod 3 = 2" by linarith
  then show ?thesis
  proof cases
    case 1
    with len show ?thesis by (simp add: base64_rest_def)
  next
    case 2
    with len obtain a where a: "drop q data = [a]" using one [of "drop q data"] by auto
    then have "q < length data" "data ! q = a"
      by (metis drop_all list.distinct(1) not_le) (rule nth_via_drop [OF a])
    then have b: "byte_at data q o1 = Done (uint a) o1" by simp
    have "base64_rest alphabet data pad q o1 =
      seq (emit [alphabet ! sx0 a, alphabet ! sx1 a 0]) (if pad then emit [0x3D, 0x3D] else ret ()) o1"
      unfolding base64_rest_def Let_def 2
      by (simp only: bind_Done [where m = "byte_at data q", OF b] sextets_short if_True if_False one_neq_zero simp_thms)
    with 2 a assms(2) show ?thesis by (cases pad) simp_all
  next
    case 3
    with len obtain a b where a: "drop q data = [a, b]" using two [of "drop q data"] by auto
    then have "q + 1 < length data" using length_drop [of q data] by simp
    moreover have "data ! q = a" "data ! (q + 1) = b"
      using calculation a nth_drop [of q data 0] nth_drop [of q data 1] by simp_all
    ultimately have "q + 1 < length data" "data ! q = a" "data ! (q + 1) = b" by simp_all
    then have b: "byte_at data q o1 = Done (uint a) o1" "byte_at data (q + 1) o1 = Done (uint b) o1"
      by simp_all
    have ne: "((2 :: nat) = 0) = False" "((2 :: nat) = 1) = False" by simp_all
    have "base64_rest alphabet data pad q o1 =
      seq (emit [alphabet ! sx0 a, alphabet ! sx1 a b, alphabet ! sx2 b 0])
          (if pad then emit [0x3D] else ret ()) o1"
      unfolding base64_rest_def Let_def 3
      by (simp only: ne bind_Done [where m = "byte_at data q", OF b(1)] if_False
          bind_Done [where m = "byte_at data (q + 1)", OF b(2)] sextets_short)
    with 3 a assms(2) show ?thesis by (cases pad) simp_all
  qed
qed

lemma b64_tail_drop:
  "b64_tail alphabet pad (drop (length data - length data mod 3) data) = b64_tail alphabet pad data"
proof (induction alphabet pad data rule: b64_tail.induct)
  case (1 alphabet pad a b d r)
  have len: "length (a # b # d # r) = length r + 3" by simp
  have e: "length (a # b # d # r) - length (a # b # d # r) mod 3 = Suc (Suc (Suc (length r - length r mod 3)))"
    unfolding len mod_add_self2 by simp
  show ?case unfolding e using 1 by simp
qed simp_all

lemma base64_program_run:
  fixes ob :: b64_out and alphabet data :: "byte list" and crLf pad :: bool and L :: nat
  defines "full \<equiv> b64_full alphabet crLf L 0 data" and "tail \<equiv> b64_tail alphabet pad data"
    and "nl \<equiv> (if crLf \<and> length data mod 3 \<noteq> 0 then [0x0D, 0x0A] else []) :: byte list"
    and "q \<equiv> length data - length data mod 3"
  assumes sp: "length full + length tail + length nl + 1 \<le> space ob" and pos: "b64_pos ob = 0"
  shows "bind (base64_blocks alphabet data crLf L (int q) 0 0 0) (\<lambda>q.
      seq (base64_rest alphabet data pad q)
     (seq (if crLf \<and> length data mod 3 \<noteq> 0 then emit [0x0D, 0x0A] else ret ())
     (bind (gets b64_pos) (\<lambda>p. seq (emit [0]) (bind (gets b64_buf) (\<lambda>buf. ret (take p buf))))))) ob =
    Done (full @ tail @ nl) (app (full @ tail @ nl @ [0]) ob)"
proof -
  have 1: "base64_blocks alphabet data crLf L (int q) 0 0 0 ob = Done q (app full ob)"
    using base64_blocks_run [of 0 data data alphabet crLf L 0 ob] sp by (simp add: full_def q_def)
  have 2: "base64_rest alphabet data pad q (app full ob) = Done () (app (full @ tail) ob)"
    using base64_rest_run [of q data alphabet pad "app full ob"] sp
    by (simp add: b64_tail_drop q_def tail_def)
  have 3: "(if crLf \<and> length data mod 3 \<noteq> 0 then emit [0x0D, 0x0A] else ret ()) (app (full @ tail) ob) =
    Done () (app (full @ tail @ nl) ob)"
    using sp by (cases "crLf \<and> length data mod 3 \<noteq> 0") (auto simp: nl_def)
  have 4: "emit [0] (app (full @ tail @ nl) ob) = Done () (app (full @ tail @ nl @ [0]) ob)"
    using sp by simp
  have 5: "take (b64_pos (app (full @ tail @ nl) ob)) (b64_buf (app (full @ tail @ nl @ [0]) ob)) =
    full @ tail @ nl"
    using sp pos by (simp add: app_def splice_at_def space_def)
  show ?thesis
    by (simp only: bind_Done [where m = "base64_blocks alphabet data crLf L (int q) 0 0 0", OF 1] seq_Done [where m = "base64_rest alphabet data pad q", OF 2]
        seq_Done [where m = "if crLf \<and> length data mod 3 \<noteq> 0 then emit [0x0D, 0x0A] else ret ()", OF 3]
        seq_Done [where m = "emit [0]", OF 4] bind_Done [where m = "gets f" for f, OF gets_run] ret_run 5)
qed

text \<open>
  What the encoder returns, for any input of less than two gigabytes: the text of the input, and
  no write leaves the block it allocated.
\<close>

lemma base64_encode_run:
  assumes "length data < 2 ^ 31" and "0 < L"
  shows "base64_encode_ex A alphabet data pad crLf L =
    Done (if grants A ((length data + 3) * 4 div 3 +
            (if crLf then ((length data + 3) * 4 div 3 + L - 1) div L * 2 else 0) + 1)
          then Some (b64_text alphabet pad crLf L data) else None) ()"
proof -
  define size where "size = (length data + 3) * 4 div 3 +
    (if crLf then ((length data + 3) * 4 div 3 + L - 1) div L * 2 else 0) + 1"
  define ob where "ob = \<lparr>b64_buf = map (garbage A) [0..<size], b64_pos = 0\<rparr>"
  let ?q = "length data - length data mod 3"
  have "int ?q < 2 ^ 31" using assms(1) by simp
  then have blocks: "sint (word_of_nat ?q :: u32) = int ?q"
    using int_word_sint [of "int ?q", where 'a = 32] by simp
  have "space ob = size" by (simp add: space_def ob_def)
  moreover have "length (b64_text alphabet pad crLf L data) + 1 \<le> size"
    using b64_text_fits [OF assms(2), of alphabet pad crLf data] by (simp add: size_def)
  ultimately have run: "bind (base64_blocks alphabet data crLf L (int ?q) 0 0 0) (\<lambda>q.
      seq (base64_rest alphabet data pad q)
     (seq (if crLf \<and> length data mod 3 \<noteq> 0 then emit [0x0D, 0x0A] else ret ())
     (bind (gets b64_pos) (\<lambda>p. seq (emit [0]) (bind (gets b64_buf) (\<lambda>buf. ret (take p buf))))))) ob =
    Done (b64_text alphabet pad crLf L data) (app (b64_text alphabet pad crLf L data @ [0]) ob)"
    using base64_program_run [of alphabet crLf L data pad ob] by (simp add: b64_text_def ob_def)
  have m: "malloc A size = (if grants A size then Some (b64_buf ob) else None)"
    by (simp add: malloc_def ob_def)
  have o: "\<lparr>b64_buf = b64_buf ob, b64_pos = 0\<rparr> = ob" by (simp add: ob_def)
  show ?thesis
    unfolding base64_encode_ex_def Let_def size_def [symmetric] m
    by (cases "grants A size") (simp_all only: if_True if_False option.case blocks o run outcome.case)
qed

section \<open>The decoder\<close>

subsection \<open>Safety on any input\<close>

lemma next_char_run [simp]:
  "i < length s \<Longrightarrow> next_char tab s i o1 = Done (base64_decode_char tab (s ! i)) o1"
  by (simp add: next_char_def)

lemma decode_blocks_step:
  assumes "i + 4 \<le> length s" and "3 \<le> space o1"
    and "base64_decode_char tab (s ! i) = n0" "base64_decode_char tab (s ! (i + 1)) = n1"
      "base64_decode_char tab (s ! (i + 2)) = n2" "base64_decode_char tab (s ! (i + 3)) = n3"
    and "n0 \<noteq> - 1" "n1 \<noteq> - 1" "n2 \<noteq> - 1" "n3 \<noteq> - 1"
  shows "base64_decode_blocks tab s (Suc n) i o1 = base64_decode_blocks tab s n (i + 4)
    (app [word_of_int (push_bit 2 n0 + drop_bit 4 n1),
      word_of_int (push_bit 4 (n1 AND 15) + drop_bit 2 n2),
      word_of_int (push_bit 6 (n2 AND 3) + n3)] o1)"
  using assms by (simp add: put_at_3 del: One_nat_def)

lemma decode_blocks_safe:
  assumes "i + 4 * n \<le> length s" and "3 * n \<le> space o1"
  shows "(\<exists>bs. length bs = 3 * n \<and> base64_decode_blocks tab s n i o1 = Done (i + 4 * n) (app bs o1)) \<or>
    (\<exists>o2. base64_decode_blocks tab s n i o1 = Failed o2)"
  using assms
proof (induction n arbitrary: i o1)
  case 0
  then show ?case by simp
next
  case (Suc n)
  let ?v = "\<lambda>k. base64_decode_char tab (s ! (i + k))"
  let ?b = "[word_of_int (push_bit 2 (?v 0) + drop_bit 4 (?v 1)),
    word_of_int (push_bit 4 (?v 1 AND 15) + drop_bit 2 (?v 2)),
    word_of_int (push_bit 6 (?v 2 AND 3) + ?v 3)] :: byte list"
  show ?case
  proof (cases "?v 0 = - 1 \<or> ?v 1 = - 1 \<or> ?v 2 = - 1 \<or> ?v 3 = - 1")
    case True
    with Suc.prems show ?thesis by auto
  next
    case False
    have step: "base64_decode_blocks tab s (Suc n) i o1 =
      base64_decode_blocks tab s n (i + 4) (app ?b o1)"
      using False Suc.prems by (intro decode_blocks_step) simp_all
    have "(\<exists>bs. length bs = 3 * n \<and>
        base64_decode_blocks tab s n (i + 4) (app ?b o1) = Done (i + 4 + 4 * n) (app bs (app ?b o1))) \<or>
      (\<exists>o2. base64_decode_blocks tab s n (i + 4) (app ?b o1) = Failed o2)"
      using Suc.prems by (intro Suc.IH) simp_all
    then show ?thesis
    proof (elim disjE exE conjE)
      fix bs
      assume "length bs = 3 * n"
        and run: "base64_decode_blocks tab s n (i + 4) (app ?b o1) = Done (i + 4 + 4 * n) (app bs (app ?b o1))"
      moreover have "app bs (app ?b o1) = app (?b @ bs) o1"
        using Suc.prems \<open>length bs = 3 * n\<close> by (intro app_app) simp
      ultimately show ?thesis
        unfolding step by (intro disjI1 exI [of _ "?b @ bs"]) simp
    next
      fix o2
      assume "base64_decode_blocks tab s n (i + 4) (app ?b o1) = Failed o2"
      then show ?thesis unfolding step by simp
    qed
  qed
qed

text \<open>The last block, the terminator and the bytes handed out.\<close>

definition decode_finish :: "int list \<Rightarrow> byte list \<Rightarrow> nat \<Rightarrow> nat \<Rightarrow> (b64_out, byte list) prog" where
  "decode_finish tab s remainder i =
     bind (base64_decode_last tab s remainder i) (\<lambda>k.
     seq (advance_q k)
    (seq (put_at 0 0)
         (gets (\<lambda>o1. take (b64_pos o1) (b64_buf o1)))))"

lemma take_updates:
  assumes "p + 3 < length b"
  shows "take (p + 1) (b[p := x, p + 1 := y, p + 1 := z]) = take p b @ [x]"
    "take (p + 2) (b[p := x, p + 1 := y, p + 2 := z, p + 2 := w]) = take p b @ [x, y]"
    "take (p + 3) (b[p := x', p := x, p + 1 := y, p + 2 := z, p + 3 := w]) = take p b @ [x, y, z]"
  using assms
  by (simp_all add: take_Suc_conv_app_nth numeral_2_eq_2 numeral_3_eq_3)

lemma decode_finish_cases:
  fixes tab s i o1 remainder
  defines "v \<equiv> \<lambda>k. base64_decode_char tab (s ! (i + k))"
    and "n2 \<equiv> (if remainder = 2 then - 1 else base64_decode_char tab (s ! (i + 2)))"
    and "n3 \<equiv> (if remainder \<ge> 2 then - 1 else base64_decode_char tab (s ! (i + 3)))"
  assumes sp: "3 < space o1" and rem: "remainder \<in> {0, 2, 3}"
    and len: "i + (if remainder = 0 then 4 else remainder) \<le> length s"
  shows "(\<exists>o2. decode_finish tab s remainder i o1 =
      (if v 0 = - 1 \<or> v 1 = - 1 \<or> (n2 = - 1 \<and> n3 \<noteq> - 1) then Failed o2
       else Done (take (b64_pos o1) (b64_buf o1) @
         (if n2 = - 1 then [word_of_int (push_bit 2 (v 0) + drop_bit 4 (v 1))]
          else if n3 = - 1
          then [word_of_int (push_bit 2 (v 0) + drop_bit 4 (v 1)),
                word_of_int (push_bit 4 (v 1 AND 15) + drop_bit 2 n2)]
          else [word_of_int (push_bit 2 (v 0) + drop_bit 4 (v 1)),
                word_of_int (push_bit 4 (v 1 AND 15) + drop_bit 2 n2),
                word_of_int (push_bit 6 (n2 AND 3) + n3)])) o2))"
proof -
  have fit: "b64_pos o1 + 3 < length (b64_buf o1)" using sp by (simp add: space_def)
  have two: "i + 1 < length s" using rem len by auto
  have b0: "next_char tab s i o2 = Done (v 0) o2" and b1: "next_char tab s (i + 1) o2 = Done (v 1) o2" for o2
    using two by (simp_all add: v_def)
  have b2: "(if remainder = 2 then ret (- 1) else next_char tab s (i + 2)) o2 = Done n2 o2" for o2
    using rem len by (auto simp: n2_def)
  have b3: "(if remainder \<ge> 2 then ret (- 1) else next_char tab s (i + 3)) o2 = Done n3 o2" for o2
    using rem len by (auto simp: n3_def)
  note run = bind_Done [where m = "next_char tab s i", OF b0]
    bind_Done [where m = "next_char tab s (i + 1)", OF b1]
    bind_Done [where m = "if remainder = 2 then ret (- 1) else next_char tab s (i + 2)", OF b2]
    bind_Done [where m = "if remainder \<ge> 2 then ret (- 1) else next_char tab s (i + 3)", OF b3]
  have last: "base64_decode_last tab s remainder i o1 =
    (if v 0 = - 1 \<or> v 1 = - 1 then Failed o1
     else seq (put_at 0 (push_bit 2 (v 0) + drop_bit 4 (v 1)))
      (if n2 = - 1
       then (if n3 \<noteq> - 1 then fail else seq (put_at 1 (push_bit 4 (v 1 AND 15))) (ret 1))
       else if n3 = - 1
       then seq (put_at 1 (push_bit 4 (v 1 AND 15) + drop_bit 2 n2))
           (seq (put_at 2 (push_bit 6 (n2 AND 3))) (ret 2))
       else seq (put_at 0 (push_bit 2 (v 0) + drop_bit 4 (v 1)))
           (seq (put_at 1 (push_bit 4 (v 1 AND 15) + drop_bit 2 n2))
           (seq (put_at 2 (push_bit 6 (n2 AND 3) + n3)) (ret 3)))) o1)"
    by (cases "v 0 = - 1 \<or> v 1 = - 1")
      (simp_all only: base64_decode_last_def run if_True if_False fail_run)
  consider "v 0 = - 1 \<or> v 1 = - 1" | "v 0 \<noteq> - 1" "v 1 \<noteq> - 1" "n2 = - 1" "n3 \<noteq> - 1"
    | "v 0 \<noteq> - 1" "v 1 \<noteq> - 1" "n2 = - 1" "n3 = - 1" | "v 0 \<noteq> - 1" "v 1 \<noteq> - 1" "n2 \<noteq> - 1" "n3 = - 1"
    | "v 0 \<noteq> - 1" "v 1 \<noteq> - 1" "n2 \<noteq> - 1" "n3 \<noteq> - 1" by blast
  then show ?thesis
  proof cases
    case 1
    with last show ?thesis by (auto simp: decode_finish_def)
  next
    case 2
    then show ?thesis using fit
      by (simp add: decode_finish_def bind_def last put_at_def)
  next
    case 3
    then show ?thesis using fit take_updates(1) [OF fit]
      by (simp add: decode_finish_def bind_def last put_at_def advance_q_def)
  next
    case 4
    then show ?thesis using fit take_updates(2) [OF fit]
      by (simp add: decode_finish_def bind_def last put_at_def advance_q_def)
  next
    case 5
    then show ?thesis using fit take_updates(3) [OF fit]
      by (simp add: decode_finish_def bind_def last put_at_def advance_q_def)
  qed
qed

lemma decode_finish_safe:
  assumes "3 < space o1" and "remainder \<in> {0, 2, 3}"
    and "i + (if remainder = 0 then 4 else remainder) \<le> length s"
  shows "(\<exists>o2. decode_finish tab s remainder i o1 = Failed o2) \<or>
    (\<exists>xs o2. decode_finish tab s remainder i o1 = Done (take (b64_pos o1) (b64_buf o1) @ xs) o2 \<and>
      xs \<noteq> [] \<and> length xs \<le> 3)"
proof -
  note c = decode_finish_cases [OF assms, of tab]
  from c obtain C X o2 where "decode_finish tab s remainder i o1 =
      (if C then Failed o2 else Done (take (b64_pos o1) (b64_buf o1) @ X) o2)" "X \<noteq> [] \<and> length X \<le> 3"
    by (elim exE) (rule that, assumption, simp)
  then show ?thesis by (cases C) auto
qed

lemma base64_decode_total:
  "\<exists>r. base64_decode A tab s pad = Done r () \<and>
    (\<forall>bs. r = Some bs \<longrightarrow> bs \<noteq> [] \<and> length bs \<le> (length s + 3) div 4 * 3)"
proof -
  let ?rem = "length s mod 4"
  define len where "len = (if \<not> pad \<and> ?rem \<noteq> 0 then length s + 4 - ?rem else length s)"
  define ob where "ob = \<lparr>b64_buf = map (garbage A) [0..<len div 4 * 3 + 1], b64_pos = 0\<rparr>"
  show ?thesis
  proof (cases "(pad \<and> ?rem > 0) \<or> ?rem = 1 \<or> \<not> grants A (len div 4 * 3 + 1) \<or> len div 4 < 1")
    case True
    then have "base64_decode A tab s pad = Done None ()"
      unfolding base64_decode_def Let_def len_def [symmetric] by (auto simp: malloc_def split: option.splits)
    then show ?thesis by simp
  next
    case False
    let ?n = "len div 4 - 1"
    have r: "?rem \<in> {0, 2, 3}" "pad \<longrightarrow> ?rem = 0"
      using False mod_less_divisor [of 4 "length s"] by auto
    have n: "len div 4 = Suc ?n" using False by simp
    define m where "m = length s div 4"
    have s: "length s = 4 * m + ?rem" by (simp add: m_def)
    have "len = (if ?rem = 0 then 4 * m else 4 * m + 4)"
      using r s unfolding len_def by auto
    then have "len div 4 = (if ?rem = 0 then m else m + 1)" by simp
    then have len4: "len div 4 \<le> (length s + 3) div 4"
      and fits: "4 * ?n + (if ?rem = 0 then 4 else ?rem) \<le> length s"
      using n s by (cases "?rem = 0"; simp; linarith)+
    have sp: "space ob = 3 * ?n + 4" using n by (simp add: space_def ob_def)
    have eq: "base64_decode A tab s pad =
      (case bind (base64_decode_blocks tab s ?n 0) (decode_finish tab s ?rem) ob of
         Done bs _ \<Rightarrow> Done (Some bs) () | Failed _ \<Rightarrow> Done None () | Fault e \<Rightarrow> Fault e)"
      using False unfolding base64_decode_def Let_def len_def [symmetric] decode_finish_def [abs_def]
      by (cases pad) (simp_all add: malloc_def ob_def)
    have "(\<exists>bs. length bs = 3 * ?n \<and> base64_decode_blocks tab s ?n 0 ob = Done (0 + 4 * ?n) (app bs ob)) \<or>
      (\<exists>o2. base64_decode_blocks tab s ?n 0 ob = Failed o2)"
      using fits sp by (intro decode_blocks_safe) simp_all
    then show ?thesis
    proof (elim disjE exE conjE)
      fix bs
      assume bs: "length bs = 3 * ?n" and run: "base64_decode_blocks tab s ?n 0 ob = Done (0 + 4 * ?n) (app bs ob)"
      have take: "take (b64_pos (app bs ob)) (b64_buf (app bs ob)) = bs"
        using bs sp by (simp add: app_def ob_def splice_at_def)
      have "3 < space (app bs ob)" using bs sp by simp
      from decode_finish_safe [OF this r(1), of "4 * ?n" s tab] fits take
      consider o2 where "decode_finish tab s ?rem (4 * ?n) (app bs ob) = Failed o2"
        | xs o2 where "decode_finish tab s ?rem (4 * ?n) (app bs ob) = Done (bs @ xs) o2" "xs \<noteq> []" "length xs \<le> 3"
        by auto
      then show ?thesis
      proof cases
        case 1
        then show ?thesis using run eq by simp
      next
        case 2
        then have "base64_decode A tab s pad = Done (Some (bs @ xs)) ()" using run eq by simp
        moreover have "length (bs @ xs) \<le> len div 4 * 3" using 2(3) bs n by simp
        moreover have "len div 4 * 3 \<le> (length s + 3) div 4 * 3" using len4 by simp
        ultimately show ?thesis using 2(2) by auto
      qed
    next
      fix o2
      assume "base64_decode_blocks tab s ?n 0 ob = Failed o2"
      then show ?thesis using eq by simp
    qed
  qed
qed

subsection \<open>Decoding what was encoded\<close>

fun b64_plain :: "byte list \<Rightarrow> bool \<Rightarrow> byte list \<Rightarrow> byte list" where
  "b64_plain alphabet pad (a # b # d # r) =
     alphabet ! sx0 a # alphabet ! sx1 a b # alphabet ! sx2 b d # alphabet ! sx3 d # b64_plain alphabet pad r"
| "b64_plain alphabet pad r = b64_tail alphabet pad r"

lemma b64_text_plain: "b64_text alphabet pad False L data = b64_plain alphabet pad data"
proof -
  have "b64_full alphabet False L cnt data @ b64_tail alphabet pad data = b64_plain alphabet pad data" for cnt
    by (induction alphabet pad data arbitrary: cnt rule: b64_plain.induct) simp_all
  then show ?thesis by (simp add: b64_text_def)
qed

lemma b64_plain_append:
  "length xs = 3 * n \<Longrightarrow> b64_plain alphabet pad (xs @ ys) = b64_plain alphabet pad xs @ b64_plain alphabet pad ys"
proof (induction n arbitrary: xs)
  case (Suc n)
  then obtain a b d r where xs: "xs = a # b # d # r" "length r = 3 * n"
    by (auto simp: length_Suc_conv numeral_3_eq_3)
  with Suc.IH [of r] show ?case by simp
qed simp

lemma length_b64_plain: "length xs = 3 * n \<Longrightarrow> length (b64_plain alphabet pad xs) = 4 * n"
proof (induction n arbitrary: xs)
  case (Suc n)
  then obtain a b d r where xs: "xs = a # b # d # r" "length r = 3 * n"
    by (auto simp: length_Suc_conv numeral_3_eq_3)
  with Suc.IH [of r] show ?case by simp
qed simp

lemma b64_plain_Nil_iff [simp]: "b64_plain alphabet pad xs = [] \<longleftrightarrow> xs = []"
  by (induction alphabet pad xs rule: b64_plain.induct) simp_all

text \<open>The bytes the decoder puts together from the sextets of the encoder.\<close>

lemma sextet_bytes:
  fixes a b d :: byte
  shows "word_of_int (push_bit 2 (int (sx0 a)) + drop_bit 4 (int (sx1 a b))) = a"
    "word_of_int (push_bit 4 (int (sx1 a b) AND 15) + drop_bit 2 (int (sx2 b d))) = b"
    "word_of_int (push_bit 6 (int (sx2 b d) AND 3) + int (sx3 d)) = d"
proof -
  have m: "int n AND 15 = int (n mod 16)" "int n AND 3 = int (n mod 4)" for n
    using take_bit_eq_mask [of 4 "int n"] take_bit_eq_mask [of 2 "int n"]
    by (simp_all add: take_bit_eq_mod mask_eq_exp_minus_1 zmod_int)
  have w: "word_of_int (int n) = w" if "n = unat w" for n and w :: byte
    using that by simp
  have b: "unat b div 16 < 16" "unat d div 64 < 4"
    using byte_less [of b] byte_less [of d] by (simp_all add: less_mult_imp_div_less del: byte_less)
  have "sx1 a b div 16 = unat a mod 4" "sx1 a b mod 16 = unat b div 16"
    "sx2 b d div 4 = unat b mod 16" "sx2 b d mod 4 = unat d div 64"
    using b by (simp_all add: sx1_def sx2_def)
  note q = this
  have "push_bit 2 (int (sx0 a)) + drop_bit 4 (int (sx1 a b)) = int (sx0 a * 4 + sx1 a b div 16)"
    by (simp add: push_bit_eq_mult drop_bit_eq_div zdiv_int)
  then show "word_of_int (push_bit 2 (int (sx0 a)) + drop_bit 4 (int (sx1 a b))) = a"
    using w [of "sx0 a * 4 + sx1 a b div 16" a] by (simp add: q sx0_def)
  have "push_bit 4 (int (sx1 a b) AND 15) + drop_bit 2 (int (sx2 b d)) =
      int (sx1 a b mod 16 * 16 + sx2 b d div 4)"
    by (simp add: m push_bit_eq_mult drop_bit_eq_div zdiv_int)
  then show "word_of_int (push_bit 4 (int (sx1 a b) AND 15) + drop_bit 2 (int (sx2 b d))) = b"
    using w [of "sx1 a b mod 16 * 16 + sx2 b d div 4" b] by (simp add: q)
  have "push_bit 6 (int (sx2 b d) AND 3) + int (sx3 d) = int (sx2 b d mod 4 * 64 + sx3 d)"
    by (simp add: m push_bit_eq_mult)
  then show "word_of_int (push_bit 6 (int (sx2 b d) AND 3) + int (sx3 d)) = d"
    using w [of "sx2 b d mod 4 * 64 + sx3 d" d] by (simp add: q sx3_def)
qed

text \<open>
  The contract between the two tables: the decoding table inverts the alphabet and knows nothing
  of the padding character.
\<close>

locale base64_tables =
  fixes alphabet :: "byte list" and tab :: "int list"
  assumes inverse: "k < 64 \<Longrightarrow> base64_decode_char tab (alphabet ! k) = int k"
    and padding: "base64_decode_char tab 0x3D = - 1"
begin

lemma decode_blocks_plain:
  assumes "drop i s = b64_plain alphabet pad xs @ t" and "length xs = 3 * n" and "3 * n \<le> space o1"
  shows "base64_decode_blocks tab s n i o1 = Done (i + 4 * n) (app xs o1)"
  using assms
proof (induction n arbitrary: i xs o1)
  case 0
  then show ?case by simp
next
  case (Suc n)
  then obtain a b d r where xs: "xs = a # b # d # r" "length r = 3 * n"
    by (auto simp: length_Suc_conv numeral_3_eq_3)
  have dr: "drop i s = alphabet ! sx0 a # alphabet ! sx1 a b # alphabet ! sx2 b d # alphabet ! sx3 d #
      b64_plain alphabet pad r @ t"
    using Suc.prems(1) xs by simp
  have len: "i + 4 \<le> length s" using arg_cong [OF dr, of length] by simp
  have v: "s ! i = alphabet ! sx0 a" "s ! (i + 1) = alphabet ! sx1 a b" "s ! (i + 2) = alphabet ! sx2 b d"
    "s ! (i + 3) = alphabet ! sx3 d"
    using dr len nth_drop [of i s 0] nth_drop [of i s 1] nth_drop [of i s 2] nth_drop [of i s 3] by simp_all
  have "drop (i + 4) s = b64_plain alphabet pad r @ t"
    using arg_cong [OF dr, of "drop 4"] by (simp add: add.commute)
  then have "base64_decode_blocks tab s n (i + 4) (app [a, b, d] o1) = Done (i + 4 + 4 * n) (app r (app [a, b, d] o1))"
    using Suc.prems(3) xs by (intro Suc.IH) simp_all
  moreover have "app r (app [a, b, d] o1) = app xs o1"
    using Suc.prems(3) xs app_app [of "[a, b, d]" r o1] by simp
  moreover have "base64_decode_blocks tab s (Suc n) i o1 = base64_decode_blocks tab s n (i + 4) (app [a, b, d] o1)"
  proof -
    have "base64_decode_blocks tab s (Suc n) i o1 = base64_decode_blocks tab s n (i + 4)
      (app [word_of_int (push_bit 2 (int (sx0 a)) + drop_bit 4 (int (sx1 a b))),
        word_of_int (push_bit 4 (int (sx1 a b) AND 15) + drop_bit 2 (int (sx2 b d))),
        word_of_int (push_bit 6 (int (sx2 b d) AND 3) + int (sx3 d))] o1)"
      using Suc.prems(3) len v by (intro decode_blocks_step) (simp_all add: inverse)
    then show ?thesis by (simp only: sextet_bytes)
  qed
  ultimately show ?case by simp
qed

lemma decode_finish_plain:
  assumes "drop i s = b64_plain alphabet pad xs" and "0 < length xs" and "length xs \<le> 3"
    and "3 < space o1" and "remainder = (if pad \<or> length xs = 3 then 0 else length xs + 1)"
  shows "\<exists>o2. decode_finish tab s remainder i o1 = Done (take (b64_pos o1) (b64_buf o1) @ xs) o2"
proof -
  have "b64_plain alphabet pad xs \<noteq> []" using assms(2) by simp
  then have "i < length s" using assms(1) by (metis drop_all not_le)
  moreover have "length s - i = length (b64_plain alphabet pad xs)"
    using assms(1) by (metis length_drop)
  ultimately have len: "length s = i + length (b64_plain alphabet pad xs)" by linarith
  have nth: "s ! (i + k) = b64_plain alphabet pad xs ! k" if "k < length (b64_plain alphabet pad xs)" for k
    using that len assms(1) nth_drop [of i s k] by simp
  have "length xs = 1 \<or> length xs = 2 \<or> length xs = 3" using assms(2,3) by linarith
  then consider a where "xs = [a]" | a b where "xs = [a, b]" | a b d where "xs = [a, b, d]"
    by (auto simp: length_Suc_conv numeral_2_eq_2 numeral_3_eq_3)
  then show ?thesis
  proof cases
    case 1
    then have r: "remainder \<in> {0, 2, 3}" "remainder = (if pad then 0 else 2)" using assms(5) by auto
    show ?thesis
      using decode_finish_cases [OF assms(4) r(1), of i s tab] 1 len r(2) nth [of 0] nth [of 1] nth [of 2] nth [of 3]
        sextet_bytes(1) [of a 0]
      by (cases pad) (auto simp: inverse padding)
  next
    case 2
    then have r: "remainder \<in> {0, 2, 3}" "remainder = (if pad then 0 else 3)" using assms(5) by auto
    show ?thesis
      using decode_finish_cases [OF assms(4) r(1), of i s tab] 2 len r(2) nth [of 0] nth [of 1] nth [of 2] nth [of 3]
        sextet_bytes(1) [of a b] sextet_bytes(2) [of a b 0]
      by (cases pad) (auto simp: inverse padding)
  next
    case 3
    then have r: "remainder \<in> {0, 2, 3}" "remainder = 0" using assms(5) by auto
    show ?thesis
      using decode_finish_cases [OF assms(4) r(1), of i s tab] 3 len r(2) nth [of 0] nth [of 1] nth [of 2] nth [of 3]
        sextet_bytes(1) [of a b] sextet_bytes(2) [of a b d] sextet_bytes(3) [of b d]
      by (auto simp: inverse)
  qed
qed

end

context base64_tables
begin

lemma decode_plain:
  assumes "data \<noteq> []" and granted: "\<And>n. grants A n"
  shows "base64_decode A tab (b64_plain alphabet pad data) pad = Done (Some data) ()"
proof -
  define n where "n = (length data - 1) div 3"
  define xs ys where "xs = take (3 * n) data" and "ys = drop (3 * n) data"
  have l: "0 < length data" using assms(1) by simp
  have "3 * n \<le> length data - 1" by (simp add: n_def)
  moreover have "length data - 1 < 3 * n + 3" by (simp add: n_def)
  ultimately have "3 * n < length data" "length data \<le> 3 * n + 3" using l by linarith+
  then have xs: "length xs = 3 * n" and ys: "0 < length ys" "length ys \<le> 3"
    by (simp_all add: xs_def ys_def)
  have data: "data = xs @ ys" by (simp add: xs_def ys_def)
  define s where "s = b64_plain alphabet pad data"
  have s: "s = b64_plain alphabet pad xs @ b64_plain alphabet pad ys"
    unfolding s_def data by (rule b64_plain_append [OF xs])
  define k where "k = (if pad \<or> length ys = 3 then 4 else length ys + 1)"
  have "length ys = 1 \<or> length ys = 2 \<or> length ys = 3" using ys by linarith
  then have "length (b64_plain alphabet pad ys) = k" and k: "k \<in> {2, 3, 4}"
    by (auto simp: k_def length_Suc_conv numeral_2_eq_2 numeral_3_eq_3)
  then have len: "length s = 4 * n + k" using s length_b64_plain [OF xs] by simp
  let ?rem = "length s mod 4"
  have r: "?rem = (if pad \<or> length ys = 3 then 0 else length ys + 1)"
    using k len by (auto simp: k_def split: if_splits)
  have len4: "(if \<not> pad \<and> ?rem \<noteq> 0 then length s + 4 - ?rem else length s) = 4 * (n + 1)"
    using k len by (auto simp: k_def split: if_splits)
  have ok: "\<not> ((pad \<and> ?rem > 0) \<or> ?rem = 1)"
    using k len by (auto simp: k_def split: if_splits)
  define ob where "ob = \<lparr>b64_buf = map (garbage A) [0..<(n + 1) * 3 + 1], b64_pos = 0\<rparr>"
  have sp: "space ob = 3 * n + 4" by (simp add: space_def ob_def)
  have "base64_decode_blocks tab s n 0 ob = Done (0 + 4 * n) (app xs ob)"
    using s xs sp by (intro decode_blocks_plain [where t = "b64_plain alphabet pad ys"]) simp_all
  moreover have "\<exists>o2. decode_finish tab s ?rem (4 * n) (app xs ob) =
      Done (take (b64_pos (app xs ob)) (b64_buf (app xs ob)) @ ys) o2"
    using s ys xs sp r length_b64_plain [OF xs, of alphabet pad]
    by (intro decode_finish_plain [where pad = pad]) simp_all
  moreover have "take (b64_pos (app xs ob)) (b64_buf (app xs ob)) = xs"
    using xs sp by (simp add: app_def ob_def splice_at_def)
  ultimately obtain o2 where
    run: "bind (base64_decode_blocks tab s n 0) (decode_finish tab s ?rem) ob = Done data o2"
    using data by auto
  have "base64_decode A tab s pad =
    (case bind (base64_decode_blocks tab s n 0) (decode_finish tab s ?rem) ob of
       Done bs _ \<Rightarrow> Done (Some bs) () | Failed _ \<Rightarrow> Done None () | Fault e \<Rightarrow> Fault e)"
    unfolding base64_decode_def Let_def len4 decode_finish_def [abs_def]
    using ok granted by (cases pad) (simp_all add: malloc_def ob_def)
  with run show ?thesis by (simp add: s_def)
qed

end

interpretation std: base64_tables enc_base64 dec_base64
proof
  have "\<forall>k\<in>set [0..<64]. base64_decode_char dec_base64 (enc_base64 ! k) = int k" by code_simp
  then show "k < 64 \<Longrightarrow> base64_decode_char dec_base64 (enc_base64 ! k) = int k" for k by simp
  show "base64_decode_char dec_base64 0x3D = - 1" by code_simp
qed

interpretation url: base64_tables enc_base64url dec_base64url
proof
  have "\<forall>k\<in>set [0..<64]. base64_decode_char dec_base64url (enc_base64url ! k) = int k" by code_simp
  then show "k < 64 \<Longrightarrow> base64_decode_char dec_base64url (enc_base64url ! k) = int k" for k by simp
  show "base64_decode_char dec_base64url 0x3D = - 1" by code_simp
qed

section \<open>Properties\<close>

text \<open>
  C16. Base64 round trip. Every non-empty input below two gigabytes is recovered: what
  \<^verbatim>\<open>crypto_base64_encode\<close> returns is decoded by \<^verbatim>\<open>crypto_base64_decode\<close> to the input, and likewise
  for the URL alphabet without padding. The encoder never writes outside the block it allocated,
  with and without line breaks.
\<close>

theorem base64_roundtrip:
  assumes "data \<noteq> []" and "length data < 2 ^ 31" and "\<And>n. grants A n"
  shows "(\<exists>str. crypto_base64_encode A data = Done (Some str) () \<and>
      crypto_base64_decode A str = Done (Some data) ()) \<and>
    (\<exists>str. crypto_base64url_encode A data = Done (Some str) () \<and>
      crypto_base64url_decode A str = Done (Some data) ()) \<and>
    (\<exists>str. crypto_base64_encode_ex A data withCrLf = Done (Some str) ())"
  using assms std.decode_plain [OF assms(1), of A True] url.decode_plain [OF assms(1), of A False]
  by (simp add: crypto_base64_encode_def crypto_base64url_encode_def crypto_base64_encode_ex_def
      base64_encode_def crypto_base64_decode_def crypto_base64url_decode_def base64_encode_run b64_text_plain)

definition demo_memory :: "byte allocator" where
  "demo_memory = \<lparr>grants = \<lambda>_. True, garbage = \<lambda>_. 0xAA\<rparr>"

theorem base64_roundtrip_witness:
  "(\<exists>str. crypto_base64_encode demo_memory [0x52, 0x44, 0x50, 0x21] = Done (Some str) () \<and>
      crypto_base64_decode demo_memory str = Done (Some [0x52, 0x44, 0x50, 0x21]) ()) \<and>
   (\<exists>str. crypto_base64url_encode demo_memory [0x52, 0x44, 0x50, 0x21] = Done (Some str) () \<and>
      crypto_base64url_decode demo_memory str = Done (Some [0x52, 0x44, 0x50, 0x21]) ()) \<and>
   (\<exists>str. crypto_base64_encode_ex demo_memory [0x52, 0x44, 0x50, 0x21] True = Done (Some str) ())"
  by (rule base64_roundtrip) (simp_all add: demo_memory_def)

text \<open>
  C28. The decoders return on every input: no string, of any length and with any characters, makes
  them read outside the string or write outside the block they allocated. They answer with
  \<^verbatim>\<open>NULL\<close> or with at least one byte and at most three for each four characters begun.
\<close>

theorem base64_decoders_total:
  "(\<exists>r. crypto_base64_decode A str = Done r () \<and>
      (case r of None \<Rightarrow> True | Some bs \<Rightarrow> bs \<noteq> [] \<and> length bs \<le> (length str + 3) div 4 * 3)) \<and>
   (\<exists>r. crypto_base64url_decode A str = Done r () \<and>
      (case r of None \<Rightarrow> True | Some bs \<Rightarrow> bs \<noteq> [] \<and> length bs \<le> (length str + 3) div 4 * 3))"
  using base64_decode_total [of A dec_base64 str True] base64_decode_total [of A dec_base64url str False]
  by (auto simp: crypto_base64_decode_def crypto_base64url_decode_def split: option.splits)

end
