(* ===== verification/Tpkt.thy ===== *)
theory Tpkt
  imports Stream Memory
begin

text \<open>
  The framing headers below MCS: TPKT (\<^verbatim>\<open>libfreerdp/core/tpkt.c\<close>) and X.224 TPDU
  (\<^verbatim>\<open>libfreerdp/core/tpdu.c\<close>), all readers and writers, with their safety on arbitrary input and the
  round trip of a data frame through both.
\<close>

section \<open>TPKT\<close>

text \<open>
  A function that returns \<^verbatim>\<open>FALSE\<close> is a program that fails, its pointer results are its value.
\<close>

definition tpkt_verify_header :: "int sprog" where
  "tpkt_verify_header =
     or_value (- 1)
    (seq (Stream_CheckAndLogRequiredLength 1)
    (bind (stream_read_u8 False) (\<lambda>version. ret (if version = 3 then 1 else 0))))"

definition tpkt_read_header :: "u16 sprog" where
  "tpkt_read_header =
     seq (Stream_CheckAndLogRequiredLength 1)
    (bind (stream_read_u8 False) (\<lambda>version.
     if version = 3
     then
       seq (Stream_CheckAndLogRequiredLength 4)
      (seq (Stream_Seek 2)
      (bind (stream_read_u16_be True) (\<lambda>len.
       if len < 7 then fail
       else seq (Stream_CheckAndLogRequiredLength (unat len - 4)) (ret len))))
     else ret 0))"

definition tpkt_ensure_stream_consumed :: "nat \<Rightarrow> unit sprog" where
  "tpkt_ensure_stream_consumed len =
     (if len > 0xFFFF then fail
      else bind Stream_GetRemainingLength (\<lambda>rem. if rem > 0 then fail else ret ()))"

definition tpkt_write_header :: "u16 \<Rightarrow> unit sprog" where
  "tpkt_write_header len =
     seq (Stream_CheckAndLogRequiredCapacity 4)
    (seq (Stream_Write_UINT8 3)
    (seq (Stream_Write_UINT8 0)
         (Stream_Write_UINT16_BE len)))"

section \<open>X.224 TPDU\<close>

definition X224_TPDU_CONNECTION_REQUEST :: byte where "X224_TPDU_CONNECTION_REQUEST = 0xE0"
definition X224_TPDU_CONNECTION_CONFIRM :: byte where "X224_TPDU_CONNECTION_CONFIRM = 0xD0"
definition X224_TPDU_DISCONNECT_REQUEST :: byte where "X224_TPDU_DISCONNECT_REQUEST = 0x80"
definition X224_TPDU_DATA :: byte where "X224_TPDU_DATA = 0xF0"

lemmas x224_codes = X224_TPDU_CONNECTION_REQUEST_def X224_TPDU_CONNECTION_CONFIRM_def
  X224_TPDU_DISCONNECT_REQUEST_def X224_TPDU_DATA_def

text \<open>The value is the pair of the code and the length indicator.\<close>

definition tpdu_read_header :: "u16 \<Rightarrow> (byte \<times> byte) sprog" where
  "tpdu_read_header tpktlength =
     seq (Stream_CheckAndLogRequiredLength 3)
    (bind (stream_read_u8 True) (\<lambda>li.
     bind (stream_read_u8 True) (\<lambda>code.
     if unat li + 4 > unat tpktlength then fail
     else if code = X224_TPDU_DATA then seq (Stream_Seek 1) (ret (code, li))
     else seq (Stream_SafeSeek 5) (ret (code, li)))))"

definition tpdu_write_header :: "u16 \<Rightarrow> byte \<Rightarrow> unit sprog" where
  "tpdu_write_header len code =
     seq (Stream_CheckAndLogRequiredCapacity 3)
    (seq (Stream_Write_UINT8 (ucast len))
    (seq (Stream_Write_UINT8 code)
    (if code = X224_TPDU_DATA then Stream_Write_UINT8 0x80
     else
       seq (Stream_CheckAndLogRequiredCapacity 5)
      (seq (Stream_Write_UINT16 0)
      (seq (Stream_Write_UINT16 0)
           (Stream_Write_UINT8 0))))))"

definition tpdu_read_connection_request :: "u16 \<Rightarrow> byte sprog" where
  "tpdu_read_connection_request tpktlength =
     bind (tpdu_read_header tpktlength) (\<lambda>(code, li).
     if code \<noteq> X224_TPDU_CONNECTION_REQUEST then fail else ret li)"

definition tpdu_write_connection_request :: "u16 \<Rightarrow> unit sprog" where
  "tpdu_write_connection_request len = tpdu_write_header len X224_TPDU_CONNECTION_REQUEST"

text \<open>The last check subtracts \<^verbatim>\<open>size_t\<close> values: it wraps around for a small length indicator.\<close>

definition tpdu_read_connection_confirm :: "u16 \<Rightarrow> byte sprog" where
  "tpdu_read_connection_confirm tpktlength =
     bind Stream_GetPosition (\<lambda>position.
     bind (tpdu_read_header tpktlength) (\<lambda>(code, li).
     if code \<noteq> X224_TPDU_CONNECTION_CONFIRM then fail
     else bind Stream_GetPosition (\<lambda>now.
          let bytes_read = sub64 (sub64 now position) 1 in
          seq (Stream_CheckAndLogRequiredLength (sub64 (unat li) bytes_read)) (ret li))))"

definition tpdu_write_connection_confirm :: "u16 \<Rightarrow> unit sprog" where
  "tpdu_write_connection_confirm len = tpdu_write_header len X224_TPDU_CONNECTION_CONFIRM"

definition tpdu_write_disconnect_request :: "u16 \<Rightarrow> unit sprog" where
  "tpdu_write_disconnect_request len = tpdu_write_header len X224_TPDU_DISCONNECT_REQUEST"

definition tpdu_write_data :: "unit sprog" where
  "tpdu_write_data = tpdu_write_header 2 X224_TPDU_DATA"

definition tpdu_read_data :: "u16 \<Rightarrow> u16 sprog" where
  "tpdu_read_data tpktlength =
     bind (tpdu_read_header tpktlength) (\<lambda>(code, li).
     if code \<noteq> X224_TPDU_DATA then fail else ret (ucast li))"

section \<open>Safety\<close>

lemma reader_tpkt_verify [reader_intros]: "reader k tpkt_verify_header 0"
proof -
  have "reader k (seq (Stream_CheckAndLogRequiredLength 1)
    (bind (stream_read_u8 False) (\<lambda>version. ret (if version = 3 then 1 else 0 :: int)))) 0"
    by (rule reader_intros reader_last | simp)+
  then show ?thesis unfolding tpkt_verify_header_def by (rule reader_or_value)
qed

lemma reader_tpkt_read [reader_intros]: "reader k tpkt_read_header 0"
  unfolding tpkt_read_header_def by (rule reader_intros reader_last | simp)+

lemma reader_tpdu_header [reader_intros]: "reader k (tpdu_read_header n) 0"
  unfolding tpdu_read_header_def by (rule reader_intros reader_last | simp)+

lemma reader_tpdu_request [reader_intros]: "reader k (tpdu_read_connection_request n) 0"
  unfolding tpdu_read_connection_request_def by (rule reader_intros | simp)+

lemma reader_tpdu_confirm [reader_intros]: "reader k (tpdu_read_connection_confirm n) 0"
  unfolding tpdu_read_connection_confirm_def Let_def by (rule reader_intros reader_last | simp)+

lemma reader_tpdu_data [reader_intros]: "reader k (tpdu_read_data n) 0"
  unfolding tpdu_read_data_def by (rule reader_intros | simp)+

section \<open>Framing\<close>

definition enc_tpkt :: "u16 \<Rightarrow> byte list" where
  "enc_tpkt len = [3, 0] @ bytes_be 2 (unat len)"

lemma length_enc_tpkt [simp]: "length (enc_tpkt len) = 4"
  by (simp add: enc_tpkt_def)

lemma tpkt_write_put [stream_write]:
  "stream_ok s \<Longrightarrow> 4 \<le> room s \<Longrightarrow> tpkt_write_header len s = Done () (put (enc_tpkt len) s)"
  by (simp add: tpkt_write_header_def enc_tpkt_def stream_write)

lemma tpkt_read_enc:
  assumes "read_ok s" and "rem s = enc_tpkt len @ r" and "7 \<le> unat len" and "unat len - 4 \<le> length r"
  shows "tpkt_read_header s = Done len (adv 4 s)"
proof -
  have "\<not> len < 7" using assms(3) by (simp add: word_less_nat_alt)
  moreover have "rem s = 3 # 0 # bytes_be 2 (unat len) @ r"
    using assms(2) by (simp add: enc_tpkt_def)
  ultimately show ?thesis
    using assms(1,4)
    by (simp add: tpkt_read_header_def stream_read nat_be_bytes_be numeral_2_eq_2 [symmetric])
qed

definition enc_tpdu_data :: "byte list" where
  "enc_tpdu_data = [2, X224_TPDU_DATA, 0x80]"

lemma tpdu_write_data_put [stream_write]:
  "stream_ok s \<Longrightarrow> 3 \<le> room s \<Longrightarrow> tpdu_write_data s = Done () (put enc_tpdu_data s)"
  by (simp add: tpdu_write_data_def tpdu_write_header_def enc_tpdu_data_def stream_write)

lemma tpdu_read_data_enc:
  assumes "read_ok s" and "rem s = enc_tpdu_data @ r" and "6 \<le> unat len"
  shows "tpdu_read_data len s = Done 2 (adv 3 s)"
  using assms
  by (simp add: tpdu_read_data_def tpdu_read_header_def enc_tpdu_data_def stream_read numeral_3_eq_3)

text \<open>The layout of a connection confirm and what the length indicator must satisfy.\<close>

lemma tpdu_header_run:
  assumes "read_ok s" and "rem s = li # code # d1 # d2 # d3 # d4 # d5 # r"
  shows "tpdu_read_header len s =
    (if unat li + 4 > unat len then Failed (adv 2 s)
     else if code = X224_TPDU_DATA then Done (code, li) (adv 3 s)
     else Done (code, li) (adv 7 s))"
proof -
  have *: "Suc (Suc 0) = 2" "Suc 2 = 3" "2 + 5 = (7 :: nat)" by simp_all
  show ?thesis
    using assms by (simp add: tpdu_read_header_def stream_read *)
qed

lemma tpdu_confirm_run:
  assumes "read_ok s" and "rem s = li # code # d1 # d2 # d3 # d4 # d5 # r"
  shows "tpdu_read_connection_confirm len s =
    (if unat li + 4 > unat len then Failed (adv 2 s)
     else if code = X224_TPDU_DATA then Failed (adv 3 s)
     else if code \<noteq> X224_TPDU_CONNECTION_CONFIRM \<or> unat li < 6 \<or> length r < unat li - 6 then Failed (adv 7 s)
     else Done li (adv 7 s))"
proof -
  have small: "pointer s + 7 + length r < 2 ^ 64"
    using assms length_rem [OF assms(1)] by (auto simp: read_ok_def stream_ok_def)
  have "pointer (adv 7 s) = pointer s + 7" by (simp add: adv_def)
  then have now: "sub64 (sub64 (pointer (adv 7 s)) (pointer s)) 1 = 6"
    using small by (simp add: sub64_id)
  have li: "length r < sub64 (unat li) 6 \<longleftrightarrow> unat li < 6 \<or> length r < unat li - 6"
  proof (cases "unat li < 6")
    case True
    then have "unat li + (2 ^ 64 - 6) < 2 ^ 64" by simp
    then have "sub64 (unat li) 6 = unat li + (2 ^ 64 - 6)" unfolding sub64_def by (rule mod_less)
    with True small show ?thesis by simp
  next
    case False
    moreover have "unat li < 2 ^ 64" using byte_less [of li] by (simp del: byte_less)
    ultimately have "sub64 (unat li) 6 = unat li - 6" by (intro sub64_id) simp_all
    with False show ?thesis by simp
  qed
  have "rem (adv 7 s) = r" "read_ok (adv 7 s)" using assms by (simp_all add: eval_nat_numeral)
  then have "Stream_CheckAndLogRequiredLength (sub64 (unat li) 6) (adv 7 s) =
      (if unat li < 6 \<or> length r < unat li - 6 then Failed (adv 7 s) else Done () (adv 7 s))"
    using li by (simp only: check_length)
  then show ?thesis
    using tpdu_header_run [OF assms, of len] now
    by (auto simp: tpdu_read_connection_confirm_def position_run Let_def x224_codes)
qed

section \<open>Properties\<close>

text \<open>
  C29. The TPKT and X.224 readers are safe on arbitrary input: they neither abort nor read outside
  the buffer and only move the pointer forward inside the unread bytes.
\<close>

theorem tpkt_tpdu_readers_safe:
  "reader 0 tpkt_verify_header 0 \<and> reader 0 tpkt_read_header 0 \<and> reader 0 (tpdu_read_header n) 0 \<and>
   reader 0 (tpdu_read_connection_request n) 0 \<and> reader 0 (tpdu_read_connection_confirm n) 0 \<and>
   reader 0 (tpdu_read_data n) 0"
  by (simp add: reader_intros)

text \<open>
  C31. A data frame survives its two headers: payload of at most 65528 bytes is written behind a
  TPKT and a data TPDU header; reading the headers back gives the length of the whole frame and
  the length indicator 2, and leaves exactly the payload.
\<close>

theorem x224_frame_roundtrip:
  assumes "stream_ok s" and "length bs + 7 \<le> 0xFFFF" and "pointer s + 7 + length bs \<le> s_length s"
  shows "\<exists>s'. seq (tpkt_write_header (word_of_nat (length bs + 7)))
      (seq tpdu_write_data (Stream_Write bs)) s = Done () s' \<and>
    bind tpkt_read_header (\<lambda>n. bind (tpdu_read_data n) (\<lambda>li.
      bind (Stream_Read (unat n - 7)) (\<lambda>payload. ret (n, li, payload)))) (s'\<lparr>pointer := pointer s\<rparr>) =
      Done (word_of_nat (length bs + 7), 2, bs) s'"
proof -
  let ?n = "word_of_nat (length bs + 7) :: u16"
  let ?e = "enc_tpkt ?n @ enc_tpdu_data @ bs"
  let ?t = "(put ?e s)\<lparr>pointer := pointer s\<rparr>"
  have n: "unat ?n = length bs + 7" using assms(2) by (simp only: unat_of_nat) simp
  have len: "length ?e = 7 + length bs" by (simp add: enc_tpdu_data_def)
  then have le: "pointer s + length ?e \<le> s_length s" using assms(3) by simp
  note rew = put_rewound [OF assms(1) le]
  obtain r where r: "rem ?t = ?e @ r" using rew(2) by blast
  have "seq (tpkt_write_header ?n) (seq tpdu_write_data (Stream_Write bs)) s = Done () (put ?e s)"
    using assms(1) rew(3) len by (simp add: stream_write enc_tpdu_data_def del: of_nat_add)
  moreover have "tpkt_read_header ?t = Done ?n (adv 4 ?t)"
    using rew(1) r n by (intro tpkt_read_enc [of _ _ "enc_tpdu_data @ bs @ r"]) (simp_all add: enc_tpdu_data_def)
  moreover have "tpdu_read_data ?n (adv 4 ?t) = Done 2 (adv 3 (adv 4 ?t))"
    using rew(1) r n by (intro tpdu_read_data_enc [of _ "bs @ r"]) simp_all
  moreover have "Stream_Read (unat ?n - 7) (adv 3 (adv 4 ?t)) = Done bs (adv (7 + length bs) ?t)"
    using rew(1) r n by (subst read_bytes) (simp_all add: enc_tpdu_data_def)
  moreover have "adv (7 + length bs) ?t = put ?e s" using rew(4) len by simp
  ultimately show ?thesis by (simp del: of_nat_add adv_adv)
qed

theorem x224_frame_roundtrip_witness:
  "\<exists>s'. seq (tpkt_write_header (word_of_nat (length [0x64, 0x00 :: byte] + 7)))
      (seq tpdu_write_data (Stream_Write [0x64, 0x00])) (demo_stream 16) = Done () s' \<and>
    bind tpkt_read_header (\<lambda>n. bind (tpdu_read_data n) (\<lambda>li.
      bind (Stream_Read (unat n - 7)) (\<lambda>payload. ret (n, li, payload)))) (s'\<lparr>pointer := pointer (demo_stream 16)\<rparr>) =
      Done (word_of_nat (length [0x64, 0x00 :: byte] + 7), 2, [0x64, 0x00]) s'"
  by (rule x224_frame_roundtrip) simp_all

text \<open>
  The length indicator of a connection confirm is checked exactly: with at least seven bytes
  at hand the confirm is accepted if and only if its code is the confirm code, the indicator plus
  the TPKT header fits the announced TPKT length, it is at least the six bytes that follow it in
  the fixed part, and the variable part it announces has been received. The wrap-around of the
  unsigned subtraction never accepts a smaller indicator.
\<close>

theorem tpdu_confirm_accepted_iff:
  assumes "read_ok s" and "rem s = li # code # d1 # d2 # d3 # d4 # d5 # r"
  shows "(\<exists>v s'. tpdu_read_connection_confirm len s = Done v s') \<longleftrightarrow>
    code = X224_TPDU_CONNECTION_CONFIRM \<and> unat li + 4 \<le> unat len \<and> 6 \<le> unat li \<and> unat li - 6 \<le> length r"
  using tpdu_confirm_run [OF assms, of len] by (auto simp: x224_codes)

theorem tpdu_confirm_accepted_iff_witness:
  "(\<exists>v s'. tpdu_read_connection_confirm 11
      (Stream_StaticInit (\<lambda>_. True) [6, 0xD0, 0, 0, 0, 0, 0] 7) = Done v s') \<longleftrightarrow>
    (0xD0 :: byte) = X224_TPDU_CONNECTION_CONFIRM \<and> unat (6 :: byte) + 4 \<le> unat (11 :: u16) \<and>
    6 \<le> unat (6 :: byte) \<and> unat (6 :: byte) - 6 \<le> length ([] :: byte list)"
  by (rule tpdu_confirm_accepted_iff)
    (simp_all add: read_ok_def stream_ok_def rem_def Stream_StaticInit_def)

end
