(* ===== verification/Transport.thy ===== *)
theory Transport
  imports BufferedBio StreamPool
begin

text \<open>
  The receive side of the transport, \<^verbatim>\<open>libfreerdp/core/transport.c\<close>: the parsers that find the
  length of a PDU in the default, NLA and RDSTLS modes (\<^verbatim>\<open>rdstls.c\<close>), the reads from the front BIO,
  the reader of one PDU in all its modes, and the event loop's \<^verbatim>\<open>transport_check_fds\<close> with the
  stream pool and the receive callback. The lemmas follow the bytes: what has been received,
  what is still to come, and that together they are never lost, duplicated or reordered, down to
  the socket below the buffered BIO.
\<close>

section \<open>Finding the length of a PDU\<close>

text \<open>
  The parsers work on a constant stream over the received bytes and return \<open>0\<close> when there are too
  few of them. \<open>on_received m\<close> runs \<open>m\<close> on such a stream; \<open>need n\<close> is the test before each read.
\<close>

definition on_received :: "'a sprog \<Rightarrow> 'a sprog" where
  "on_received m stream =
     (case m (Stream_StaticInit (malloc_ok stream) (take (s_length stream) (buffer stream)) (s_length stream)) of
        Done v _ \<Rightarrow> Done v stream
      | Failed _ \<Rightarrow> Failed stream
      | Fault e \<Rightarrow> Fault e)"

definition need :: "nat \<Rightarrow> unit sprog" where
  "need n = bind Stream_GetRemainingLength (\<lambda>r. if r < n then fail else ret ())"

definition nla_mode_length :: "int sprog" where
  "nla_mode_length =
     seq (need 1)
    (bind (stream_read_u8 True) (\<lambda>typeEncoding.
     if typeEncoding = 0x30
     then
       seq (need 1)
      (bind (stream_read_u8 True) (\<lambda>lengthEncoding.
       if lengthEncoding AND 0x80 \<noteq> 0
       then
         if lengthEncoding AND NOT 0x80 = 1
         then seq (need 1) (bind (stream_read_u8 True) (\<lambda>len. ret (uint len + 3)))
         else if lengthEncoding AND NOT 0x80 = 2
         then seq (need 2) (bind (stream_read_u16_be True) (\<lambda>len. ret (uint len + 4)))
         else ret (- 1)
       else ret (uint lengthEncoding + 2)))
     else ret 0))"

definition parse_nla_mode_pdu :: "int sprog" where
  "parse_nla_mode_pdu = on_received (or_value 0 nla_mode_length)"

definition default_mode_length :: "int sprog" where
  "default_mode_length =
     seq (need 1)
    (bind (stream_read_u8 True) (\<lambda>version.
     if version = 0x03
     then
       seq (need 3)
      (seq (Stream_Seek 1)
      (bind (stream_read_u16_be True) (\<lambda>len.
       let pduLength = uint len in
       if pduLength < 7 \<or> pduLength > 0xFFFF then ret (- 1) else ret pduLength)))
     else
       seq (need 1)
      (bind (stream_read_u8 True) (\<lambda>length1.
       bind (if length1 AND 0x80 \<noteq> 0
             then seq (need 1) (bind (stream_read_u8 True) (\<lambda>length2.
                  ret (push_bit 8 (uint (length1 AND 0x7F)) OR uint length2)))
             else ret (uint length1)) (\<lambda>pduLength.
       if pduLength < 3 \<or> pduLength > 0x8000 then ret (- 1) else ret pduLength)))))"

definition parse_default_mode_pdu :: "int sprog" where
  "parse_default_mode_pdu = on_received (or_value 0 default_mode_length)"

definition RDSTLS_VERSION_1 :: u16 where "RDSTLS_VERSION_1 = 0x01"
definition RDSTLS_TYPE_CAPABILITIES :: u16 where "RDSTLS_TYPE_CAPABILITIES = 0x01"
definition RDSTLS_TYPE_AUTHREQ :: u16 where "RDSTLS_TYPE_AUTHREQ = 0x02"
definition RDSTLS_TYPE_AUTHRSP :: u16 where "RDSTLS_TYPE_AUTHRSP = 0x04"
definition RDSTLS_DATA_PASSWORD_CREDS :: u16 where "RDSTLS_DATA_PASSWORD_CREDS = 0x01"
definition RDSTLS_DATA_AUTORECONNECT_COOKIE :: u16 where "RDSTLS_DATA_AUTORECONNECT_COOKIE = 0x02"

text \<open>A counted field of the password credentials is skipped.\<close>

definition skip_counted :: "unit sprog" where
  "skip_counted =
     seq (need 2)
    (bind (stream_read_u16_le True) (\<lambda>len.
     seq (need (unat len)) (Stream_Seek (unat len))))"

definition rdstls_parse_pdu_data_type :: "u16 \<Rightarrow> int sprog" where
  "rdstls_parse_pdu_data_type dataType =
     (if dataType = RDSTLS_DATA_PASSWORD_CREDS
      then
        seq skip_counted
       (seq skip_counted
       (seq skip_counted
       (seq (need 2)
       (bind (stream_read_u16_le True) (\<lambda>passwordLength.
        bind Stream_GetPosition (\<lambda>pos. ret (int pos + uint passwordLength)))))))
      else if dataType = RDSTLS_DATA_AUTORECONNECT_COOKIE
      then
        seq (need 4)
       (seq (Stream_Seek 4)
       (seq (need 2)
       (bind (stream_read_u16_le True) (\<lambda>cookieLength. ret (12 + uint cookieLength)))))
      else ret (- 1))"

definition rdstls_length :: "int sprog" where
  "rdstls_length =
     seq (need 2)
    (bind (stream_read_u16_le True) (\<lambda>version.
     if version \<noteq> RDSTLS_VERSION_1 then ret (- 1)
     else
       seq (need 2)
      (bind (stream_read_u16_le True) (\<lambda>pduType.
       if pduType = RDSTLS_TYPE_CAPABILITIES then ret 8
       else if pduType = RDSTLS_TYPE_AUTHREQ
       then seq (need 2) (bind (stream_read_u16_le True) rdstls_parse_pdu_data_type)
       else if pduType = RDSTLS_TYPE_AUTHRSP then ret 10
       else ret (- 1)))))"

definition rdstls_parse_pdu :: "int sprog" where
  "rdstls_parse_pdu = on_received (or_value 0 rdstls_length)"

section \<open>The transport\<close>

datatype TRANSPORT_LAYER = TRANSPORT_LAYER_TCP | TRANSPORT_LAYER_TLS | TRANSPORT_LAYER_NAMEDPIPE
  | TRANSPORT_LAYER_TSG | TRANSPORT_LAYER_TSG_TLS | TRANSPORT_LAYER_CLOSED

text \<open>
  The part of \<^verbatim>\<open>rdp_transport\<close> that receiving and sending a PDU touch, with the byte counters, the
  setting \<^verbatim>\<open>WaitForOutputBufferFlush\<close> and the last error of its context. The content of the stream that is being filled is \<open>ReceiveBuffer\<close>, its address in
  the pool \<open>ReceiveAddress\<close>, \<open>None\<close> when the pointer is \<^verbatim>\<open>NULL\<close>. \<open>front_ops\<close> are the calls \<^verbatim>\<open>BIO_read\<close>,
  \<^verbatim>\<open>BIO_should_retry\<close> and \<^verbatim>\<open>BIO_wait_read\<close> on the front BIO, whose state has type \<open>'n\<close>; the answer of
  \<^verbatim>\<open>freerdp_shall_disconnect_context\<close> is read off that state too.
\<close>

record 'n front_ops =
  front_read :: "'n \<Rightarrow> nat \<Rightarrow> int \<times> byte list \<times> 'n"
  front_should_retry :: "'n \<Rightarrow> bool"
  front_wait_read :: "'n \<Rightarrow> int \<times> 'n"
  shall_disconnect :: "'n \<Rightarrow> bool"

record ('n, 'e) rdp_transport =
  layer :: TRANSPORT_LAYER
  frontBio :: "'n option"
  ReceiveBuffer :: wStream
  ReceiveAddress :: "nat pointer"
  ReceivePool :: wStreamPool
  ReceiveExtra :: 'e
  NlaMode :: bool
  RdstlsMode :: bool
  AadMode :: bool
  earlyUserAuth :: bool
  blocking :: bool
  haveMoreBytesToRead :: bool
  inBytes :: u64
  connect_failed :: bool
  written :: u32
  outBytes :: u64
  WaitForOutputBufferFlush :: bool

type_synonym ('n, 'e, 'a) tprog = "(('n, 'e) rdp_transport, 'a) prog"

text \<open>A program on the receive buffer.\<close>

definition on_buffer :: "'a sprog \<Rightarrow> ('n, 'e, 'a) tprog" where
  "on_buffer m t =
     (case m (ReceiveBuffer t) of
        Done v s \<Rightarrow> Done v (t\<lparr>ReceiveBuffer := s\<rparr>)
      | Failed s \<Rightarrow> Failed (t\<lparr>ReceiveBuffer := s\<rparr>)
      | Fault e \<Rightarrow> Fault e)"

text \<open>
  \<^verbatim>\<open>transport_parse_pdu\<close>: the result is the returned \<^verbatim>\<open>SSIZE_T\<close> and \<^verbatim>\<open>*incomplete\<close>. The length passes
  through a \<^verbatim>\<open>size_t\<close>.
\<close>

definition transport_parse_pdu :: "('n, 'e, int \<times> bool) tprog" where
  "transport_parse_pdu =
     seq (on_buffer Stream_SealLength)
    (bind (gets (\<lambda>t. (NlaMode t, RdstlsMode t))) (\<lambda>(nla, rdstls).
     bind (on_buffer (if nla then parse_nla_mode_pdu
                      else if rdstls then rdstls_parse_pdu
                      else parse_default_mode_pdu)) (\<lambda>v.
     let pduLength = (word_of_int v :: u64) in
     if pduLength = 0 then ret (0, True)
     else bind (gets (\<lambda>t. s_length (ReceiveBuffer t))) (\<lambda>len.
          if len > unat pduLength then ret (- 1, True)
          else ret (sint pduLength, len < unat pduLength)))))"

definition transport_fail :: "('n, 'e) rdp_transport \<Rightarrow> ('n, 'e) rdp_transport" where
  "transport_fail t = t\<lparr>layer := TRANSPORT_LAYER_CLOSED, connect_failed := True\<rparr>"

text \<open>
  The loop of \<^verbatim>\<open>transport_read_layer\<close>: \<open>acc\<close> are the bytes stored so far, the result is the returned
  status with the bytes stored; \<open>None\<close> is a loop that never ends.
\<close>

partial_function (option) read_layer_loop ::
    "'n front_ops \<Rightarrow> nat \<Rightarrow> byte list \<Rightarrow> 'n \<Rightarrow> ('n, 'e) rdp_transport \<Rightarrow>
     (int \<times> byte list \<times> ('n, 'e) rdp_transport) option" where
  "read_layer_loop B bytes acc n t =
     (if length acc < bytes
      then
        (let tr = bytes - length acc;
             r = (if tr > 2147483647 then 2147483647 else tr)
         in case front_read B n r of (status, bs, n') \<Rightarrow>
              let t1 = t\<lparr>frontBio := Some n'\<rparr> in
              if shall_disconnect B n' then Some (- 1, acc, t1)
              else if status \<le> 0
              then
                if \<not> front_should_retry B n' then Some (- 1, acc, transport_fail t1)
                else if \<not> blocking t then Some (int (length acc), acc, t1)
                else (case front_wait_read B n' of (w, n'') \<Rightarrow>
                        let t2 = t\<lparr>frontBio := Some n''\<rparr> in
                        if w < 0 then Some (- 1, acc, t2)
                        else read_layer_loop B bytes acc n'' t2)
              else read_layer_loop B bytes (acc @ bs) n'
                     (t1\<lparr>inBytes := inBytes t + word_of_int status\<rparr>))
      else Some (int (length acc), acc, t))"

definition transport_read_layer ::
    "'n front_ops \<Rightarrow> nat \<Rightarrow> ('n, 'e) rdp_transport \<Rightarrow> (int \<times> byte list \<times> ('n, 'e) rdp_transport) option" where
  "transport_read_layer B bytes t =
     (case frontBio t of
        None \<Rightarrow> Some (- 1, [], transport_fail t)
      | Some n \<Rightarrow>
          if bytes > 9223372036854775807 then Some (- 1, [], transport_fail t)
          else read_layer_loop B bytes [] n t)"

definition transport_read_layer_bytes :: "'n front_ops \<Rightarrow> nat \<Rightarrow> ('n, 'e, int) tprog" where
  "transport_read_layer_bytes B toRead t =
     (if toRead > 9223372036854775807 then Done 0 t
      else case transport_read_layer B toRead t of
             None \<Rightarrow> Fault NonTermination
           | Some (status, bs, t1) \<Rightarrow>
               seq (on_buffer (store bs))
              (if status \<le> 0 then ret status
               else seq (on_buffer (Stream_Seek (nat status)))
                        (ret (if status = int toRead then 1 else 0))) t1)"

text \<open>The loop of the AAD mode, which ends behind a zero byte.\<close>

partial_function (option) aad_loop ::
    "'n front_ops \<Rightarrow> ('n, 'e) rdp_transport \<Rightarrow> (('n, 'e) rdp_transport, int) outcome option" where
  "aad_loop B t =
     (case transport_read_layer B 1 t of
        None \<Rightarrow> Some (Fault NonTermination)
      | Some (rc, bs, t1) \<Rightarrow>
          if rc \<noteq> 1 then Some (Done rc t1)
          else (case on_buffer (Stream_EnsureRemainingCapacity 1) t1 of
                  Fault e \<Rightarrow> Some (Fault e)
                | Failed t2 \<Rightarrow> Some (Done (- 1) t2)
                | Done _ t2 \<Rightarrow>
                    (case on_buffer (Stream_Write_UINT8 (bs ! 0)) t2 of
                       Fault e \<Rightarrow> Some (Fault e)
                     | Failed t3 \<Rightarrow> Some (Failed t3)
                     | Done _ t3 \<Rightarrow> if bs ! 0 \<noteq> 0 then aad_loop B t3 else Some (Done 1 t3))))"

text \<open>
  The loop that reads a byte at a time until the length of the PDU is known; \<open>Inl rc\<close> is the return
  value of an early return, \<open>Inr status\<close> the status behind the loop.
\<close>

partial_function (option) header_loop ::
    "'n front_ops \<Rightarrow> int \<Rightarrow> bool \<Rightarrow> ('n, 'e) rdp_transport \<Rightarrow> (('n, 'e) rdp_transport, int + int) outcome option" where
  "header_loop B status incomplete t =
     (if status = 0 \<and> incomplete
      then
        (case on_buffer (Stream_EnsureRemainingCapacity 1) t of
           Fault e \<Rightarrow> Some (Fault e)
         | Failed t1 \<Rightarrow> Some (Done (Inl (- 1)) t1)
         | Done _ t1 \<Rightarrow>
             (case transport_read_layer_bytes B 1 t1 of
                Fault e \<Rightarrow> Some (Fault e)
              | Failed t2 \<Rightarrow> Some (Failed t2)
              | Done rc t2 \<Rightarrow>
                  if rc \<noteq> 1 then Some (Done (Inl rc) t2)
                  else (case transport_parse_pdu t2 of
                          Fault e \<Rightarrow> Some (Fault e)
                        | Failed t3 \<Rightarrow> Some (Failed t3)
                        | Done p t3 \<Rightarrow> header_loop B (fst p) (snd p) t3)))
      else Some (Done (Inr status) t))"

definition run_loop :: "('s \<Rightarrow> ('s, 'a) outcome option) \<Rightarrow> ('s, 'a) prog" where
  "run_loop f s = (case f s of None \<Rightarrow> Fault NonTermination | Some r \<Rightarrow> r)"

text \<open>Sealing a finished PDU.\<close>

definition finish_pdu :: "('n, 'e, int) tprog" where
  "finish_pdu =
     seq (on_buffer Stream_SealLength)
    (seq (on_buffer (or_value () (Stream_SetPosition 0)))
         (gets (\<lambda>t. sint (word_of_nat (s_length (ReceiveBuffer t)) :: u32))))"

definition read_rest :: "'n front_ops \<Rightarrow> nat \<Rightarrow> ('n, 'e, int) tprog" where
  "read_rest B pduLength =
     or_value (- 1)
    (seq (on_buffer (Stream_EnsureCapacity pduLength))
    (bind (gets (\<lambda>t. pointer (ReceiveBuffer t))) (\<lambda>position.
     if position > pduLength then ret (- 1)
     else bind (transport_read_layer_bytes B (pduLength - position)) (\<lambda>status.
          if status \<noteq> 1 then ret status else finish_pdu))))"

definition transport_default_read_pdu :: "'n front_ops \<Rightarrow> ('n, 'e, int) tprog" where
  "transport_default_read_pdu B =
     bind (gets (\<lambda>t. (AadMode t, earlyUserAuth t))) (\<lambda>(aad, early).
     if aad
     then bind (run_loop (aad_loop B)) (\<lambda>rc. if rc \<noteq> 1 then ret rc else finish_pdu)
     else if early
     then
       or_value (- 1)
      (seq (on_buffer (Stream_EnsureCapacity 4))
      (bind (transport_read_layer_bytes B 4) (\<lambda>rc. if rc \<noteq> 1 then ret rc else finish_pdu)))
     else
       bind transport_parse_pdu (\<lambda>(status, incomplete).
       bind (run_loop (header_loop B status incomplete)) (\<lambda>r.
       case r of
         Inl rc \<Rightarrow> ret rc
       | Inr status \<Rightarrow> if status < 0 then ret (- 1) else read_rest B (nat status))))"

section \<open>Receiving\<close>

datatype state_run_t = STATE_RUN_ACTIVE | STATE_RUN_REDIRECT | STATE_RUN_SUCCESS | STATE_RUN_FAILED
  | STATE_RUN_QUIT_SESSION | STATE_RUN_TRY_AGAIN | STATE_RUN_CONTINUE

fun state_value :: "state_run_t \<Rightarrow> int" where
  "state_value STATE_RUN_ACTIVE = 2"
| "state_value STATE_RUN_REDIRECT = 1"
| "state_value STATE_RUN_SUCCESS = 0"
| "state_value STATE_RUN_FAILED = - 1"
| "state_value STATE_RUN_QUIT_SESSION = - 2"
| "state_value STATE_RUN_TRY_AGAIN = - 23"
| "state_value STATE_RUN_CONTINUE = - 24"

fun state_run_failed :: "state_run_t \<Rightarrow> bool" where
  "state_run_failed STATE_RUN_FAILED = True"
| "state_run_failed STATE_RUN_QUIT_SESSION = True"
| "state_run_failed _ = False"

definition transport_read_pdu :: "'n front_ops \<Rightarrow> ('n, 'e, int) tprog" where
  "transport_read_pdu B =
     seq (assert_that (\<lambda>t. ReceiveAddress t \<noteq> None)) (transport_default_read_pdu B)"

text \<open>
  A program on the receive pool. \<open>check_in\<close> writes the content of the stream just filled back behind
  its address, \<open>check_out a\<close> makes the stream at \<open>a\<close> the one to fill.
\<close>

definition on_pool :: "'a poolprog \<Rightarrow> ('n, 'e, 'a) tprog" where
  "on_pool m t =
     (case m (ReceivePool t) of
        Done v p \<Rightarrow> Done v (t\<lparr>ReceivePool := p\<rparr>)
      | Failed p \<Rightarrow> Failed (t\<lparr>ReceivePool := p\<rparr>)
      | Fault e \<Rightarrow> Fault e)"

definition check_in :: "('n, 'e, unit) tprog" where
  "check_in =
     bind (gets (\<lambda>t. (ReceiveAddress t, ReceiveBuffer t))) (\<lambda>(a, s).
     on_pool (assign a (\<lambda>x. x\<lparr>p_stream := s\<rparr>)))"

definition check_out :: "nat pointer \<Rightarrow> ('n, 'e, unit) tprog" where
  "check_out a =
     (case a of
        None \<Rightarrow> modify (\<lambda>t. t\<lparr>ReceiveAddress := None\<rparr>)
      | Some _ \<Rightarrow> bind (on_pool (deref a)) (\<lambda>x.
          modify (\<lambda>t. t\<lparr>ReceiveAddress := a, ReceiveBuffer := p_stream x\<rparr>)))"

text \<open>
  \<^verbatim>\<open>transport_check_fds\<close>: the receive callback gets the stream by its address and may change the
  transport; \<^verbatim>\<open>ReceiveExtra\<close> is its own state.
\<close>

type_synonym ('n, 'e) TransportRecv =
  "nat pointer \<Rightarrow> ('n, 'e) rdp_transport \<Rightarrow> state_run_t \<times> ('n, 'e) rdp_transport"

definition transport_check_fds ::
    "nat pointer allocator \<Rightarrow> byte allocator \<Rightarrow> 'n front_ops \<Rightarrow> ('n, 'e) TransportRecv \<Rightarrow> ('n, 'e, int) tprog" where
  "transport_check_fds A M B ReceiveCallback =
     bind (gets layer) (\<lambda>l.
     if l = TRANSPORT_LAYER_CLOSED
     then seq (modify (\<lambda>t. t\<lparr>connect_failed := True\<rparr>)) (ret (- 1))
     else
       bind (transport_read_pdu B) (\<lambda>status.
       if status \<le> 0
       then seq (modify (\<lambda>t. t\<lparr>haveMoreBytesToRead := False\<rparr>)) (ret status)
       else
         bind (gets ReceiveAddress) (\<lambda>received.
         seq check_in
        (bind (on_pool (StreamPool_Take A M 0)) (\<lambda>fresh.
         seq (check_out fresh)
        (if fresh = None then ret (- 1)
         else
           bind (\<lambda>t. case ReceiveCallback received t of (r, t') \<Rightarrow> Done r t') (\<lambda>recv_status.
           seq (on_pool (Stream_Release A received))
          (if state_run_failed recv_status then ret (- 1)
           else seq (modify (\<lambda>t. t\<lparr>haveMoreBytesToRead := True\<rparr>))
                    (ret (state_value recv_status))))))))))"

section \<open>The front BIO of a plain connection\<close>

text \<open>
  The calls of \<^verbatim>\<open>transport_read_layer\<close> when the front BIO is, on a connection without TLS, the buffered BIO
  on the socket BIO: \<open>os_wait\<close> is the poll behind \<^verbatim>\<open>BIO_wait_read\<close>, \<open>stop\<close> the answer of
  \<^verbatim>\<open>freerdp_shall_disconnect_context\<close>.
\<close>

definition tcp_front ::
    "'k os_send \<Rightarrow> 'k os_recv \<Rightarrow> ('k \<Rightarrow> int \<times> 'k) \<Rightarrow> ('k \<Rightarrow> bool) \<Rightarrow> 'k simple_bio buffered_bio front_ops" where
  "tcp_front os_s os_r os_wait stop =
     \<lparr>front_read = (\<lambda>st n. transport_bio_buffered_read (simple_bio_ops os_s os_r) n st),
      front_should_retry = bFLAGS_SHOULD_RETRY,
      front_wait_read = (\<lambda>st. case os_wait (sock (next_bio st)) of (w, k) \<Rightarrow>
        (w, st\<lparr>next_bio := (next_bio st)\<lparr>sock := k\<rparr>\<rparr>)),
      shall_disconnect = (\<lambda>st. stop (sock (next_bio st)))\<rparr>"

section \<open>Lengths as functions of the received bytes\<close>

definition static_over :: "wStream \<Rightarrow> wStream" where
  "static_over s = Stream_StaticInit (malloc_ok s) (take (s_length s) (buffer s)) (s_length s)"

lemma static_over_ok:
  assumes "stream_ok s"
  shows "read_ok (static_over s)" and "rem (static_over s) = take (s_length s) (buffer s)"
  using assms by (auto simp: static_over_def Stream_StaticInit_def read_ok_def stream_ok_def rem_def)

lemma on_received_run: "on_received m s =
    (case m (static_over s) of Done v _ \<Rightarrow> Done v s | Failed _ \<Rightarrow> Failed s | Fault e \<Rightarrow> Fault e)"
  by (simp add: on_received_def static_over_def)

lemma need_run [stream_read]: "read_ok s \<Longrightarrow> need n s = (if length (rem s) < n then Failed s else Done () s)"
  by (simp add: need_def remaining_length)

definition tpkt_check :: "int \<Rightarrow> int" where
  "tpkt_check n = (if n < 7 \<or> n > 0xFFFF then - 1 else n)"

definition fp_check :: "int \<Rightarrow> int" where
  "fp_check n = (if n < 3 \<or> n > 0x8000 then - 1 else n)"

lemma checks [simp]:
  "tpkt_check n \<noteq> 0" "- 1 \<le> tpkt_check n" "tpkt_check n \<le> 0xFFFF"
  "fp_check n \<noteq> 0" "- 1 \<le> fp_check n" "fp_check n \<le> 0xFFFF"
  by (simp_all add: tpkt_check_def fp_check_def)

fun default_len :: "byte list \<Rightarrow> int" where
  "default_len [] = 0"
| "default_len (v # r) =
     (if v = 3
      then (case r of _ # a # b # _ \<Rightarrow> tpkt_check (256 * uint a + uint b) | _ \<Rightarrow> 0)
      else (case r of
              [] \<Rightarrow> 0
            | l1 # r' \<Rightarrow>
                if unat l1 < 128 then fp_check (uint l1)
                else (case r' of
                        [] \<Rightarrow> 0
                      | l2 # _ \<Rightarrow> fp_check (int (256 * (unat l1 - 128)) + uint l2))))"

lemma default_len_mono: "default_len bs \<noteq> 0 \<Longrightarrow> default_len (bs @ cs) = default_len bs"
  by (cases bs) (auto split: list.splits if_splits)

lemma default_len_bounds: "- 1 \<le> default_len bs" "default_len bs \<le> 0xFFFF"
  by (cases bs; simp split: list.split)+

lemma default_len_known: "4 \<le> length bs \<Longrightarrow> default_len bs \<noteq> 0"
  by (cases bs) (auto split: list.split)

lemma fast_path_length:
  fixes l1 l2 :: byte
  assumes "128 \<le> unat l1"
  shows "push_bit 8 (uint (l1 AND 0x7F)) OR uint l2 = int (256 * (unat l1 - 128)) + uint l2"
proof -
  have "l1 AND 0x7F = l1 AND mask 7" by (simp add: mask_eq_exp_minus_1)
  then have "unat (l1 AND 0x7F) = unat l1 mod 128"
    by (simp flip: take_bit_eq_mask add: unsigned_take_bit_eq take_bit_eq_mod unat_mod)
  moreover have "unat l1 mod 128 = unat l1 - 128"
    using assms byte_less [of l1] by (simp add: mod_nat_eqI del: byte_less)
  ultimately have hi: "uint (l1 AND 0x7F) = int (unat l1 - 128)" by (metis uint_nat)
  have "push_bit 8 (int (unat l1 - 128)) OR uint l2 = push_bit 8 (int (unat l1 - 128)) + uint l2"
  proof (rule disjunctive_add [symmetric])
    fix n
    show "\<not> bit (push_bit 8 (int (unat l1 - 128))) n \<or> \<not> bit (uint l2) n"
      by (cases "n < 8") (auto simp: bit_simps dest: bit_imp_le_length)
  qed
  with hi show ?thesis by (simp add: push_bit_eq_mult)
qed

lemma length_none: "m t = Failed t' \<Longrightarrow> v = 0 \<Longrightarrow> \<exists>t'. or_value 0 m t = Done v t'"
  by (simp add: or_value_def)

lemma length_some: "m t = Done v t' \<Longrightarrow> \<exists>t'. or_value 0 m t = Done v t'"
  by (simp add: or_value_def)

lemma be_pair:
  fixes a b :: byte
  shows "uint (word_of_nat (nat_be [a, b]) :: u16) = 256 * uint a + uint b"
proof -
  define n where "n = 256 * unat a + unat b"
  have "n < 65536"
    using byte_less [of a] byte_less [of b] unfolding n_def by linarith
  then have "unat (word_of_nat n :: u16) = n" by (simp add: unat_of_nat)
  then have "uint (word_of_nat n :: u16) = int n" using uint_nat [of "word_of_nat n :: u16"] by metis
  moreover have "nat_be [a, b] = n" by (simp add: nat_be_def n_def)
  moreover have "int n = 256 * uint a + uint b" by (simp add: n_def)
  ultimately show ?thesis by metis
qed

lemma default_length_tpkt:
  assumes "read_ok t" and "rem t = 3 # r"
  shows "\<exists>t'. or_value 0 default_mode_length t = Done (default_len (3 # r)) t'"
proof (cases "3 \<le> length r")
  case True
  then obtain x a b r' where r: "r = x # a # b # r'"
    by (auto simp: numeral_3_eq_3 Suc_le_length_iff)
  have "stream_read_u16_be True (adv 2 t) = Done (word_of_nat (nat_be [a, b])) (adv 4 t)"
    using assms r by (subst read_u16_be) simp_all
  then have "default_mode_length t = Done (tpkt_check (256 * uint a + uint b)) (adv 4 t)"
    using assms r
    by (simp add: default_mode_length_def stream_read Let_def be_pair tpkt_check_def numeral_2_eq_2 [symmetric]
        del: of_nat_add)
  then show ?thesis using r by (intro length_some) simp
next
  case False
  then have "default_mode_length t = Failed (adv 1 t)"
    using assms by (simp add: default_mode_length_def stream_read)
  moreover have "default_len (3 # r) = 0" using False by (auto split: list.split)
  ultimately show ?thesis by (intro length_none)
qed

lemma default_length_fast_path:
  assumes "read_ok t" and "rem t = v # r" and "v \<noteq> 3"
  shows "\<exists>t'. or_value 0 default_mode_length t = Done (default_len (v # r)) t'"
proof (cases r)
  case Nil
  then have "default_mode_length t = Failed (adv 1 t)"
    using assms by (simp add: default_mode_length_def stream_read)
  with Nil assms(3) show ?thesis by (intro length_none) simp_all
next
  case (Cons l1 r')
  note l1 = Cons
  show ?thesis
  proof (cases "unat l1 < 128")
    case True
    then have "default_mode_length t = Done (fp_check (uint l1)) (adv 2 t)"
      using assms l1
      by (simp add: default_mode_length_def stream_read byte_top_bit fp_check_def numeral_2_eq_2 [symmetric])
    with True l1 assms(3) show ?thesis by (intro length_some) simp_all
  next
    case False
    then have hi: "128 \<le> unat l1" by simp
    show ?thesis
    proof (cases r')
      case Nil
      then have "default_mode_length t = Failed (adv 2 t)"
        using assms l1 hi
        by (simp add: default_mode_length_def stream_read byte_top_bit numeral_2_eq_2 [symmetric])
      with Nil l1 hi assms(3) show ?thesis by (intro length_none) simp_all
    next
      case (Cons l2 r'')
      have three: "Suc (Suc (Suc 0)) = 3" by simp
      have "default_mode_length t = Done (fp_check (int (256 * (unat l1 - 128)) + uint l2)) (adv 3 t)"
        using assms l1 hi Cons fast_path_length [OF hi, of l2]
        by (simp add: default_mode_length_def stream_read byte_top_bit fp_check_def three)
      with Cons l1 hi assms(3) show ?thesis by (intro length_some) simp_all
    qed
  qed
qed

lemma parse_default_run:
  assumes "stream_ok s"
  shows "parse_default_mode_pdu s = Done (default_len (take (s_length s) (buffer s))) s"
proof -
  note ok = static_over_ok [OF assms]
  have "\<exists>t'. or_value 0 default_mode_length (static_over s) = Done (default_len (rem (static_over s))) t'"
  proof (cases "rem (static_over s)")
    case Nil
    then have "default_mode_length (static_over s) = Failed (static_over s)"
      using ok(1) by (simp add: default_mode_length_def stream_read)
    with Nil show ?thesis by (intro length_none) simp_all
  next
    case (Cons v r)
    then show ?thesis
      using default_length_tpkt [OF ok(1), of r] default_length_fast_path [OF ok(1), of v r] by metis
  qed
  then show ?thesis
    using ok(2) by (auto simp: parse_default_mode_pdu_def on_received_run)
qed

section \<open>Growth of the receive buffer\<close>

definition grown :: "nat \<Rightarrow> wStream \<Rightarrow> wStream" where
  "grown z s = (if z = 0 then s
     else s\<lparr>buffer := buffer s @ replicate z 0, capacity := capacity s + z,
            s_length := capacity s + z, isOwner := True\<rparr>)"

lemma grown_fields [simp]:
  "pointer (grown z s) = pointer s" "capacity (grown z s) = capacity s + z"
  "malloc_ok (grown z s) = malloc_ok s" "isOwner s \<Longrightarrow> isOwner (grown z s)"
  "isAllocatedStream (grown z s) = isAllocatedStream s"
  by (simp_all add: grown_def)

lemma buffer_grown: "\<exists>x. buffer (grown z s) = buffer s @ x"
  by (simp add: grown_def)

lemma stream_ok_grown: "stream_ok s \<Longrightarrow> capacity s + z < 2 ^ 64 \<Longrightarrow> stream_ok (grown z s)"
  by (simp add: grown_def stream_ok_def)

lemma ensure_capacity_cases:
  assumes ok: "stream_ok s" and pos: "0 < capacity s" and own: "isOwner s" and lim: "n \<le> 2 ^ 62"
  shows "Stream_EnsureCapacity n s = Failed s \<or>
    (\<exists>z. Stream_EnsureCapacity n s = Done () (grown z s) \<and> n \<le> capacity s + z \<and>
      (z = 0 \<or> capacity s + z < 2 * n))"
proof (cases "capacity s < n")
  case False
  then show ?thesis
    by (intro disjI2 exI [of _ 0]) (simp add: Stream_EnsureCapacity_def grown_def)
next
  case True
  obtain k where k: "grow_capacity (capacity s) n = Some (capacity s * 2 ^ k)"
      "n \<le> capacity s * 2 ^ k" "capacity s * 2 ^ k < 2 * n"
    using grow_capacity_terminates [of "capacity s" n] pos lim True by auto
  show ?thesis
  proof (cases "malloc_ok s (capacity s * 2 ^ k)")
    case False
    with True k own show ?thesis by (simp add: Stream_EnsureCapacity_def)
  next
    case malloc: True
    define z where "z = capacity s * 2 ^ k - capacity s"
    have c: "capacity s * 2 ^ k = capacity s + z" using k(2) True by (simp add: z_def)
    have "z \<noteq> 0" using k(2) True c by linarith
    moreover have "pointer s \<le> capacity s" using ok by (simp add: stream_ok_def)
    ultimately have "Stream_EnsureCapacity n s = Done () (grown z s)"
      using True k(1) malloc unfolding c
      by (simp add: Stream_EnsureCapacity_def Stream_SetPosition_def grown_def)
    with k c show ?thesis by auto
  qed
qed

lemma ensure_one_cases:
  assumes ok: "stream_ok s" and pos: "0 < capacity s" and own: "isOwner s" and lim: "capacity s < 2 ^ 62"
  shows "Stream_EnsureRemainingCapacity 1 s = Failed s \<or>
    (\<exists>z. Stream_EnsureRemainingCapacity 1 s = Done () (grown z s) \<and> pointer s + 1 \<le> capacity s + z \<and>
      (z = 0 \<or> capacity s + z < 2 * (pointer s + 1)))"
proof (cases "pointer s + 1 \<le> capacity s")
  case True
  then show ?thesis
    using ensure_room [OF ok, of 1] by (intro disjI2 exI [of _ 0]) (simp add: room_def grown_def)
next
  case False
  then have eq: "pointer s = capacity s" using ok by (simp add: stream_ok_def)
  then have "Stream_EnsureRemainingCapacity 1 s = Stream_EnsureCapacity (capacity s + 1) s"
    using lim by (simp add: Stream_EnsureRemainingCapacity_def)
  with ensure_capacity_cases [OF ok pos own, of "capacity s + 1"] lim eq show ?thesis by auto
qed

section \<open>The bytes received and the bytes to come\<close>

text \<open>
  The bytes of the current PDU received so far are the part of the receive buffer in front of the
  pointer. \<open>inp\<close> observes the bytes that the front BIO will still deliver: a read that reports a
  positive count has taken that many bytes off them and at most as many as were asked for, any
  other read and every wait leaves them alone.
\<close>

definition got :: "('n, 'e) rdp_transport \<Rightarrow> byte list" where
  "got t = take (pointer (ReceiveBuffer t)) (buffer (ReceiveBuffer t))"

definition front_contract :: "'n front_ops \<Rightarrow> ('n \<Rightarrow> byte list) \<Rightarrow> bool" where
  "front_contract B inp \<longleftrightarrow>
     (\<forall>n r. 0 < r \<longrightarrow> (case front_read B n r of (status, bs, n') \<Rightarrow>
        if status \<le> 0 then inp n' = inp n
        else length bs = nat status \<and> length bs \<le> r \<and> inp n = bs @ inp n')) \<and>
     (\<forall>n. inp (snd (front_wait_read B n)) = inp n)"

definition to_come :: "('n \<Rightarrow> byte list) \<Rightarrow> ('n, 'e) rdp_transport \<Rightarrow> byte list" where
  "to_come inp t = (case frontBio t of None \<Rightarrow> [] | Some n \<Rightarrow> inp n)"

definition same_mode :: "('n, 'e) rdp_transport \<Rightarrow> ('n, 'e) rdp_transport \<Rightarrow> bool" where
  "same_mode t t' \<longleftrightarrow> NlaMode t' = NlaMode t \<and> RdstlsMode t' = RdstlsMode t \<and> AadMode t' = AadMode t \<and>
     earlyUserAuth t' = earlyUserAuth t \<and> blocking t' = blocking t \<and> ReceiveAddress t' = ReceiveAddress t \<and>
     ReceivePool t' = ReceivePool t \<and> ReceiveExtra t' = ReceiveExtra t \<and>
     malloc_ok (ReceiveBuffer t') = malloc_ok (ReceiveBuffer t)"

lemma same_mode_refl [simp]: "same_mode t t"
  by (simp add: same_mode_def)

lemma same_mode_trans [trans]: "same_mode t u \<Longrightarrow> same_mode u v \<Longrightarrow> same_mode t v"
  by (simp add: same_mode_def)

definition rx_ok :: "('n, 'e) rdp_transport \<Rightarrow> bool" where
  "rx_ok t \<longleftrightarrow> stream_ok (ReceiveBuffer t) \<and> 0 < capacity (ReceiveBuffer t) \<and>
     capacity (ReceiveBuffer t) < 2 ^ 62 \<and> isOwner (ReceiveBuffer t) \<and>
     isAllocatedStream (ReceiveBuffer t) \<and> frontBio t \<noteq> None"

lemma length_got: "rx_ok t \<Longrightarrow> length (got t) = pointer (ReceiveBuffer t)"
  by (simp add: got_def rx_ok_def stream_ok_def)

lemma on_buffer_Done [simp]:
  "m (ReceiveBuffer t) = Done v s \<Longrightarrow> on_buffer m t = Done v (t\<lparr>ReceiveBuffer := s\<rparr>)"
  by (simp add: on_buffer_def)

lemma on_buffer_Failed [simp]:
  "m (ReceiveBuffer t) = Failed s \<Longrightarrow> on_buffer m t = Failed (t\<lparr>ReceiveBuffer := s\<rparr>)"
  by (simp add: on_buffer_def)

subsection \<open>Reading from the front BIO\<close>

text \<open>
  What a non-blocking \<^verbatim>\<open>transport_read_layer\<close> does: it returns, with all the bytes, with fewer when
  the BIO would block, or with an error.
\<close>

definition layer_result ::
    "('n \<Rightarrow> byte list) \<Rightarrow> nat \<Rightarrow> ('n, 'e) rdp_transport \<Rightarrow> int \<Rightarrow> byte list \<Rightarrow> ('n, 'e) rdp_transport \<Rightarrow> bool" where
  "layer_result inp bytes t status bs t' \<longleftrightarrow>
     length bs \<le> bytes \<and> same_mode t t' \<and> ReceiveBuffer t' = ReceiveBuffer t \<and>
     (status < 0 \<or> status = int (length bs) \<and> frontBio t' \<noteq> None \<and> to_come inp t = bs @ to_come inp t')"

lemma read_layer_loop_run:
  assumes "front_contract B inp" and "\<not> blocking t" and "frontBio t = Some n" and "length acc \<le> bytes"
    and "bytes - length acc = k"
  shows "\<exists>status bs t'. read_layer_loop B bytes acc n t = Some (status, acc @ bs, t') \<and>
    length (acc @ bs) \<le> bytes \<and> same_mode t t' \<and> ReceiveBuffer t' = ReceiveBuffer t \<and>
    (status = - 1 \<or> status = int (length (acc @ bs)) \<and> frontBio t' \<noteq> None \<and>
      inp n = bs @ to_come inp t')"
  using assms
proof (induction k arbitrary: acc n t rule: less_induct)
  case (less k)
  show ?case
  proof (cases "length acc < bytes")
    case False
    with less.prems show ?thesis
      by (subst read_layer_loop.simps) (auto simp: to_come_def)
  next
    case True
    define r where "r = (if bytes - length acc > 2147483647 then 2147483647 else bytes - length acc)"
    have r: "0 < r" "r \<le> bytes - length acc" using True by (auto simp: r_def)
    obtain status bs n' where rd: "front_read B n r = (status, bs, n')" by (cases "front_read B n r") auto
    with less.prems(1) r(1) have law: "if status \<le> 0 then inp n' = inp n
        else length bs = nat status \<and> length bs \<le> r \<and> inp n = bs @ inp n'"
      by (auto simp: front_contract_def dest!: spec [of _ n] spec [of _ r])
    let ?t1 = "t\<lparr>frontBio := Some n'\<rparr>"
    note unf = read_layer_loop.simps [of B bytes acc n t, unfolded Let_def, folded r_def, unfolded rd prod.case]
    consider "shall_disconnect B n'" | "\<not> shall_disconnect B n'" "status \<le> 0" "\<not> front_should_retry B n'"
      | "\<not> shall_disconnect B n'" "status \<le> 0" "front_should_retry B n'" | "\<not> shall_disconnect B n'" "0 < status"
      by linarith
    then show ?thesis
    proof cases
      case 1
      then have "read_layer_loop B bytes acc n t = Some (- 1, acc @ [], ?t1)"
        using True unf by simp
      with less.prems(4) show ?thesis by (fastforce simp: same_mode_def)
    next
      case 2
      then have "read_layer_loop B bytes acc n t = Some (- 1, acc @ [], transport_fail ?t1)"
        using True unf by simp
      with less.prems(4) show ?thesis by (fastforce simp: same_mode_def transport_fail_def)
    next
      case 3
      then have "read_layer_loop B bytes acc n t = Some (int (length acc), acc @ [], ?t1)"
        using True unf less.prems(2) by simp
      moreover have "inp n = [] @ to_come inp ?t1" using law 3 by (simp add: to_come_def)
      ultimately show ?thesis using less.prems(4) by (fastforce simp: same_mode_def)
    next
      case 4
      let ?t2 = "?t1\<lparr>inBytes := inBytes t + word_of_int status\<rparr>"
      have bs: "length bs \<le> r" "0 < length bs" "inp n = bs @ inp n'" using law 4 by auto
      have dec: "bytes - length (acc @ bs) < k" and fit: "length (acc @ bs) \<le> bytes"
        using less.prems(4,5) r bs(1,2) True unfolding length_append by linarith+
      have eq: "read_layer_loop B bytes acc n t = read_layer_loop B bytes (acc @ bs) n' ?t2"
        using True unf 4 by simp
      have "\<exists>status cs t'. read_layer_loop B bytes (acc @ bs) n' ?t2 = Some (status, (acc @ bs) @ cs, t') \<and>
          length ((acc @ bs) @ cs) \<le> bytes \<and> same_mode ?t2 t' \<and> ReceiveBuffer t' = ReceiveBuffer ?t2 \<and>
          (status = - 1 \<or> status = int (length ((acc @ bs) @ cs)) \<and> frontBio t' \<noteq> None \<and>
            inp n' = cs @ to_come inp t')"
        using less.prems(2,3) fit by (intro less.IH [OF dec less.prems(1)]) simp_all
      then obtain status cs t' where "read_layer_loop B bytes (acc @ bs) n' ?t2 = Some (status, acc @ (bs @ cs), t')"
        "length (acc @ (bs @ cs)) \<le> bytes" "same_mode ?t2 t'" "ReceiveBuffer t' = ReceiveBuffer t"
        "status = - 1 \<or> status = int (length (acc @ (bs @ cs))) \<and> frontBio t' \<noteq> None \<and>
            inp n = (bs @ cs) @ to_come inp t'"
        using bs(3) by auto
      then show ?thesis
        unfolding eq by (intro exI [of _ status] exI [of _ "bs @ cs"] exI [of _ t']) (simp add: same_mode_def)
    qed
  qed
qed

lemma read_layer_run:
  assumes "front_contract B inp" and "\<not> blocking t" and "rx_ok t" and "bytes < 2 ^ 62"
  shows "\<exists>status bs t'. transport_read_layer B bytes t = Some (status, bs, t') \<and>
    layer_result inp bytes t status bs t'"
proof -
  obtain n where n: "frontBio t = Some n" using assms(3) by (auto simp: rx_ok_def)
  from read_layer_loop_run [OF assms(1,2) n, of "[]" bytes] obtain status bs t' where
    "read_layer_loop B bytes [] n t = Some (status, bs, t')" "length bs \<le> bytes" "same_mode t t'"
    "ReceiveBuffer t' = ReceiveBuffer t"
    "status = - 1 \<or> status = int (length bs) \<and> frontBio t' \<noteq> None \<and> inp n = bs @ to_come inp t'"
    by auto
  then show ?thesis
    using n assms(4)
    by (intro exI [of _ status] exI [of _ bs] exI [of _ t'])
      (auto simp: transport_read_layer_def layer_result_def to_come_def)
qed

lemma put_environment [simp]:
  "isAllocatedStream (put bs s) = isAllocatedStream s" "malloc_ok (put bs s) = malloc_ok s"
  by (simp_all add: put_def)

lemma got_put:
  assumes "rx_ok t" and "length bs \<le> room (ReceiveBuffer t)"
  shows "got (t\<lparr>ReceiveBuffer := put bs (ReceiveBuffer t)\<rparr>) = got t @ bs"
proof -
  have "pointer (ReceiveBuffer t) + length bs \<le> length (buffer (ReceiveBuffer t))"
    using assms by (auto simp: rx_ok_def stream_ok_def room_def)
  then show ?thesis by (simp add: got_def put_def splice_at_def)
qed

definition whole :: "('n \<Rightarrow> byte list) \<Rightarrow> ('n, 'e) rdp_transport \<Rightarrow> byte list" where
  "whole inp t = got t @ to_come inp t"

lemma read_layer_bytes_run:
  assumes "front_contract B inp" and "\<not> blocking t" and ok: "rx_ok t"
    and room: "k \<le> room (ReceiveBuffer t)"
  shows "\<exists>rc t'. transport_read_layer_bytes B k t = Done rc t' \<and> same_mode t t' \<and>
    (rc < 0 \<or>
     rx_ok t' \<and> capacity (ReceiveBuffer t') = capacity (ReceiveBuffer t) \<and> whole inp t' = whole inp t \<and>
     (\<exists>bs. got t' = got t @ bs \<and> length bs \<le> k \<and>
        (if 0 < k \<and> length bs = k then rc = 1 else rc = 0)))"
proof -
  let ?s = "ReceiveBuffer t"
  have lim: "k < 2 ^ 62" using ok room by (auto simp: rx_ok_def room_def)
  from read_layer_run [OF assms(1,2) ok lim] obtain status bs t1 where
    run: "transport_read_layer B k t = Some (status, bs, t1)" and res: "layer_result inp k t status bs t1"
    by blast
  then have len: "length bs \<le> room ?s" and buf: "ReceiveBuffer t1 = ?s" and mode: "same_mode t t1"
    using room by (auto simp: layer_result_def)
  have st: "stream_ok ?s" using ok by (simp add: rx_ok_def)
  let ?stored = "?s\<lparr>buffer := splice_at (pointer ?s) bs (buffer ?s)\<rparr>"
  have store: "store bs ?s = Done () ?stored"
    using st len by (auto simp: store_def stream_ok_def room_def)
  have unf: "transport_read_layer_bytes B k t =
    seq (on_buffer (store bs))
      (if status \<le> 0 then ret status
       else seq (on_buffer (Stream_Seek (nat status))) (ret (if status = int k then 1 else 0))) t1"
    using run lim by (simp add: transport_read_layer_bytes_def)
  show ?thesis
  proof (cases "status \<le> 0")
    case True
    have eq: "transport_read_layer_bytes B k t = Done status (t1\<lparr>ReceiveBuffer := ?stored\<rparr>)"
      using True unf store buf by simp
    show ?thesis
    proof (cases "status < 0")
      case True
      with eq mode show ?thesis by (auto simp: same_mode_def)
    next
      case False
      with True res have z: "status = 0" "bs = []" "to_come inp t = to_come inp t1" "frontBio t1 \<noteq> None"
        by (auto simp: layer_result_def)
      then have same: "t1\<lparr>ReceiveBuffer := ?stored\<rparr> = t1" using buf by simp
      have run0: "transport_read_layer_bytes B k t = Done 0 t1" using eq unfolding same z(1) .
      have "rx_ok t1" "got t1 = got t" using ok z buf by (simp_all add: rx_ok_def got_def)
      then show ?thesis
        using run0 z mode buf by (intro exI [of _ 0] exI [of _ t1]) (auto simp: whole_def)
    qed
  next
    case False
    with res have z: "status = int (length bs)" "0 < length bs" "to_come inp t = bs @ to_come inp t1"
      "frontBio t1 \<noteq> None" "length bs \<le> k"
      by (auto simp: layer_result_def)
    let ?t' = "t1\<lparr>ReceiveBuffer := put bs ?s\<rparr>"
    have "Stream_Seek (length bs) ?stored = Done () (put bs ?s)"
      using store_put [OF st len] store by simp
    then have eq: "transport_read_layer_bytes B k t = Done (if length bs = k then 1 else 0) ?t'"
      using False unf store buf z(1) by simp
    have ok': "rx_ok ?t'"
      using ok z(4) len buf by (auto simp: rx_ok_def)
    have got: "got ?t' = got t @ bs"
      using got_put [OF ok len] by (simp add: got_def)
    have "to_come inp ?t' = to_come inp t1" by (simp add: to_come_def)
    with got z(3) have "whole inp ?t' = whole inp t" by (simp add: whole_def)
    moreover have "same_mode t ?t'" using mode by (simp add: same_mode_def)
    ultimately show ?thesis
      using eq ok' got z(2,5) by (intro exI [of _ "if length bs = k then 1 else 0"] exI [of _ ?t']) auto
  qed
qed

subsection \<open>The length of the PDU\<close>

definition default_mode :: "('n, 'e) rdp_transport \<Rightarrow> bool" where
  "default_mode t \<longleftrightarrow> \<not> NlaMode t \<and> \<not> RdstlsMode t \<and> \<not> AadMode t \<and> \<not> earlyUserAuth t"

definition pdu_status :: "('n, 'e) rdp_transport \<Rightarrow> int" where
  "pdu_status t =
     (let n = default_len (got t)
      in if n = 0 then 0 else if n < 0 \<or> int (length (got t)) > n then - 1 else n)"

definition sealed :: "('n, 'e) rdp_transport \<Rightarrow> ('n, 'e) rdp_transport" where
  "sealed t = t\<lparr>ReceiveBuffer := (ReceiveBuffer t)\<lparr>s_length := pointer (ReceiveBuffer t)\<rparr>\<rparr>"

lemma sealed_simps [simp]:
  "got (sealed t) = got t" "to_come inp (sealed t) = to_come inp t" "rx_ok t \<Longrightarrow> rx_ok (sealed t)"
  "same_mode t (sealed t)" "blocking (sealed t) = blocking t"
  "capacity (ReceiveBuffer (sealed t)) = capacity (ReceiveBuffer t)"
  "pointer (ReceiveBuffer (sealed t)) = pointer (ReceiveBuffer t)"
  "default_mode (sealed t) = default_mode t"
  by (auto simp: sealed_def got_def to_come_def rx_ok_def stream_ok_def same_mode_def default_mode_def)

lemma sealed_whole [simp]: "whole inp (sealed t) = whole inp t" "pdu_status (sealed t) = pdu_status t"
  by (simp_all add: whole_def pdu_status_def Let_def)

lemma parse_pdu_run:
  assumes ok: "rx_ok t" and mode: "default_mode t"
  shows "\<exists>b. transport_parse_pdu t = Done (pdu_status t, b) (sealed t) \<and> (pdu_status t = 0 \<longrightarrow> b)"
proof -
  let ?s = "ReceiveBuffer t"
  let ?n = "default_len (got t)"
  have st: "stream_ok ?s" using ok by (simp add: rx_ok_def)
  have "stream_ok (ReceiveBuffer (sealed t))" using sealed_simps(3) [OF ok] by (simp add: rx_ok_def)
  then have "parse_default_mode_pdu (ReceiveBuffer (sealed t)) = Done ?n (ReceiveBuffer (sealed t))"
    using parse_default_run [of "ReceiveBuffer (sealed t)"] by (simp add: sealed_def got_def)
  then have parse: "on_buffer parse_default_mode_pdu (sealed t) = Done ?n (sealed t)"
    by (simp add: sealed_def)
  have seal: "on_buffer Stream_SealLength t = Done () (sealed t)"
    using st by (simp add: Stream_SealLength_def stream_ok_def sealed_def)
  have len: "s_length (ReceiveBuffer (sealed t)) = length (got t)"
    using length_got [OF ok] by (simp add: sealed_def)
  have small: "length (got t) < 2 ^ 62"
    using ok length_got [OF ok] by (auto simp: rx_ok_def stream_ok_def)
  have modes: "NlaMode (sealed t) = False" "RdstlsMode (sealed t) = False"
    using mode by (simp_all add: default_mode_def sealed_def)
  have run: "transport_parse_pdu t =
    (let pduLength = (word_of_int ?n :: u64) in
     if pduLength = 0 then ret (0, True)
     else if length (got t) > unat pduLength then ret (- 1, True)
     else ret (sint pduLength, length (got t) < unat pduLength)) (sealed t)"
    unfolding transport_parse_pdu_def
    by (simp add: seq_Done [where m = "on_buffer Stream_SealLength", OF seal] modes
        bind_Done [where m = "on_buffer parse_default_mode_pdu", OF parse] len Let_def)
  consider "?n = 0" | "?n = - 1" | "0 < ?n" using default_len_bounds(1) [of "got t"] by linarith
  then show ?thesis
  proof cases
    case 1
    then show ?thesis using run by (intro exI [of _ True]) (simp add: pdu_status_def)
  next
    case 2
    have "unat (- 1 :: u64) = 2 ^ 64 - 1" by (simp add: unsigned_minus_1_eq_mask mask_eq_exp_minus_1)
    moreover have "sint (- 1 :: u64) = - 1" by simp
    ultimately show ?thesis using run 2 small by (intro exI [of _ True]) (simp add: pdu_status_def)
  next
    case 3
    have "nat ?n < 2 ^ 63" using default_len_bounds(2) [of "got t"] 3 by simp
    then have "unat (word_of_int ?n :: u64) = nat ?n" "sint (word_of_int ?n :: u64) = ?n"
      using 3 int_word_sint [of ?n, where 'a = 64]
      by (simp_all add: unat_eq_nat_uint uint_word_of_int)
    moreover have "(word_of_int ?n :: u64) \<noteq> 0"
      using calculation(1) 3 by (metis nat_0_iff not_le unsigned_0)
    ultimately show ?thesis
      using run 3 by (auto simp: pdu_status_def Let_def)
  qed
qed

subsection \<open>The header loop\<close>

lemma grown_buffer:
  assumes ok: "rx_ok t" and lim: "capacity (ReceiveBuffer t) + z < 2 ^ 62"
  shows "rx_ok (t\<lparr>ReceiveBuffer := grown z (ReceiveBuffer t)\<rparr>)"
    and "got (t\<lparr>ReceiveBuffer := grown z (ReceiveBuffer t)\<rparr>) = got t"
    and "to_come inp (t\<lparr>ReceiveBuffer := grown z (ReceiveBuffer t)\<rparr>) = to_come inp t"
    and "same_mode t (t\<lparr>ReceiveBuffer := grown z (ReceiveBuffer t)\<rparr>)"
proof -
  let ?s = "ReceiveBuffer t"
  have st: "stream_ok ?s" using ok by (simp add: rx_ok_def)
  then have "stream_ok (grown z ?s)" using lim by (intro stream_ok_grown) simp_all
  then show "rx_ok (t\<lparr>ReceiveBuffer := grown z ?s\<rparr>)" using ok lim by (simp add: rx_ok_def)
  obtain x where "buffer (grown z ?s) = buffer ?s @ x" using buffer_grown by blast
  moreover have "pointer ?s \<le> length (buffer ?s)" using st by (simp add: stream_ok_def)
  ultimately show "got (t\<lparr>ReceiveBuffer := grown z ?s\<rparr>) = got t" by (simp add: got_def)
qed (simp_all add: to_come_def same_mode_def)

text \<open>
  How a receive step may end: with an error, without the answer yet, or with an answer. Except in the
  first case no byte is lost.
\<close>

definition keeps :: "('n \<Rightarrow> byte list) \<Rightarrow> ('n, 'e) rdp_transport \<Rightarrow> ('n, 'e) rdp_transport \<Rightarrow> bool" where
  "keeps inp t t' \<longleftrightarrow> rx_ok t' \<and> whole inp t' = whole inp t \<and> same_mode t t'"

lemma keeps_trans: "keeps inp t u \<Longrightarrow> keeps inp u v \<Longrightarrow> keeps inp t v"
  by (auto simp: keeps_def dest: same_mode_trans)

lemma keeps_sealed: "rx_ok t \<Longrightarrow> keeps inp t (sealed t)"
  by (simp add: keeps_def)

lemma keeps_mode: "keeps inp t u \<Longrightarrow> default_mode t \<Longrightarrow> default_mode u"
  "keeps inp t u \<Longrightarrow> \<not> blocking t \<Longrightarrow> \<not> blocking u"
  by (auto simp: keeps_def same_mode_def default_mode_def)

lemma header_byte_run:
  assumes contract: "front_contract B inp" and nb: "\<not> blocking t" and ok: "rx_ok t" and len: "length (got t) < 4"
  shows "(\<exists>t1. on_buffer (Stream_EnsureRemainingCapacity 1) t = Failed t1 \<and> same_mode t t1) \<or>
    (\<exists>t1 rc t2. on_buffer (Stream_EnsureRemainingCapacity 1) t = Done () t1 \<and>
      transport_read_layer_bytes B 1 t1 = Done rc t2 \<and> same_mode t t2 \<and>
      (rc < 0 \<or> rc = 0 \<and> keeps inp t t2 \<and> got t2 = got t \<or>
       rc = 1 \<and> keeps inp t t2 \<and> (\<exists>b. got t2 = got t @ [b])))"
proof -
  let ?s = "ReceiveBuffer t"
  have st: "stream_ok ?s" "0 < capacity ?s" "isOwner ?s" "capacity ?s < 2 ^ 62" "pointer ?s \<le> capacity ?s"
    using ok by (auto simp: rx_ok_def stream_ok_def)
  have pos: "pointer ?s < 4" using len length_got [OF ok] by simp
  from ensure_one_cases [OF st(1-4)] show ?thesis
  proof
    assume "Stream_EnsureRemainingCapacity 1 ?s = Failed ?s"
    then have "on_buffer (Stream_EnsureRemainingCapacity 1) t = Failed t" by (simp add: on_buffer_def)
    then show ?thesis by (intro disjI1 exI [of _ t]) simp
  next
    assume "\<exists>z. Stream_EnsureRemainingCapacity 1 ?s = Done () (grown z ?s) \<and>
      pointer ?s + 1 \<le> capacity ?s + z \<and> (z = 0 \<or> capacity ?s + z < 2 * (pointer ?s + 1))"
    then obtain z where z: "Stream_EnsureRemainingCapacity 1 ?s = Done () (grown z ?s)"
        "pointer ?s + 1 \<le> capacity ?s + z" "z = 0 \<or> capacity ?s + z < 2 * (pointer ?s + 1)" by blast
    let ?t1 = "t\<lparr>ReceiveBuffer := grown z ?s\<rparr>"
    have lim: "capacity ?s + z < 2 ^ 62" using z(3) pos st(4) by auto
    note g = grown_buffer [OF ok lim]
    have w1: "whole inp ?t1 = whole inp t" unfolding whole_def g(2) g(3) ..
    have room: "1 \<le> room (ReceiveBuffer ?t1)" using z(2) by (simp add: room_def)
    have ens: "on_buffer (Stream_EnsureRemainingCapacity 1) t = Done () ?t1" using z(1) by simp
    from read_layer_bytes_run [OF contract _ g(1) room] nb obtain rc t2 where
      rd: "transport_read_layer_bytes B 1 ?t1 = Done rc t2" "same_mode ?t1 t2" and
      res: "rc < 0 \<or> rx_ok t2 \<and> capacity (ReceiveBuffer t2) = capacity (ReceiveBuffer ?t1) \<and>
        whole inp t2 = whole inp ?t1 \<and> (\<exists>bs. got t2 = got ?t1 @ bs \<and> length bs \<le> 1 \<and>
        (if 0 < (1::nat) \<and> length bs = 1 then rc = 1 else rc = 0))"
      by auto
    have mode: "same_mode t t2" using same_mode_trans [OF g(4) rd(2)] .
    have "rc < 0 \<or> rc = 0 \<and> keeps inp t t2 \<and> got t2 = got t \<or>
       rc = 1 \<and> keeps inp t t2 \<and> (\<exists>b. got t2 = got t @ [b])"
    proof (cases "rc < 0")
      case False
      with res obtain bs where bs: "rx_ok t2" "whole inp t2 = whole inp t" "got t2 = got t @ bs" "length bs \<le> 1"
          "if length bs = 1 then rc = 1 else rc = 0"
        unfolding w1 g(2) by auto
      have k: "keeps inp t t2" using bs(1,2) mode by (simp add: keeps_def)
      show ?thesis
      proof (cases bs)
        case Nil
        with bs k show ?thesis by simp
      next
        case (Cons b bs')
        with bs(4) have "bs = [b]" by (cases bs') simp_all
        with bs k show ?thesis by simp
      qed
    qed simp
    with ens rd(1) mode show ?thesis by blast
  qed
qed

lemma pdu_status_zero: "pdu_status t = 0 \<longleftrightarrow> default_len (got t) = 0"
  by (auto simp: pdu_status_def Let_def)

lemma header_loop_run:
  assumes "front_contract B inp" and "\<not> blocking t" and "rx_ok t" and "default_mode t"
    and "pdu_status t = 0 \<longrightarrow> incomplete" and "4 - length (got t) = k"
  shows "\<exists>r t'. header_loop B (pdu_status t) incomplete t = Some (Done r t') \<and> same_mode t t' \<and>
    (case r of
       Inl rc \<Rightarrow> rc < 0 \<or> rc = 0 \<and> keeps inp t t' \<and> default_len (got t') = 0
     | Inr status \<Rightarrow> keeps inp t t' \<and> status = pdu_status t' \<and> status \<noteq> 0)"
  using assms
proof (induction k arbitrary: t incomplete rule: less_induct)
  case (less k)
  note contract = less.prems(1) and nb = less.prems(2) and ok = less.prems(3) and mode = less.prems(4)
  show ?case
  proof (cases "pdu_status t = 0")
    case False
    then have "header_loop B (pdu_status t) incomplete t = Some (Done (Inr (pdu_status t)) t)"
      by (subst header_loop.simps) simp
    moreover have "keeps inp t t" using ok by (simp add: keeps_def)
    ultimately show ?thesis using False by (intro exI [of _ "Inr (pdu_status t)"] exI [of _ t]) simp
  next
    case True
    then have inc: "incomplete = True" and zero: "default_len (got t) = 0" using less.prems(5) pdu_status_zero by auto
    have short: "length (got t) < 4" using zero default_len_known [of "got t"] by linarith
    note unf = header_loop.simps [of B 0 True t]
    from header_byte_run [OF contract nb ok short] show ?thesis
    proof (elim disjE exE conjE)
      fix t1 assume "on_buffer (Stream_EnsureRemainingCapacity 1) t = Failed t1" "same_mode t t1"
      then have "header_loop B (pdu_status t) incomplete t = Some (Done (Inl (- 1)) t1)"
        unfolding True inc unf by simp
      then show ?thesis using \<open>same_mode t t1\<close> by (intro exI [of _ "Inl (- 1)"] exI [of _ t1]) simp
    next
      fix t1 rc t2
      assume ens: "on_buffer (Stream_EnsureRemainingCapacity 1) t = Done () t1"
        and rd: "transport_read_layer_bytes B 1 t1 = Done rc t2" and m: "same_mode t t2" and "rc < 0"
      then have "header_loop B (pdu_status t) incomplete t = Some (Done (Inl rc) t2)"
        unfolding True inc unf by simp
      then show ?thesis using m \<open>rc < 0\<close> by (intro exI [of _ "Inl rc"] exI [of _ t2]) simp
    next
      fix t1 rc t2
      assume ens: "on_buffer (Stream_EnsureRemainingCapacity 1) t = Done () t1"
        and rd: "transport_read_layer_bytes B 1 t1 = Done rc t2" and m: "same_mode t t2"
        and rc: "rc = 0" "keeps inp t t2" "got t2 = got t"
      then have "header_loop B (pdu_status t) incomplete t = Some (Done (Inl 0) t2)"
        unfolding True inc unf by simp
      then show ?thesis using m rc zero by (intro exI [of _ "Inl 0"] exI [of _ t2]) simp
    next
      fix t1 rc t2 b
      assume ens: "on_buffer (Stream_EnsureRemainingCapacity 1) t = Done () t1"
        and rd: "transport_read_layer_bytes B 1 t1 = Done rc t2" and m: "same_mode t t2"
        and rc: "rc = 1" "keeps inp t t2" and b: "got t2 = got t @ [b]"
      have ok2: "rx_ok t2" and mode2: "default_mode t2" and nb2: "\<not> blocking t2"
        using rc(2) keeps_mode [OF rc(2)] mode nb by (simp_all add: keeps_def)
      obtain c where c: "transport_parse_pdu t2 = Done (pdu_status t2, c) (sealed t2)" "pdu_status t2 = 0 \<longrightarrow> c"
        using parse_pdu_run [OF ok2 mode2] by blast
      have step: "header_loop B (pdu_status t) incomplete t = header_loop B (pdu_status (sealed t2)) c (sealed t2)"
        unfolding True inc unf using ens rd rc(1) c(1) by simp
      have "4 - length (got (sealed t2)) < k" using b short less.prems(6) by simp
      from less.IH [OF this contract, of "sealed t2" c] nb2 ok2 mode2 c(2) obtain r t' where
        r: "header_loop B (pdu_status (sealed t2)) c (sealed t2) = Some (Done r t')" "same_mode (sealed t2) t'"
          "case r of Inl rc \<Rightarrow> rc < 0 \<or> rc = 0 \<and> keeps inp (sealed t2) t' \<and> default_len (got t') = 0
           | Inr status \<Rightarrow> keeps inp (sealed t2) t' \<and> status = pdu_status t' \<and> status \<noteq> 0"
        by auto
      have k: "keeps inp t (sealed t2)" using keeps_trans [OF rc(2) keeps_sealed [OF ok2]] .
      then have "same_mode t t'" using r(2) by (auto simp: keeps_def dest: same_mode_trans)
      moreover have "case r of Inl rc \<Rightarrow> rc < 0 \<or> rc = 0 \<and> keeps inp t t' \<and> default_len (got t') = 0
           | Inr status \<Rightarrow> keeps inp t t' \<and> status = pdu_status t' \<and> status \<noteq> 0"
        using r(3) keeps_trans [OF k] by (auto split: sum.splits)
      ultimately show ?thesis using step r(1) by auto
    qed
  qed
qed

subsection \<open>The rest of the PDU\<close>

text \<open>A finished PDU is the sealed part of the receive buffer, with the position back at its start.\<close>

definition frame :: "wStream \<Rightarrow> byte list" where
  "frame s = take (s_length s) (buffer s)"

definition delivered :: "('n \<Rightarrow> byte list) \<Rightarrow> ('n, 'e) rdp_transport \<Rightarrow> ('n, 'e) rdp_transport \<Rightarrow> bool" where
  "delivered inp t t' \<longleftrightarrow> rx_ok t' \<and> same_mode t t' \<and> pointer (ReceiveBuffer t') = 0 \<and>
     frame (ReceiveBuffer t') @ to_come inp t' = whole inp t \<and>
     default_len (frame (ReceiveBuffer t')) = int (length (frame (ReceiveBuffer t')))"

lemma finish_pdu_run:
  assumes ok: "rx_ok t" and small: "length (got t) \<le> 0xFFFF"
  shows "\<exists>t'. finish_pdu t = Done (int (length (got t))) t' \<and> rx_ok t' \<and> same_mode t t' \<and>
    pointer (ReceiveBuffer t') = 0 \<and> frame (ReceiveBuffer t') = got t \<and> to_come inp t' = to_come inp t"
proof -
  let ?s = "ReceiveBuffer t"
  let ?s' = "?s\<lparr>s_length := pointer ?s, pointer := 0\<rparr>"
  let ?t' = "t\<lparr>ReceiveBuffer := ?s'\<rparr>"
  have st: "stream_ok ?s" using ok by (simp add: rx_ok_def)
  have p: "pointer ?s \<le> 0xFFFF" "pointer ?s = length (got t)" using small length_got [OF ok] by simp_all
  have "uint (word_of_nat (pointer ?s) :: u32) = int (pointer ?s)"
    using p(1) by (simp add: unsigned_of_nat take_bit_nat_eq_self)
  then have "sint (word_of_nat (pointer ?s) :: u32) = int (pointer ?s)"
    using p(1) by (simp add: signed_of_nat signed_take_bit_int_eq_self)
  then have "finish_pdu t = Done (int (length (got t))) ?t'"
    using st p(2) by (simp add: finish_pdu_def Stream_SealLength_def stream_ok_def or_value_def Stream_SetPosition_def
        on_buffer_def)
  moreover have "rx_ok ?t'" "same_mode t ?t'" "to_come inp ?t' = to_come inp t" "frame ?s' = got t"
    using ok by (auto simp: rx_ok_def stream_ok_def same_mode_def to_come_def frame_def got_def)
  ultimately show ?thesis by (intro exI [of _ ?t']) simp
qed

lemma read_rest_run:
  assumes contract: "front_contract B inp" and nb: "\<not> blocking t" and ok: "rx_ok t"
    and n: "default_len (got t) = int n" "0 < n" "length (got t) \<le> n"
  shows "\<exists>r t'. read_rest B n t = Done r t' \<and> same_mode t t' \<and>
    (r < 0 \<or> r = 0 \<and> keeps inp t t' \<and> default_len (got t') = int n \<and> length (got t') \<le> n \<or>
     r = int n \<and> delivered inp t t' \<and> length (frame (ReceiveBuffer t')) = n)"
proof -
  let ?s = "ReceiveBuffer t"
  have st: "stream_ok ?s" "0 < capacity ?s" "isOwner ?s" "capacity ?s < 2 ^ 62" using ok by (auto simp: rx_ok_def)
  have small: "n \<le> 0xFFFF" using default_len_bounds(2) [of "got t"] n(1) by simp
  have pos: "pointer ?s \<le> n" using length_got [OF ok] n(3) by simp
  have "n \<le> 2 ^ 62" using small by simp
  from ensure_capacity_cases [OF st(1-3) this] show ?thesis
  proof
    assume "Stream_EnsureCapacity n ?s = Failed ?s"
    then have "on_buffer (Stream_EnsureCapacity n) t = Failed t" by (simp add: on_buffer_def)
    then have "read_rest B n t = Done (- 1) t" by (simp add: read_rest_def or_value_def)
    then show ?thesis by (intro exI [of _ "- 1"] exI [of _ t]) simp
  next
    assume "\<exists>z. Stream_EnsureCapacity n ?s = Done () (grown z ?s) \<and> n \<le> capacity ?s + z \<and>
      (z = 0 \<or> capacity ?s + z < 2 * n)"
    then obtain z where z: "Stream_EnsureCapacity n ?s = Done () (grown z ?s)" "n \<le> capacity ?s + z"
        "z = 0 \<or> capacity ?s + z < 2 * n" by blast
    let ?t1 = "t\<lparr>ReceiveBuffer := grown z ?s\<rparr>"
    have lim: "capacity ?s + z < 2 ^ 62" using z(3) small st(4) by auto
    note g = grown_buffer [OF ok lim]
    have w1: "whole inp ?t1 = whole inp t" unfolding whole_def g(2) g(3) ..
    have room: "n - pointer ?s \<le> room (ReceiveBuffer ?t1)" using z(2) by (simp add: room_def)
    from read_layer_bytes_run [OF contract _ g(1) room] nb obtain rc t2 where
      rd: "transport_read_layer_bytes B (n - pointer ?s) ?t1 = Done rc t2" "same_mode ?t1 t2" and
      res: "rc < 0 \<or> rx_ok t2 \<and> capacity (ReceiveBuffer t2) = capacity (ReceiveBuffer ?t1) \<and>
        whole inp t2 = whole inp ?t1 \<and> (\<exists>bs. got t2 = got ?t1 @ bs \<and> length bs \<le> n - pointer ?s \<and>
        (if 0 < n - pointer ?s \<and> length bs = n - pointer ?s then rc = 1 else rc = 0))"
      by auto
    have mode: "same_mode t t2" using same_mode_trans [OF g(4) rd(2)] .
    have run: "read_rest B n t = or_value (- 1) (\<lambda>_. if rc \<noteq> 1 then Done rc t2 else finish_pdu t2) t"
      using z(1) rd(1) pos by (simp add: read_rest_def or_value_def)
    show ?thesis
    proof (cases "rc < 0")
      case True
      with run have "read_rest B n t = Done rc t2" by (simp add: or_value_def)
      with True mode show ?thesis by blast
    next
      case False
      with res obtain bs where bs: "rx_ok t2" "whole inp t2 = whole inp t" "got t2 = got t @ bs"
          "length bs \<le> n - pointer ?s"
          "if 0 < n - pointer ?s \<and> length bs = n - pointer ?s then rc = 1 else rc = 0"
        unfolding w1 g(2) by auto
      have k: "keeps inp t t2" using bs(1,2) mode by (simp add: keeps_def)
      have len: "default_len (got t2) = int n" using default_len_mono [of "got t" bs] n(1,2) bs(3) by simp
      have le: "length (got t2) \<le> n" using bs(3,4) length_got [OF ok] pos by simp
      show ?thesis
      proof (cases "rc = 1")
        case False
        then have "rc = 0" using bs(5) by (auto split: if_splits)
        with run have "read_rest B n t = Done 0 t2" by (simp add: or_value_def)
        with mode k len le show ?thesis by blast
      next
        case True
        with bs have full: "length (got t2) = n" using length_got [OF ok] pos by (auto split: if_splits)
        obtain t' where t': "finish_pdu t2 = Done (int n) t'" "rx_ok t'" "same_mode t2 t'"
            "pointer (ReceiveBuffer t') = 0" "frame (ReceiveBuffer t') = got t2" "to_come inp t' = to_come inp t2"
          using finish_pdu_run [OF bs(1), of inp] full small by auto
        have "read_rest B n t = Done (int n) t'" using run True t'(1) by (simp add: or_value_def)
        moreover have m: "same_mode t t'" using mode t'(3) by (rule same_mode_trans)
        moreover have "delivered inp t t'"
          using t' m bs(2) full len unfolding delivered_def whole_def by simp
        moreover have "length (frame (ReceiveBuffer t')) = n" using t'(5) full by simp
        ultimately show ?thesis by blast
      qed
    qed
  qed
qed

subsection \<open>One PDU\<close>

definition waiting :: "('n, 'e) rdp_transport \<Rightarrow> bool" where
  "waiting t \<longleftrightarrow> default_len (got t) = 0 \<or> int (length (got t)) \<le> default_len (got t)"

lemma read_pdu_unfold:
  assumes ok: "rx_ok t" and mode: "default_mode t"
  shows "\<exists>b. (pdu_status t = 0 \<longrightarrow> b) \<and>
    transport_default_read_pdu B t =
      bind (run_loop (header_loop B (pdu_status t) b)) (\<lambda>r. case r of Inl rc \<Rightarrow> ret rc
        | Inr status \<Rightarrow> if status < 0 then ret (- 1) else read_rest B (nat status)) (sealed t)"
proof -
  obtain b where b: "transport_parse_pdu t = Done (pdu_status t, b) (sealed t)" "pdu_status t = 0 \<longrightarrow> b"
    using parse_pdu_run [OF ok mode] by blast
  moreover have "AadMode t = False" "earlyUserAuth t = False" using mode by (simp_all add: default_mode_def)
  ultimately show ?thesis by (intro exI [of _ b]) (simp add: transport_default_read_pdu_def)
qed

lemma pdu_status_pos:
  assumes "0 < pdu_status t"
  obtains n where "default_len (got t) = int n" "0 < n" "length (got t) \<le> n" "nat (pdu_status t) = n"
proof -
  from assms have "pdu_status t = default_len (got t)" "0 < default_len (got t)"
      "int (length (got t)) \<le> default_len (got t)"
    by (auto simp: pdu_status_def Let_def split: if_splits)
  then show thesis using that [of "nat (default_len (got t))"] by simp
qed

lemma read_pdu_run:
  assumes contract: "front_contract B inp" and nb: "\<not> blocking t" and ok: "rx_ok t" and mode: "default_mode t"
  shows "\<exists>r t'. transport_default_read_pdu B t = Done r t' \<and> same_mode t t' \<and>
    (r < 0 \<or> r = 0 \<and> keeps inp t t' \<and> waiting t' \<or>
     0 < r \<and> delivered inp t t' \<and> r = int (length (frame (ReceiveBuffer t'))))"
proof -
  obtain b where b: "pdu_status t = 0 \<longrightarrow> b" and run: "transport_default_read_pdu B t =
      bind (run_loop (header_loop B (pdu_status t) b)) (\<lambda>r. case r of Inl rc \<Rightarrow> ret rc
        | Inr status \<Rightarrow> if status < 0 then ret (- 1) else read_rest B (nat status)) (sealed t)"
    using read_pdu_unfold [OF ok mode, of B] by blast
  have s: "rx_ok (sealed t)" "default_mode (sealed t)" "\<not> blocking (sealed t)" "keeps inp t (sealed t)"
    using ok mode nb keeps_sealed by simp_all
  from header_loop_run [OF contract s(3,1,2), of b] b obtain r t1 where
    h: "header_loop B (pdu_status t) b (sealed t) = Some (Done r t1)" "same_mode (sealed t) t1" and
    res: "case r of Inl rc \<Rightarrow> rc < 0 \<or> rc = 0 \<and> keeps inp (sealed t) t1 \<and> default_len (got t1) = 0
       | Inr status \<Rightarrow> keeps inp (sealed t) t1 \<and> status = pdu_status t1 \<and> status \<noteq> 0"
    by auto
  have m: "same_mode t t1" using sealed_simps(4) h(2) by (rule same_mode_trans)
  have loop: "run_loop (header_loop B (pdu_status t) b) (sealed t) = Done r t1" using h(1) by (simp add: run_loop_def)
  show ?thesis
  proof (cases r)
    case (Inl rc)
    then have "transport_default_read_pdu B t = Done rc t1" using run loop by simp
    moreover have "rc < 0 \<or> rc = 0 \<and> keeps inp t t1 \<and> waiting t1"
      using res Inl keeps_trans [OF s(4)] by (auto simp: waiting_def)
    ultimately show ?thesis using m by blast
  next
    case (Inr status)
    then have k: "keeps inp t t1" and st: "status = pdu_status t1" "status \<noteq> 0"
      using res keeps_trans [OF s(4)] by auto
    show ?thesis
    proof (cases "status < 0")
      case True
      then have "transport_default_read_pdu B t = Done (- 1) t1" using run loop Inr by simp
      with m show ?thesis by (intro exI [of _ "- 1"] exI [of _ t1]) simp
    next
      case False
      with st have "0 < pdu_status t1" by simp
      then obtain n where n: "default_len (got t1) = int n" "0 < n" "length (got t1) \<le> n" "nat status = n"
        unfolding st(1) by (rule pdu_status_pos)
      have "transport_default_read_pdu B t = read_rest B n t1" using run loop Inr False n(4) by simp
      moreover from read_rest_run [OF contract _ _ n(1-3)] k keeps_mode(2) [OF k nb] obtain r2 t2 where
        r2: "read_rest B n t1 = Done r2 t2" "same_mode t1 t2"
          "r2 < 0 \<or> r2 = 0 \<and> keeps inp t1 t2 \<and> default_len (got t2) = int n \<and> length (got t2) \<le> n \<or>
           r2 = int n \<and> delivered inp t1 t2 \<and> length (frame (ReceiveBuffer t2)) = n"
        by (auto simp: keeps_def)
      moreover have m2: "same_mode t t2" using m r2(2) by (rule same_mode_trans)
      moreover have "r2 < 0 \<or> r2 = 0 \<and> keeps inp t t2 \<and> waiting t2 \<or>
          0 < r2 \<and> delivered inp t t2 \<and> r2 = int (length (frame (ReceiveBuffer t2)))"
        using r2(3) keeps_trans [OF k] n(2) k m2 by (auto simp: waiting_def delivered_def keeps_def)
      ultimately show ?thesis by auto
    qed
  qed
qed

section \<open>Receiving PDUs one after the other\<close>

text \<open>
  The contract of a receiving socket: a receive takes a prefix of the bytes that arrive, no longer
  than asked for; an error and a wait take none.
\<close>

definition recv_contract :: "'k os_recv \<Rightarrow> ('k \<Rightarrow> int \<times> 'k) \<Rightarrow> ('k \<Rightarrow> byte list) \<Rightarrow> bool" where
  "recv_contract os_r os_wait arriving \<longleftrightarrow>
     (\<forall>k n. 0 < n \<longrightarrow> (case os_r k n of (r, e, k') \<Rightarrow>
        (case r of Some bs \<Rightarrow> length bs \<le> n \<and> arriving k = bs @ arriving k' | None \<Rightarrow> arriving k' = arriving k))) \<and>
     (\<forall>k. arriving (snd (os_wait k)) = arriving k)"

definition tcp_input :: "('k \<Rightarrow> byte list) \<Rightarrow> 'k simple_bio buffered_bio \<Rightarrow> byte list" where
  "tcp_input arriving st = arriving (sock (next_bio st))"

lemma tcp_front_contract:
  assumes "recv_contract os_r os_wait arriving"
  shows "front_contract (tcp_front os_s os_r os_wait stop) (tcp_input arriving)"
proof -
  let ?B = "tcp_front os_s os_r os_wait stop"
  have "case front_read ?B st n of (status, bs, st') \<Rightarrow>
        if status \<le> 0 then tcp_input arriving st' = tcp_input arriving st
        else length bs = nat status \<and> length bs \<le> n \<and> tcp_input arriving st = bs @ tcp_input arriving st'"
    if n: "0 < n" for st n
  proof -
    obtain r e k where rd: "os_r (sock (next_bio st)) n = (r, e, k)" by (cases "os_r (sock (next_bio st)) n") auto
    with assms n have "case r of Some bs \<Rightarrow> length bs \<le> n \<and> arriving (sock (next_bio st)) = bs @ arriving k
        | None \<Rightarrow> arriving k = arriving (sock (next_bio st))"
      by (auto simp: recv_contract_def dest!: spec [of _ "sock (next_bio st)"] spec [of _ n])
    with rd show ?thesis
      by (cases r) (auto simp: tcp_front_def transport_bio_buffered_read_def simple_bio_ops_def
          transport_bio_simple_read_def Let_def tcp_input_def)
  qed
  moreover have "tcp_input arriving (snd (front_wait_read ?B st)) = tcp_input arriving st" for st
    using assms by (auto simp: recv_contract_def tcp_front_def tcp_input_def split: prod.splits
        dest!: spec [of _ "sock (next_bio st)"])
  ultimately show ?thesis by (simp add: front_contract_def)
qed

text \<open>
  A transport ready to receive: its buffer is a stream in use of its pool, and every stream of the
  pool has room to grow.
\<close>

definition roomy :: "wStream \<Rightarrow> bool" where
  "roomy s \<longleftrightarrow> 0 < capacity s \<and> capacity s < 2 ^ 62 \<and> isOwner s"

definition rx_inv :: "('n, 'e) rdp_transport \<Rightarrow> bool" where
  "rx_inv t \<longleftrightarrow> rx_ok t \<and> default_mode t \<and> \<not> blocking t \<and> pool_inv (ReceivePool t) \<and>
     ReceiveAddress t \<in> set (in_use (ReceivePool t)) \<and>
     0 < defaultSize (ReceivePool t) \<and> defaultSize (ReceivePool t) < 2 ^ 62 \<and>
     (\<forall>a x. streams (ReceivePool t) a = Some x \<longrightarrow> roomy (p_stream x))"

text \<open>The array of pointers may be resized twice, once by taking and once by giving back.\<close>

definition pool_slack :: "nat pointer allocator \<Rightarrow> wStreamPool \<Rightarrow> bool" where
  "pool_slack A p \<longleftrightarrow> p_capacity (used p) < 2 ^ 57 \<and> p_capacity (available p) < 2 ^ 57 \<and>
     (\<forall>n. n \<le> 4 * p_capacity (used p) \<or> n \<le> 4 * p_capacity (available p) \<longrightarrow> grants A n)"

lemma slack_ready: "pool_slack A p \<Longrightarrow> pool_ready A p"
  by (auto simp: pool_slack_def pool_ready_def arr_ready_def)

lemma slack_taken: "pool_slack A p \<Longrightarrow> taken p n a p' \<Longrightarrow> pool_ready A p'"
  by (auto simp: pool_slack_def pool_ready_def arr_ready_def taken_def)

text \<open>
  The callback looks at the stream it is given and keeps its results in its own state, without
  touching the transport.
\<close>

definition observes :: "('n, 'e) TransportRecv \<Rightarrow> (wStream \<Rightarrow> 'e \<Rightarrow> state_run_t \<times> 'e) \<Rightarrow> bool" where
  "observes ReceiveCallback f \<longleftrightarrow>
     (\<forall>a t x. streams (ReceivePool t) a = Some x \<longrightarrow>
        ReceiveCallback (Some a) t =
          (fst (f (p_stream x) (ReceiveExtra t)), t\<lparr>ReceiveExtra := snd (f (p_stream x) (ReceiveExtra t))\<rparr>))"

lemma on_pool_run: "m (ReceivePool t) = Done v p \<Longrightarrow> on_pool m t = Done v (t\<lparr>ReceivePool := p\<rparr>)"
  by (simp add: on_pool_def)

text \<open>The part of \<open>transport_check_fds\<close> behind the reading of a PDU.\<close>

definition hand_over ::
    "nat pointer allocator \<Rightarrow> byte allocator \<Rightarrow> ('n, 'e) TransportRecv \<Rightarrow> ('n, 'e, int) tprog" where
  "hand_over A M cb =
     bind (gets ReceiveAddress) (\<lambda>received.
     seq check_in
    (bind (on_pool (StreamPool_Take A M 0)) (\<lambda>fresh.
     seq (check_out fresh)
    (if fresh = None then ret (- 1)
     else
       bind (\<lambda>t. case cb received t of (r, t') \<Rightarrow> Done r t') (\<lambda>recv_status.
       seq (on_pool (Stream_Release A received))
      (if state_run_failed recv_status then ret (- 1)
       else seq (modify (\<lambda>t. t\<lparr>haveMoreBytesToRead := True\<rparr>))
                (ret (state_value recv_status))))))))"

lemma check_in_run:
  assumes "ReceiveAddress t = Some a" and "streams (ReceivePool t) a = Some x"
  shows "check_in t = Done () (t\<lparr>ReceivePool := (ReceivePool t)\<lparr>streams :=
    (streams (ReceivePool t))(a \<mapsto> x\<lparr>p_stream := ReceiveBuffer t\<rparr>)\<rparr>\<rparr>)"
  using assms by (simp add: check_in_def on_pool_def assign_run)

lemma check_out_run:
  assumes "streams (ReceivePool t) b = Some y"
  shows "check_out (Some b) t = Done () (t\<lparr>ReceiveAddress := Some b, ReceiveBuffer := p_stream y\<rparr>)"
  using assms by (simp add: check_out_def on_pool_def deref_run)

text \<open>The pool across the exchange of the filled stream for a fresh one.\<close>

lemma exchange:
  assumes inv: "pool_inv p" and slack: "pool_slack A p" and a: "Some a \<in> set (in_use p)" "streams p a = Some x"
    and s: "stream_ok s" "isAllocatedStream s" "roomy s"
    and ds: "0 < defaultSize p" "defaultSize p < 2 ^ 62"
    and all: "\<forall>c z. streams p c = Some z \<longrightarrow> roomy (p_stream z)"
  shows "let p1 = p\<lparr>streams := (streams p)(a \<mapsto> x\<lparr>p_stream := s\<rparr>)\<rparr> in
    StreamPool_Take A M 0 p1 = Done None p1 \<and> \<not> (grants M 56 \<and> grants M (defaultSize p)) \<or>
    (\<exists>b y p2 p3. StreamPool_Take A M 0 p1 = Done (Some b) p2 \<and> streams p2 b = Some y \<and>
      streams p2 a = Some (x\<lparr>p_stream := s\<rparr>) \<and> Stream_Release A (Some a) p2 = Done () p3 \<and>
      pool_inv p3 \<and> Some b \<in> set (in_use p3) \<and> defaultSize p3 = defaultSize p \<and>
      stream_ok (p_stream y) \<and> isAllocatedStream (p_stream y) \<and> pointer (p_stream y) = 0 \<and> roomy (p_stream y) \<and>
      (\<forall>c z. streams p3 c = Some z \<longrightarrow> roomy (p_stream z)))"
proof -
  let ?x = "x\<lparr>p_stream := s\<rparr>"
  let ?p1 = "p\<lparr>streams := (streams p)(a \<mapsto> ?x)\<rparr>"
  obtain c z where "Some a = Some c" "streams p c = Some z" "p_pool z" "0 < p_count z"
    by (rule pool_inv_used [OF inv a(1)])
  then have x: "p_pool x" "0 < p_count x" using a(2) by simp_all
  have inv1: "pool_inv ?p1" using s x by (intro store_inv [OF inv a(1)]) (simp_all add: pooled_ok_def)
  have slack1: "pool_slack A ?p1" using slack by (simp add: pool_slack_def)
  have want: "wanted_size ?p1 0 = defaultSize p" "wanted_size ?p1 0 < 2 ^ 64" using ds by (simp_all add: wanted_size_def)
  have room1: "roomy (p_stream z)" if "streams ?p1 c = Some z" for c z
    using that s(3) all by (auto split: if_splits)
  from take_run [OF inv1 slack_ready [OF slack1] want(2), of M] show ?thesis
  proof
    assume none: "StreamPool_Take A M 0 ?p1 = Done None ?p1"
    have "\<not> (grants M 56 \<and> grants M (defaultSize p))"
      using take_refused [OF inv1 slack_ready [OF slack1] want(2) none] want(1) ds(1) by simp
    with none show ?thesis by (simp add: Let_def)
  next
    assume "\<exists>b p2. StreamPool_Take A M 0 ?p1 = Done (Some b) p2 \<and> pool_inv p2 \<and> taken ?p1 (wanted_size ?p1 0) b p2"
    then obtain b p2 where p2: "StreamPool_Take A M 0 ?p1 = Done (Some b) p2" "pool_inv p2"
        "taken ?p1 (defaultSize p) b p2"
      unfolding want(1) by blast
    then obtain y where y: "streams p2 b = Some y" "handed_out (defaultSize p) y"
        "same_memory (streams ?p1 b) (defaultSize p) (p_stream y)" and
      t: "Some b \<notin> set (in_use p)" "in_use p2 = in_use p @ [Some b]" "defaultSize p2 = defaultSize p"
        "\<And>c. c \<noteq> b \<Longrightarrow> streams p2 c = streams ?p1 c"
      by (auto simp: taken_def)
    have ne: "b \<noteq> a" using t(1) a(1) by blast
    then have xa: "streams p2 a = Some ?x" using t(4) [of a] by simp
    have ina: "Some a \<in> set (in_use p2)" using a(1) t(2) by simp
    from release_run [OF p2(2) slack_taken [OF slack1 p2(3)] ina xa] obtain p3 where
      p3: "Stream_Release A (Some a) p2 = Done () p3" "pool_inv p3"
        "streams p3 = (streams p2)(a \<mapsto> ?x\<lparr>p_count := p_count ?x - 1\<rparr>)"
        "in_use p3 = remove1 (Some a) (in_use p2) \<or> in_use p3 = in_use p2" "defaultSize p3 = defaultSize p2" by (auto split: if_splits)
    have inb: "Some b \<in> set (in_use p3)" using p3(4) t(2) ne by (auto simp: in_set_remove1)
    have yr: "roomy (p_stream y)"
      using y(2,3) room1 [of b] ds by (auto simp: handed_out_def same_memory_def roomy_def split: option.splits)
    have "roomy (p_stream z)" if z: "streams p3 c = Some z" for c z
      using z p3(3) s(3) yr y(1) t(4) [of c] room1 [of c z] by (cases "c = a"; cases "c = b") auto
    moreover have "stream_ok (p_stream y) \<and> isAllocatedStream (p_stream y) \<and> pointer (p_stream y) = 0"
      using y(2) by (simp add: handed_out_def pooled_ok_def)
    moreover have "defaultSize p3 = defaultSize p" using p3(5) t(3) by simp
    ultimately show ?thesis
      using p2(1) y(1) xa p3(1,2) inb yr unfolding Let_def by blast
  qed
qed

lemma hand_over_run:
  assumes inv: "rx_inv t" and slack: "pool_slack A (ReceivePool t)" and cb: "observes cb f"
    and t1: "rx_ok t1" "same_mode t t1"
  shows "\<exists>r t'. hand_over A M cb t1 = Done r t' \<and>
    (r = - 1 \<and> ReceiveExtra t' = ReceiveExtra t \<and> \<not> (grants M 56 \<and> grants M (defaultSize (ReceivePool t))) \<or>
     rx_inv t' \<and> got t' = [] \<and> to_come inp t' = to_come inp t1 \<and>
     ReceiveExtra t' = snd (f (ReceiveBuffer t1) (ReceiveExtra t)) \<and>
     r = (let rs = fst (f (ReceiveBuffer t1) (ReceiveExtra t)) in if state_run_failed rs then - 1 else state_value rs))"
proof -
  let ?p = "ReceivePool t"
  have I: "pool_inv ?p" "ReceiveAddress t \<in> set (in_use ?p)" "0 < defaultSize ?p" "defaultSize ?p < 2 ^ 62"
      "\<forall>c z. streams ?p c = Some z \<longrightarrow> roomy (p_stream z)" "default_mode t" "\<not> blocking t"
    using inv by (simp_all add: rx_inv_def)
  obtain a x where a: "ReceiveAddress t = Some a" "streams ?p a = Some x" by (rule pool_inv_used [OF I(1,2)])
  have ina: "Some a \<in> set (in_use ?p)" using I(2) a(1) by simp
  have M: "ReceiveAddress t1 = Some a" "ReceivePool t1 = ?p" "ReceiveExtra t1 = ReceiveExtra t" "default_mode t1"
      "\<not> blocking t1"
    using t1(2) a(1) I(6,7) by (simp_all add: same_mode_def default_mode_def)
  let ?s = "ReceiveBuffer t1"
  have s: "stream_ok ?s" "isAllocatedStream ?s" "roomy ?s" using t1(1) by (simp_all add: rx_ok_def roomy_def)
  let ?p1 = "?p\<lparr>streams := (streams ?p)(a \<mapsto> x\<lparr>p_stream := ?s\<rparr>)\<rparr>"
  define t2 where "t2 = t1\<lparr>ReceivePool := ?p1\<rparr>"
  have ci: "check_in t1 = Done () t2" using check_in_run [OF M(1)] a(2) M(2) by (simp add: t2_def)
  have pool2: "ReceivePool t2 = ?p1" by (simp add: t2_def)
  from exchange [where M = M, OF I(1) slack ina a(2) s I(3,4,5), unfolded Let_def] show ?thesis
  proof (elim disjE exE conjE)
    assume refused: "\<not> (grants M 56 \<and> grants M (defaultSize ?p))"
    assume "StreamPool_Take A M 0 ?p1 = Done None ?p1"
    then have "on_pool (StreamPool_Take A M 0) t2 = Done None (t2\<lparr>ReceivePool := ?p1\<rparr>)"
      unfolding pool2 [symmetric] by (rule on_pool_run)
    then have "hand_over A M cb t1 = Done (- 1) (t2\<lparr>ReceivePool := ?p1, ReceiveAddress := None\<rparr>)"
      using ci M(1) by (simp add: hand_over_def check_out_def)
    moreover have "ReceiveExtra (t2\<lparr>ReceivePool := ?p1, ReceiveAddress := None\<rparr>) = ReceiveExtra t"
      using M(3) by (simp add: t2_def)
    ultimately show ?thesis using refused by blast
  next
    fix b y p2 p3
    assume tk: "StreamPool_Take A M 0 ?p1 = Done (Some b) p2" and y: "streams p2 b = Some y"
      and xa: "streams p2 a = Some (x\<lparr>p_stream := ?s\<rparr>)" and rel: "Stream_Release A (Some a) p2 = Done () p3"
      and p3: "pool_inv p3" "Some b \<in> set (in_use p3)" "defaultSize p3 = defaultSize ?p"
      and ys: "stream_ok (p_stream y)" "isAllocatedStream (p_stream y)" "pointer (p_stream y) = 0" "roomy (p_stream y)"
      and all: "\<forall>c z. streams p3 c = Some z \<longrightarrow> roomy (p_stream z)"
    define e where "e = snd (f ?s (ReceiveExtra t))"
    define rs where "rs = fst (f ?s (ReceiveExtra t))"
    define t3 where "t3 = t2\<lparr>ReceivePool := p2\<rparr>"
    define t4 where "t4 = t3\<lparr>ReceiveAddress := Some b, ReceiveBuffer := p_stream y\<rparr>"
    define t5 where "t5 = t4\<lparr>ReceiveExtra := e\<rparr>"
    define t6 where "t6 = t5\<lparr>ReceivePool := p3\<rparr>"
    have 1: "on_pool (StreamPool_Take A M 0) t2 = Done (Some b) t3"
      unfolding t3_def using tk unfolding pool2 [symmetric] by (rule on_pool_run)
    have 2: "check_out (Some b) t3 = Done () t4" unfolding t4_def using y by (intro check_out_run) (simp add: t3_def)
    have "ReceivePool t4 = p2" "ReceiveExtra t4 = ReceiveExtra t" using M(3) by (simp_all add: t4_def t3_def t2_def)
    then have 3: "cb (Some a) t4 = (rs, t5)" using cb xa by (simp add: observes_def t5_def rs_def e_def)
    have "ReceivePool t5 = p2" by (simp add: t5_def t4_def t3_def)
    then have 4: "on_pool (Stream_Release A (Some a)) t5 = Done () t6"
      unfolding t6_def using rel by (intro on_pool_run) simp
    have run: "hand_over A M cb t1 = (if state_run_failed rs then Done (- 1) t6
        else Done (state_value rs) (t6\<lparr>haveMoreBytesToRead := True\<rparr>))"
      using ci M(1) 1 2 3 4 by (simp add: hand_over_def)
    have ok: "rx_inv u \<and> got u = [] \<and> to_come inp u = to_come inp t1 \<and> ReceiveExtra u = e"
      if "u = t6 \<or> u = t6\<lparr>haveMoreBytesToRead := True\<rparr>" for u
    proof -
      have u: "ReceivePool u = p3" "ReceiveAddress u = Some b" "ReceiveBuffer u = p_stream y" "ReceiveExtra u = e"
          "frontBio u = frontBio t1" "default_mode u = default_mode t1" "blocking u = blocking t1"
        using that by (auto simp: t6_def t5_def t4_def t3_def t2_def default_mode_def)
      have "frontBio t1 \<noteq> None" using t1(1) by (simp add: rx_ok_def)
      then show ?thesis
        using u p3 ys all I(3,4) M(4,5) by (simp add: rx_inv_def rx_ok_def got_def to_come_def roomy_def)
    qed
    show ?thesis
    proof (cases "state_run_failed rs")
      case True
      then have "hand_over A M cb t1 = Done (- 1) t6" using run by simp
      then show ?thesis
        unfolding e_def [symmetric] rs_def [symmetric] using ok [of t6] True by (intro exI [of _ "- 1"] exI [of _ t6]) simp
    next
      case False
      let ?u = "t6\<lparr>haveMoreBytesToRead := True\<rparr>"
      have "hand_over A M cb t1 = Done (state_value rs) ?u" using run False by simp
      then show ?thesis
        unfolding e_def [symmetric] rs_def [symmetric] using ok [of ?u] False by (intro exI [of _ "state_value rs"] exI [of _ ?u]) simp
    qed
  qed
qed

definition whole_pdu :: "byte list \<Rightarrow> bool" where
  "whole_pdu bs \<longleftrightarrow> default_len bs = int (length bs)"

lemma check_fds_run:
  assumes contract: "front_contract B inp" and inv: "rx_inv t" and open': "layer t \<noteq> TRANSPORT_LAYER_CLOSED"
    and slack: "pool_slack A (ReceivePool t)" and cb: "observes cb f"
  shows "\<exists>r t'. transport_check_fds A M B cb t = Done r t' \<and>
    (r < 0 \<and> ReceiveExtra t' = ReceiveExtra t \<or>
     r = 0 \<and> rx_inv t' \<and> ReceiveExtra t' = ReceiveExtra t \<and> whole inp t' = whole inp t \<or>
     (\<exists>s. rx_inv t' \<and> whole_pdu (frame s) \<and> frame s @ whole inp t' = whole inp t \<and>
        ReceiveExtra t' = snd (f s (ReceiveExtra t))))"
proof -
  have I: "rx_ok t" "default_mode t" "\<not> blocking t" "ReceiveAddress t \<in> set (in_use (ReceivePool t))"
      "pool_inv (ReceivePool t)"
    using inv by (simp_all add: rx_inv_def)
  obtain a x where a: "ReceiveAddress t = Some a" "streams (ReceivePool t) a = Some x" by (rule pool_inv_used [OF I(5,4)])
  from read_pdu_run [OF contract I(3,1,2)] obtain r t1 where
    rd: "transport_default_read_pdu B t = Done r t1" and m: "same_mode t t1" and
    res: "r < 0 \<or> r = 0 \<and> keeps inp t t1 \<and> waiting t1 \<or>
      0 < r \<and> delivered inp t t1 \<and> r = int (length (frame (ReceiveBuffer t1)))" by blast
  let ?u = "t1\<lparr>haveMoreBytesToRead := False\<rparr>"
  have read: "transport_read_pdu B t = Done r t1" using rd a(1) by (simp add: transport_read_pdu_def)
  have run: "transport_check_fds A M B cb t = (if r \<le> 0 then Done r ?u else hand_over A M cb t1)"
    using open' read by (simp add: transport_check_fds_def hand_over_def)
  have extra: "ReceiveExtra ?u = ReceiveExtra t" using m by (simp add: same_mode_def)
  show ?thesis
  proof (cases "0 < r")
    case False
    then have "transport_check_fds A M B cb t = Done r ?u" using run by simp
    moreover have "r < 0 \<or> r = 0 \<and> rx_inv ?u \<and> whole inp ?u = whole inp t"
    proof (cases "r = 0")
      case True
      with res have k: "keeps inp t t1" by simp
      have "rx_ok ?u" "whole inp ?u = whole inp t" "ReceivePool ?u = ReceivePool t" "default_mode ?u" "\<not> blocking ?u"
          "ReceiveAddress ?u = ReceiveAddress t"
        using k I m by (auto simp: keeps_def rx_ok_def whole_def got_def to_come_def same_mode_def default_mode_def)
      then show ?thesis using True inv by (simp add: rx_inv_def)
    qed (use False in simp)
    ultimately show ?thesis using extra by blast
  next
    case True
    with res have d: "delivered inp t t1" by simp
    then have ok1: "rx_ok t1" and w: "frame (ReceiveBuffer t1) @ to_come inp t1 = whole inp t"
      and pdu: "whole_pdu (frame (ReceiveBuffer t1))"
      by (simp_all add: delivered_def whole_pdu_def)
    from hand_over_run [OF inv slack cb ok1 m, of M inp] obtain r2 t2 where
      h: "hand_over A M cb t1 = Done r2 t2" and
      h2: "r2 = - 1 \<and> ReceiveExtra t2 = ReceiveExtra t \<or>
        rx_inv t2 \<and> got t2 = [] \<and> to_come inp t2 = to_come inp t1 \<and>
        ReceiveExtra t2 = snd (f (ReceiveBuffer t1) (ReceiveExtra t))" by blast
    have "transport_check_fds A M B cb t = Done r2 t2" using run True h by simp
    moreover have "got t2 = [] \<Longrightarrow> to_come inp t2 = to_come inp t1 \<Longrightarrow>
        frame (ReceiveBuffer t1) @ whole inp t2 = whole inp t"
      using w by (simp add: whole_def)
    ultimately show ?thesis using h2 pdu by (intro exI [of _ r2] exI [of _ t2]) auto
  qed
qed

text \<open>
  Calling \<open>transport_check_fds\<close> any number of times, as the event loop does, as long as it reports no
  error.
\<close>

inductive polls ::
    "nat pointer allocator \<Rightarrow> byte allocator \<Rightarrow> 'n front_ops \<Rightarrow> ('n, 'e) TransportRecv \<Rightarrow>
     ('n, 'e) rdp_transport \<Rightarrow> ('n, 'e) rdp_transport \<Rightarrow> bool" for A M B cb where
  idle: "polls A M B cb t t"
| poll: "polls A M B cb t u \<Longrightarrow> layer u \<noteq> TRANSPORT_LAYER_CLOSED \<Longrightarrow> pool_slack A (ReceivePool u) \<Longrightarrow>
    transport_check_fds A M B cb u = Done r v \<Longrightarrow> 0 \<le> r \<Longrightarrow> polls A M B cb t v"

definition logs :: "('e \<Rightarrow> byte list list) \<Rightarrow> (wStream \<Rightarrow> 'e \<Rightarrow> state_run_t \<times> 'e) \<Rightarrow> bool" where
  "logs log f \<longleftrightarrow> (\<forall>s e. log (snd (f s e)) = log e @ [frame s])"

lemma polls_inv:
  assumes "polls A M B cb t u" and "front_contract B inp" and "rx_inv t" and "observes cb f" and "logs log f"
    and "list_all whole_pdu (log (ReceiveExtra t))"
  shows "rx_inv u \<and> list_all whole_pdu (log (ReceiveExtra u)) \<and>
    concat (log (ReceiveExtra u)) @ whole inp u = concat (log (ReceiveExtra t)) @ whole inp t"
  using assms
proof (induction rule: polls.induct)
  case (poll t u r v)
  then have IH: "rx_inv u" "list_all whole_pdu (log (ReceiveExtra u))"
      "concat (log (ReceiveExtra u)) @ whole inp u = concat (log (ReceiveExtra t)) @ whole inp t" by simp_all
  from check_fds_run [OF poll.prems(1) IH(1) poll.hyps(2,3) poll.prems(3), of M] poll.hyps(4,5)
  consider "rx_inv v" "ReceiveExtra v = ReceiveExtra u" "whole inp v = whole inp u"
    | s where "rx_inv v" "whole_pdu (frame s)" "frame s @ whole inp v = whole inp u"
        "ReceiveExtra v = snd (f s (ReceiveExtra u))"
    by auto
  then show ?case
  proof cases
    case 1
    then show ?thesis using IH by simp
  next
    case 2
    then have "log (ReceiveExtra v) = log (ReceiveExtra u) @ [frame s]" using poll.prems(4) by (simp add: logs_def)
    then show ?thesis using 2 IH by simp
  qed
qed simp

section \<open>Progress\<close>

text \<open>
  A front BIO that delivers whenever bytes are there, on a connection nobody wants to close, with
  memory for the receive buffer.
\<close>

definition prompt :: "'n front_ops \<Rightarrow> ('n \<Rightarrow> byte list) \<Rightarrow> bool" where
  "prompt B inp \<longleftrightarrow> front_contract B inp \<and> (\<forall>n. \<not> shall_disconnect B n) \<and>
     (\<forall>n r. 0 < r \<longrightarrow> inp n \<noteq> [] \<longrightarrow> 0 < fst (front_read B n r))"

lemma read_layer_prompt:
  assumes "prompt B inp" and "frontBio t = Some n" and "length acc \<le> bytes" and "bytes - length acc \<le> length (inp n)"
    and "bytes - length acc = k"
  shows "\<exists>bs t'. read_layer_loop B bytes acc n t = Some (int bytes, bs, t')"
  using assms
proof (induction k arbitrary: acc n t rule: less_induct)
  case (less k)
  show ?case
  proof (cases "length acc < bytes")
    case False
    with less.prems show ?thesis by (subst read_layer_loop.simps) simp
  next
    case True
    define r where "r = (if bytes - length acc > 2147483647 then 2147483647 else bytes - length acc)"
    have r: "0 < r" "r \<le> bytes - length acc" using True by (auto simp: r_def)
    obtain status bs n' where rd: "front_read B n r = (status, bs, n')" by (cases "front_read B n r") auto
    have "inp n \<noteq> []" using less.prems(4) True by auto
    then have pos: "0 < status" and nd: "\<not> shall_disconnect B n'"
      using less.prems(1) r(1) rd unfolding prompt_def by (metis fst_conv)+
    have "case front_read B n r of (status, bs, n') \<Rightarrow> if status \<le> 0 then inp n' = inp n
        else length bs = nat status \<and> length bs \<le> r \<and> inp n = bs @ inp n'"
      using less.prems(1) r(1) by (simp add: prompt_def front_contract_def)
    then have bs: "length bs = nat status" "length bs \<le> r" "inp n = bs @ inp n'" using rd pos by simp_all
    note unf = read_layer_loop.simps [of B bytes acc n t, unfolded Let_def, folded r_def, unfolded rd prod.case]
    let ?t = "t\<lparr>frontBio := Some n', inBytes := inBytes t + word_of_int status\<rparr>"
    have eq: "read_layer_loop B bytes acc n t = read_layer_loop B bytes (acc @ bs) n' ?t"
      using True unf pos nd by simp
    have dec: "bytes - length (acc @ bs) < k" using less.prems(5) True pos bs(1) by simp
    have "\<exists>cs t'. read_layer_loop B bytes (acc @ bs) n' ?t = Some (int bytes, cs, t')"
      using less.prems(4) bs r(2) True by (intro less.IH [OF dec less.prems(1)]) simp_all
    then show ?thesis unfolding eq .
  qed
qed

lemma read_bytes_prompt:
  assumes pr: "prompt B inp" and nb: "\<not> blocking t" and ok: "rx_ok t" and room: "k \<le> room (ReceiveBuffer t)"
    and k: "0 < k" "k \<le> length (to_come inp t)"
  shows "\<exists>t' bs. transport_read_layer_bytes B k t = Done 1 t' \<and> keeps inp t t' \<and> got t' = got t @ bs \<and> length bs = k"
proof -
  have contract: "front_contract B inp" using pr by (simp add: prompt_def)
  obtain n where n: "frontBio t = Some n" using ok by (auto simp: rx_ok_def)
  have lim: "k < 2 ^ 62" using ok room by (auto simp: rx_ok_def room_def)
  have "to_come inp t = inp n" using n by (simp add: to_come_def)
  then obtain bs t1 where l: "read_layer_loop B k [] n t = Some (int k, bs, t1)"
    using read_layer_prompt [OF pr n, of "[]" k] k by auto
  from read_layer_bytes_run [OF contract nb ok room] obtain rc t' where
    rd: "transport_read_layer_bytes B k t = Done rc t'" "same_mode t t'" and
    res: "rc < 0 \<or> rx_ok t' \<and> capacity (ReceiveBuffer t') = capacity (ReceiveBuffer t) \<and> whole inp t' = whole inp t \<and>
     (\<exists>bs. got t' = got t @ bs \<and> length bs \<le> k \<and> (if 0 < k \<and> length bs = k then rc = 1 else rc = 0))" by blast
  have "transport_read_layer_bytes B k t =
    seq (on_buffer (store bs)) (seq (on_buffer (Stream_Seek k)) (ret 1)) t1"
    using l n lim k(1) by (simp add: transport_read_layer_bytes_def transport_read_layer_def)
  then have "rc = 1" using rd(1) by (auto simp: seq_def bind_def split: outcome.splits)
  with res obtain cs where "rx_ok t'" "whole inp t' = whole inp t" "got t' = got t @ cs" "length cs = k"
    by (auto split: if_splits)
  with rd \<open>rc = 1\<close> show ?thesis by (auto simp: keeps_def)
qed

text \<open>The one complete PDU whose header is all of it: the long fast-path form with length three.\<close>

definition header_only :: "byte list \<Rightarrow> bool" where
  "header_only f \<longleftrightarrow> length f = 3 \<and> f ! 0 \<noteq> 3 \<and> 128 \<le> unat (f ! 1)"

lemma checks_lower: "0 < tpkt_check n \<Longrightarrow> 7 \<le> tpkt_check n" "0 < fp_check n \<Longrightarrow> 3 \<le> fp_check n"
  by (auto simp: tpkt_check_def fp_check_def split: if_splits)

lemma header_shorter:
  assumes "default_len xs = 0" and "default_len (xs @ [b]) = int (length f)" and "f \<noteq> []"
    and pre: "f = (xs @ [b]) @ r" and "\<not> header_only f"
  shows "length xs + 1 < length f"
proof (cases xs)
  case Nil
  with assms show ?thesis by (simp split: if_splits)
next
  case (Cons v xs')
  show ?thesis
  proof (cases "v = 3")
    case True
    with Cons assms(1-3) obtain x a where xs': "xs' = [x, a]"
      by (auto split: list.splits if_splits simp: append_eq_Cons_conv)
    then have "tpkt_check (256 * uint a + uint b) = int (length f)" using assms(2) Cons True by simp
    then have "7 \<le> int (length f)" using checks_lower(1) [of "256 * uint a + uint b"] assms(3) by simp
    then show ?thesis using Cons xs' by simp
  next
    case False
    show ?thesis
    proof (cases xs')
      case Nil
      have "unat b < 128" using assms(2,3) Cons False Nil by (auto split: if_splits)
      then have "fp_check (uint b) = int (length f)" using assms(2) Cons False Nil by simp
      then have "3 \<le> int (length f)" using checks_lower(2) [of "uint b"] assms(3) by simp
      then show ?thesis using Cons Nil by simp
    next
      case (Cons l xs'')
      then have l: "\<not> unat l < 128" "xs'' = []"
        using assms(1) \<open>xs = v # xs'\<close> False by (auto split: if_splits list.splits)
      then have "fp_check (int (256 * (unat l - 128)) + uint b) = int (length f)"
        using assms(2) \<open>xs = v # xs'\<close> Cons False by simp
      then have "3 \<le> int (length f)"
        using checks_lower(2) [of "int (256 * (unat l - 128)) + uint b"] assms(3) by simp
      moreover have "length f \<noteq> 3" using assms(5) pre \<open>xs = v # xs'\<close> Cons l False by (auto simp: header_only_def)
      ultimately show ?thesis using \<open>xs = v # xs'\<close> Cons l by simp
    qed
  qed
qed

definition granted :: "('n, 'e) rdp_transport \<Rightarrow> bool" where
  "granted t \<longleftrightarrow> malloc_ok (ReceiveBuffer t) = (\<lambda>_. True)"

lemma granted_mode: "same_mode t u \<Longrightarrow> granted t \<Longrightarrow> granted u"
  by (simp add: same_mode_def granted_def)

lemma ensure_granted:
  assumes "malloc_ok s = (\<lambda>_. True)"
  shows "Stream_EnsureCapacity n s \<noteq> Failed s'" and "Stream_EnsureRemainingCapacity n s \<noteq> Failed s'"
proof -
  show *: "Stream_EnsureCapacity n s \<noteq> Failed s'" for n
    using assms by (auto simp: Stream_EnsureCapacity_def Stream_SetPosition_def Let_def split: option.split)
  show "Stream_EnsureRemainingCapacity n s \<noteq> Failed s'"
    using * by (auto simp: Stream_EnsureRemainingCapacity_def)
qed

lemma on_buffer_granted:
  assumes "granted t"
  shows "on_buffer (Stream_EnsureCapacity n) t \<noteq> Failed t'" and "on_buffer (Stream_EnsureRemainingCapacity n) t \<noteq> Failed t'"
  using assms ensure_granted [of "ReceiveBuffer t"]
  by (auto simp: granted_def on_buffer_def split: outcome.splits)

text \<open>What is left of a PDU \<open>f\<close> that has been received in part.\<close>

definition partly :: "('n \<Rightarrow> byte list) \<Rightarrow> byte list \<Rightarrow> byte list \<Rightarrow> ('n, 'e) rdp_transport \<Rightarrow> bool" where
  "partly inp f rest t \<longleftrightarrow> whole inp t = f @ rest \<and> whole_pdu f \<and> \<not> header_only f \<and> length (got t) < length f \<and>
     granted t \<and> rx_ok t \<and> default_mode t \<and> \<not> blocking t"

lemma partly_pre:
  assumes "partly inp f rest t"
  obtains r where "f = got t @ r" "r \<noteq> []" "to_come inp t = r @ rest"
proof -
  from assms have w: "got t @ to_come inp t = f @ rest" and l: "length (got t) < length f"
    by (simp_all add: partly_def whole_def)
  then obtain r where "f = got t @ r" "to_come inp t = r @ rest"
    by (auto simp: append_eq_append_conv2)
  with l that show thesis by auto
qed

lemma partly_len:
  assumes "partly inp f rest t" and "default_len (got t) \<noteq> 0"
  shows "default_len (got t) = int (length f)"
proof -
  from assms(1) obtain r where "f = got t @ r" by (rule partly_pre)
  then have "default_len f = default_len (got t)" using default_len_mono [OF assms(2), of r] by simp
  with assms(1) show ?thesis by (simp add: partly_def whole_pdu_def)
qed

lemma header_byte_prompt:
  assumes pr: "prompt B inp" and p: "partly inp f rest t" and zero: "default_len (got t) = 0"
  shows "\<exists>t1 t2. on_buffer (Stream_EnsureRemainingCapacity 1) t = Done () t1 \<and>
    transport_read_layer_bytes B 1 t1 = Done 1 t2 \<and> partly inp f rest t2 \<and> length (got t2) = length (got t) + 1 \<and>
    keeps inp t t2"
proof -
  have P: "granted t" "rx_ok t" "default_mode t" "\<not> blocking t" "whole inp t = f @ rest" "\<not> header_only f" "whole_pdu f"
      "length (got t) < length f"
    using p by (simp_all add: partly_def)
  obtain r where r: "f = got t @ r" "r \<noteq> []" "to_come inp t = r @ rest" by (rule partly_pre [OF p])
  let ?s = "ReceiveBuffer t"
  have st: "stream_ok ?s" "0 < capacity ?s" "isOwner ?s" "capacity ?s < 2 ^ 62" using P(2) by (auto simp: rx_ok_def)
  have "length (got t) < 4" using zero default_len_known [of "got t"] by linarith
  then have pos: "pointer ?s < 4" using length_got [OF P(2)] by simp
  from ensure_one_cases [OF st] ensure_granted(2) [of ?s 1 ?s] P(1) obtain z where
    z: "Stream_EnsureRemainingCapacity 1 ?s = Done () (grown z ?s)" "pointer ?s + 1 \<le> capacity ?s + z"
      "z = 0 \<or> capacity ?s + z < 2 * (pointer ?s + 1)"
    by (auto simp: granted_def)
  let ?t1 = "t\<lparr>ReceiveBuffer := grown z ?s\<rparr>"
  have "capacity ?s + z < 2 ^ 62" using z(3) pos st(4) by auto
  note g = grown_buffer [OF P(2) this]
  have k1: "keeps inp t ?t1" using g by (simp add: keeps_def whole_def g(2) g(3))
  have "1 \<le> room (ReceiveBuffer ?t1)" "1 \<le> length (to_come inp ?t1)" using z(2) r(2,3) g(3) [of inp]
    by (cases r; simp add: room_def)+
  then obtain t2 bs where t2: "transport_read_layer_bytes B 1 ?t1 = Done 1 t2" "keeps inp ?t1 t2" "got t2 = got t @ bs"
      "length bs = 1"
    using read_bytes_prompt [OF pr keeps_mode(2) [OF k1 P(4)] g(1), of 1] g(2) by auto
  have k: "keeps inp t t2" using keeps_trans [OF k1 t2(2)] .
  then have "whole inp t2 = f @ rest" "rx_ok t2" "default_mode t2" "\<not> blocking t2" "granted t2"
    using P keeps_mode [OF k] granted_mode [of t t2] by (simp_all add: keeps_def)
  moreover obtain b where b: "bs = [b]" using t2(4) by (auto simp: length_Suc_conv)
  moreover have "length (got t2) < length f"
  proof -
    obtain c r' where c: "r = c # r'" using r(2) by (cases r) auto
    have "got t @ b # to_come inp t2 = got t @ c # r' @ rest"
      using \<open>whole inp t2 = f @ rest\<close> t2(3) b r(1) c by (simp add: whole_def)
    then have f: "f = (got t @ [b]) @ r'" using r(1) c by simp
    show ?thesis
    proof (cases "default_len (got t @ [b]) = 0")
      case False
      then have "default_len (got t @ [b]) = int (length f)"
        using default_len_mono [of "got t @ [b]" r'] f P(7) by (simp add: whole_pdu_def)
      moreover have "f \<noteq> []" using f by simp
      ultimately show ?thesis using header_shorter [OF zero _ _ f P(6)] t2(3) b by simp
    next
      case True
      have "r' \<noteq> []"
      proof
        assume "r' = []"
        then have "default_len f = 0" using f True by simp
        moreover have "0 < length f" using f by simp
        ultimately show False using P(7) by (simp add: whole_pdu_def)
      qed
      then show ?thesis using f t2(3) b by (cases r') simp_all
    qed
  qed
  ultimately have "partly inp f rest t2" using P(6,7) by (simp add: partly_def)
  moreover have "on_buffer (Stream_EnsureRemainingCapacity 1) t = Done () ?t1" using z(1) by simp
  ultimately show ?thesis using t2(1,3,4) k by (intro exI [of _ ?t1] exI [of _ t2]) simp
qed

lemma partly_sealed [simp]: "partly inp f rest t \<Longrightarrow> partly inp f rest (sealed t)"
proof -
  have "granted (sealed t) = granted t" by (simp add: granted_def sealed_def)
  then show "partly inp f rest t \<Longrightarrow> partly inp f rest (sealed t)" by (simp add: partly_def)
qed

lemma partly_status:
  assumes p: "partly inp f rest t" and "default_len (got t) \<noteq> 0"
  shows "pdu_status t = int (length f)"
  using partly_len [OF assms] p by (simp add: pdu_status_def Let_def partly_def)

lemma header_loop_prompt:
  assumes "prompt B inp" and "partly inp f rest t" and "pdu_status t = 0 \<longrightarrow> incomplete" and "4 - length (got t) = k"
  shows "\<exists>t'. header_loop B (pdu_status t) incomplete t = Some (Done (Inr (int (length f))) t') \<and>
    partly inp f rest t' \<and> default_len (got t') \<noteq> 0"
  using assms
proof (induction k arbitrary: t incomplete rule: less_induct)
  case (less k)
  note pr = less.prems(1) and p = less.prems(2)
  show ?case
  proof (cases "default_len (got t) = 0")
    case False
    then have "pdu_status t = int (length f)" "0 < length f" using partly_status [OF p] p by (auto simp: partly_def)
    then have "header_loop B (pdu_status t) incomplete t = Some (Done (Inr (int (length f))) t)"
      by (subst header_loop.simps) simp
    with p False show ?thesis by blast
  next
    case True
    then have st: "pdu_status t = 0" and inc: "incomplete = True" using less.prems(3) pdu_status_zero by auto
    obtain t1 t2 where t2: "on_buffer (Stream_EnsureRemainingCapacity 1) t = Done () t1"
        "transport_read_layer_bytes B 1 t1 = Done 1 t2" "partly inp f rest t2" "length (got t2) = length (got t) + 1"
      using header_byte_prompt [OF pr p True] by blast
    have "rx_ok t2" "default_mode t2" using t2(3) by (simp_all add: partly_def)
    then obtain c where c: "transport_parse_pdu t2 = Done (pdu_status t2, c) (sealed t2)" "pdu_status t2 = 0 \<longrightarrow> c"
      using parse_pdu_run by blast
    have step: "header_loop B (pdu_status t) incomplete t = header_loop B (pdu_status (sealed t2)) c (sealed t2)"
      unfolding st inc header_loop.simps [of B 0 True t] using t2(1,2) c(1) by simp
    have "length (got t) < 4" using True default_len_known [of "got t"] by linarith
    then have "4 - length (got (sealed t2)) < k" using less.prems(4) t2(4) by simp
    from less.IH [OF this pr, of "sealed t2" c] t2(3) c(2) show ?thesis unfolding step by simp
  qed
qed

lemma read_rest_prompt:
  assumes pr: "prompt B inp" and p: "partly inp f rest t" and n: "default_len (got t) \<noteq> 0"
  shows "\<exists>t'. read_rest B (length f) t = Done (int (length f)) t' \<and> delivered inp t t' \<and>
    frame (ReceiveBuffer t') = f \<and> to_come inp t' = rest"
proof -
  have P: "granted t" "rx_ok t" "\<not> blocking t" "whole inp t = f @ rest" "length (got t) < length f"
    using p by (simp_all add: partly_def)
  have contract: "front_contract B inp" using pr by (simp add: prompt_def)
  have len: "default_len (got t) = int (length f)" using partly_len [OF p n] .
  have le: "0 < length f" "length (got t) \<le> length f" using P(5) by linarith+
  from read_rest_run [OF contract P(3,2) len le] obtain r t' where
    r: "read_rest B (length f) t = Done r t'" and
    res: "r < 0 \<or> r = 0 \<and> keeps inp t t' \<and> default_len (got t') = int (length f) \<and> length (got t') \<le> length f \<or>
     r = int (length f) \<and> delivered inp t t' \<and> length (frame (ReceiveBuffer t')) = length f" by blast
  let ?s = "ReceiveBuffer t"
  have st: "stream_ok ?s" "0 < capacity ?s" "isOwner ?s" "capacity ?s < 2 ^ 62" using P(2) by (auto simp: rx_ok_def)
  have small: "length f \<le> 0xFFFF" using default_len_bounds(2) [of "got t"] len by simp
  have "length f \<le> 2 ^ 62" using small by simp
  from ensure_capacity_cases [OF st(1-3) this] ensure_granted(1) [of ?s "length f" ?s] P(1) obtain z where
    z: "Stream_EnsureCapacity (length f) ?s = Done () (grown z ?s)" "length f \<le> capacity ?s + z"
      "z = 0 \<or> capacity ?s + z < 2 * length f"
    by (auto simp: granted_def)
  let ?t1 = "t\<lparr>ReceiveBuffer := grown z ?s\<rparr>"
  have "capacity ?s + z < 2 ^ 62" using z(3) small st(4) by auto
  note g = grown_buffer [OF P(2) this]
  have k1: "keeps inp t ?t1" using g by (simp add: keeps_def whole_def g(2) g(3))
  have pos: "pointer ?s = length (got t)" using length_got [OF P(2)] by simp
  obtain q where q: "f = got t @ q" "to_come inp t = q @ rest" by (rule partly_pre [OF p])
  have room: "length f - pointer ?s \<le> room (ReceiveBuffer ?t1)" using z(2) by (simp add: room_def)
  have enough: "length f - pointer ?s \<le> length (to_come inp ?t1)" "0 < length f - pointer ?s"
    using q P(5) pos unfolding g(3) by simp_all
  obtain t2 bs where t2: "transport_read_layer_bytes B (length f - pointer ?s) ?t1 = Done 1 t2" "keeps inp ?t1 t2"
      "got t2 = got t @ bs" "length bs = length f - pointer ?s"
    using read_bytes_prompt [OF pr keeps_mode(2) [OF k1 P(3)] g(1) room enough(2,1)] g(2) by auto
  have "length (got t2) = length f" "rx_ok t2" using t2(2-4) pos P(5) by (simp_all add: keeps_def)
  then obtain u where "finish_pdu t2 = Done (int (length f)) u" using finish_pdu_run [of t2] small by metis
  then have "read_rest B (length f) t = Done (int (length f)) u"
    using z(1) t2(1) pos P(5) by (simp add: read_rest_def or_value_def)
  then have "r = int (length f)" using r by simp
  then have d: "delivered inp t t'" "length (frame (ReceiveBuffer t')) = length f" using res le by auto
  then have "frame (ReceiveBuffer t') @ to_come inp t' = f @ rest" using P(4) by (simp add: delivered_def)
  then have "frame (ReceiveBuffer t') = f" "to_come inp t' = rest" using d(2) by simp_all
  with r d \<open>r = int (length f)\<close> show ?thesis by auto
qed

lemma read_pdu_prompt:
  assumes pr: "prompt B inp" and p: "partly inp f rest t"
  shows "\<exists>t'. transport_default_read_pdu B t = Done (int (length f)) t' \<and> frame (ReceiveBuffer t') = f \<and>
    to_come inp t' = rest"
proof -
  have "rx_ok t" "default_mode t" using p by (simp_all add: partly_def)
  then obtain b where b: "pdu_status t = 0 \<longrightarrow> b" and run: "transport_default_read_pdu B t =
      bind (run_loop (header_loop B (pdu_status t) b)) (\<lambda>r. case r of Inl rc \<Rightarrow> ret rc
        | Inr status \<Rightarrow> if status < 0 then ret (- 1) else read_rest B (nat status)) (sealed t)"
    using read_pdu_unfold [of t B] by blast
  obtain t1 where t1: "header_loop B (pdu_status t) b (sealed t) = Some (Done (Inr (int (length f))) t1)"
      "partly inp f rest t1" "default_len (got t1) \<noteq> 0"
    using header_loop_prompt [OF pr partly_sealed [OF p], of b] b by auto
  have "transport_default_read_pdu B t = read_rest B (length f) t1"
    using run t1(1) by (simp add: run_loop_def)
  then show ?thesis using read_rest_prompt [OF pr t1(2,3)] by auto
qed

lemma check_fds_delivers:
  assumes pr: "prompt B inp" and inv: "rx_inv t" and p: "partly inp bs rest t" and open': "layer t \<noteq> TRANSPORT_LAYER_CLOSED"
    and slack: "pool_slack A (ReceivePool t)" and cb: "observes cb f"
    and mem: "grants M 56" "grants M (defaultSize (ReceivePool t))"
  shows "\<exists>s r t'. transport_check_fds A M B cb t = Done r t' \<and> frame s = bs \<and> rx_inv t' \<and> whole inp t' = rest \<and>
    ReceiveExtra t' = snd (f s (ReceiveExtra t)) \<and>
    r = (let rs = fst (f s (ReceiveExtra t)) in if state_run_failed rs then - 1 else state_value rs)"
proof -
  have I: "rx_ok t" "default_mode t" "\<not> blocking t" "ReceiveAddress t \<in> set (in_use (ReceivePool t))"
      "pool_inv (ReceivePool t)"
    using inv by (simp_all add: rx_inv_def)
  have contract: "front_contract B inp" using pr by (simp add: prompt_def)
  obtain a x where a: "ReceiveAddress t = Some a" "streams (ReceivePool t) a = Some x" by (rule pool_inv_used [OF I(5,4)])
  obtain t1 where t1: "transport_default_read_pdu B t = Done (int (length bs)) t1" "frame (ReceiveBuffer t1) = bs"
      "to_come inp t1 = rest"
    using read_pdu_prompt [OF pr p] by blast
  have pos: "0 < length bs" using p by (auto simp: partly_def)
  from read_pdu_run [OF contract I(3,1,2)] t1(1) pos have m: "same_mode t t1" and ok1: "rx_ok t1"
    by (auto simp: delivered_def)
  have "transport_read_pdu B t = Done (int (length bs)) t1" using t1(1) a(1) by (simp add: transport_read_pdu_def)
  then have "transport_check_fds A M B cb t = hand_over A M cb t1"
    using open' pos by (simp add: transport_check_fds_def hand_over_def)
  moreover obtain r u where "hand_over A M cb t1 = Done r u" "rx_inv u" "got u = []" "to_come inp u = to_come inp t1"
      "ReceiveExtra u = snd (f (ReceiveBuffer t1) (ReceiveExtra t))"
      "r = (let rs = fst (f (ReceiveBuffer t1) (ReceiveExtra t)) in if state_run_failed rs then - 1 else state_value rs)"
    using hand_over_run [OF inv slack cb ok1 m, of M inp] mem by blast
  ultimately show ?thesis
    using t1 by (intro exI [of _ "ReceiveBuffer t1"] exI [of _ r] exI [of _ u]) (simp add: whole_def)
qed

text \<open>A socket that hands out bytes as long as it has some, on a connection nobody wants to close.\<close>

definition hands_out :: "'k os_recv \<Rightarrow> ('k \<Rightarrow> bool) \<Rightarrow> ('k \<Rightarrow> byte list) \<Rightarrow> bool" where
  "hands_out os_r stop arriving \<longleftrightarrow>
     (\<forall>k. \<not> stop k) \<and>
     (\<forall>k n. 0 < n \<longrightarrow> arriving k \<noteq> [] \<longrightarrow> (case os_r k n of (r, _) \<Rightarrow> (case r of None \<Rightarrow> False | Some bs \<Rightarrow> bs \<noteq> [])))"

lemma tcp_front_prompt:
  assumes "recv_contract os_r os_wait arriving" and "hands_out os_r stop arriving"
  shows "prompt (tcp_front os_s os_r os_wait stop) (tcp_input arriving)"
proof -
  have "0 < fst (front_read (tcp_front os_s os_r os_wait stop) st n)" if "0 < n" "tcp_input arriving st \<noteq> []" for st n
  proof -
    obtain r e k where rd: "os_r (sock (next_bio st)) n = (r, e, k)" by (cases "os_r (sock (next_bio st)) n") auto
    have "case os_r (sock (next_bio st)) n of (r, _) \<Rightarrow> (case r of None \<Rightarrow> False | Some bs \<Rightarrow> bs \<noteq> [])"
      using assms(2) that by (simp add: hands_out_def tcp_input_def)
    with rd obtain bs where "r = Some bs" "bs \<noteq> []" by (auto split: option.splits)
    with rd show ?thesis
      by (simp add: tcp_front_def transport_bio_buffered_read_def simple_bio_ops_def transport_bio_simple_read_def Let_def)
  qed
  moreover have "\<not> shall_disconnect (tcp_front os_s os_r os_wait stop) st" for st
    using assms(2) by (simp add: tcp_front_def hands_out_def)
  ultimately show ?thesis using tcp_front_contract [OF assms(1)] by (simp add: prompt_def)
qed

section \<open>Properties\<close>

text \<open>
  A socket that hands out at most two bytes per call and then says that it would block; a transport
  that waits for its first PDU on such a socket.
\<close>

definition demo_arrivals :: "byte list os_recv" where
  "demo_arrivals k n = (if k = [] then (None, WSAEWOULDBLOCK, k) else (Some (take (min n 2) k), WSAEOther, drop (min n 2) k))"

definition demo_front :: "byte list simple_bio buffered_bio front_ops" where
  "demo_front = tcp_front (\<lambda>k bs. (0, WSAEOther, k)) demo_arrivals (\<lambda>k. (1, k)) (\<lambda>_. False)"

definition demo_rx :: "byte list \<Rightarrow> (byte list simple_bio buffered_bio, byte list list) rdp_transport" where
  "demo_rx k =
     \<lparr>layer = TRANSPORT_LAYER_TCP,
      frontBio = Some \<lparr>next_bio = \<lparr>sock = k, FLAGS_READ = False, FLAGS_WRITE = False, FLAGS_SHOULD_RETRY = False\<rparr>,
        readBlocked = False, writeBlocked = False,
        xmitBuffer = \<lparr>initialSize = 0, freeSize = 0, rsize = 0, readPtr = 0, writePtr = 0, rbuffer = None\<rparr>,
        bFLAGS_READ = False, bFLAGS_WRITE = False, bFLAGS_SHOULD_RETRY = True\<rparr>,
      ReceiveBuffer = p_stream (demo_stream16 1), ReceiveAddress = Some 0, ReceivePool = demo_taken,
      ReceiveExtra = [], NlaMode = False, RdstlsMode = False, AadMode = False, earlyUserAuth = False, blocking = False,
      haveMoreBytesToRead = False, inBytes = 0, connect_failed = False, written = 0, outBytes = 0,
      WaitForOutputBufferFlush = True\<rparr>"

lemma demo_arrivals_contract: "recv_contract demo_arrivals (\<lambda>k. (1, k)) id"
  by (auto simp: recv_contract_def demo_arrivals_def)

lemma demo_rx_simps [simp]:
  "rx_ok (demo_rx k)" "default_mode (demo_rx k)" "\<not> blocking (demo_rx k)" "got (demo_rx k) = []"
  "to_come (tcp_input id) (demo_rx k) = k" "ReceiveExtra (demo_rx k) = []" "granted (demo_rx k)"
  "layer (demo_rx k) = TRANSPORT_LAYER_TCP" "ReceivePool (demo_rx k) = demo_taken"
  "ReceiveAddress (demo_rx k) = Some 0"
  by (simp_all add: demo_rx_def rx_ok_def default_mode_def got_def to_come_def tcp_input_def demo_stream16_def
      stream_ok_def granted_def)

text \<open>
  C14. One call of the PDU reader over a plain, non-blocking connection in the default mode. It always returns, whatever arrives and
  however the socket splits it. It reports an error; or it reports 0, has kept every byte it read
  in the receive buffer and still waits; or it reports the length of a frame, the receive buffer
  holds exactly that many bytes, they are what the header announces, and they are the next bytes of
  the input, with everything behind them still to come.
\<close>

theorem transport_frames_input:
  assumes "recv_contract os_r os_wait arriving" and "\<not> blocking t" and "rx_ok t" and "default_mode t"
  shows "\<exists>r t'. transport_default_read_pdu (tcp_front os_s os_r os_wait stop) t = Done r t' \<and>
    (r < 0 \<or>
     r = 0 \<and> rx_ok t' \<and> waiting t' \<and>
       got t' @ to_come (tcp_input arriving) t' = got t @ to_come (tcp_input arriving) t \<or>
     0 < r \<and> rx_ok t' \<and> pointer (ReceiveBuffer t') = 0 \<and> r = int (length (frame (ReceiveBuffer t'))) \<and>
       default_len (frame (ReceiveBuffer t')) = r \<and>
       frame (ReceiveBuffer t') @ to_come (tcp_input arriving) t' = got t @ to_come (tcp_input arriving) t)"
proof -
  let ?B = "tcp_front os_s os_r os_wait stop"
  from read_pdu_run [OF tcp_front_contract [OF assms(1)] assms(2-4), of os_s stop] obtain r t' where
    "transport_default_read_pdu ?B t = Done r t'"
    "r < 0 \<or> r = 0 \<and> keeps (tcp_input arriving) t t' \<and> waiting t' \<or>
     0 < r \<and> delivered (tcp_input arriving) t t' \<and> r = int (length (frame (ReceiveBuffer t')))"
    by blast
  then show ?thesis
    by (intro exI [of _ r] exI [of _ t']) (auto simp: keeps_def delivered_def whole_def)
qed

theorem transport_frames_input_witness:
  "\<exists>r t'. transport_default_read_pdu demo_front (demo_rx [3, 0, 0, 8, 1, 2, 3, 4, 9]) = Done r t' \<and>
    (r < 0 \<or>
     r = 0 \<and> rx_ok t' \<and> waiting t' \<and> got t' @ to_come (tcp_input id) t' = [3, 0, 0, 8, 1, 2, 3, 4, 9] \<or>
     0 < r \<and> rx_ok t' \<and> pointer (ReceiveBuffer t') = 0 \<and> r = int (length (frame (ReceiveBuffer t'))) \<and>
       default_len (frame (ReceiveBuffer t')) = r \<and>
       frame (ReceiveBuffer t') @ to_come (tcp_input id) t' = [3, 0, 0, 8, 1, 2, 3, 4, 9])"
  using transport_frames_input [OF demo_arrivals_contract, of "demo_rx [3, 0, 0, 8, 1, 2, 3, 4, 9]"]
  by (simp add: demo_front_def)

text \<open>
  C2. Every PDU once and in order, on a non-blocking connection in the default mode whose receive
  callback looks at the stream it is given and changes its own state only. However often the event loop calls \<^verbatim>\<open>transport_check_fds\<close>, as long
  as no call reports an error: the frames handed to the receive callback, one behind the other,
  followed by the bytes in the receive buffer and the bytes still to come, are the bytes that were
  there at the start, and each frame is one whole PDU. The receive buffer is exchanged through the
  stream pool between two frames, the next call always returns and never touches memory outside
  the buffer.
\<close>

theorem transport_receives_in_order:
  assumes "recv_contract os_r os_wait arriving" and "rx_inv t" and "observes cb f" and "logs log f"
    and "list_all whole_pdu (log (ReceiveExtra t))"
    and "polls A M (tcp_front os_s os_r os_wait stop) cb t u"
  shows "concat (log (ReceiveExtra u)) @ got u @ to_come (tcp_input arriving) u =
      concat (log (ReceiveExtra t)) @ got t @ to_come (tcp_input arriving) t \<and>
    list_all whole_pdu (log (ReceiveExtra u)) \<and>
    (layer u \<noteq> TRANSPORT_LAYER_CLOSED \<and> pool_slack A (ReceivePool u) \<longrightarrow>
      (\<exists>r v. transport_check_fds A M (tcp_front os_s os_r os_wait stop) cb u = Done r v))"
proof -
  note contract = tcp_front_contract [OF assms(1), of os_s stop]
  have inv: "rx_inv u \<and> list_all whole_pdu (log (ReceiveExtra u)) \<and>
      concat (log (ReceiveExtra u)) @ whole (tcp_input arriving) u =
      concat (log (ReceiveExtra t)) @ whole (tcp_input arriving) t"
    using polls_inv [OF assms(6) contract assms(2-5)] .
  moreover have "\<exists>r v. transport_check_fds A M (tcp_front os_s os_r os_wait stop) cb u = Done r v"
    if "layer u \<noteq> TRANSPORT_LAYER_CLOSED" "pool_slack A (ReceivePool u)"
    using check_fds_run [OF contract _ that assms(3), of M] inv by blast
  ultimately show ?thesis by (simp add: whole_def)
qed

definition demo_callback :: "(byte list simple_bio buffered_bio, byte list list) TransportRecv" where
  "demo_callback a t =
     (case a of None \<Rightarrow> (STATE_RUN_FAILED, t)
      | Some a \<Rightarrow> (case streams (ReceivePool t) a of
          None \<Rightarrow> (STATE_RUN_FAILED, t)
        | Some x \<Rightarrow> (STATE_RUN_SUCCESS, t\<lparr>ReceiveExtra := ReceiveExtra t @ [frame (p_stream x)]\<rparr>)))"

lemma demo_callback_law:
  "observes demo_callback (\<lambda>s e. (STATE_RUN_SUCCESS, e @ [frame s]))" "logs id (\<lambda>s e. (STATE_RUN_SUCCESS, e @ [frame s]))"
  by (simp_all add: observes_def logs_def demo_callback_def)

lemma demo_rx_inv: "rx_inv (demo_rx k)"
proof -
  have "pool_inv demo_taken"
    using demo_pool_run(3)
    by (intro pool_reachable_inv [of demo_pointers demo_bytes] pool_reachable.step [OF demo_pool_run(4)]
        pool_step.take [OF demo_pool_run(2) _ demo_take]) simp
  moreover have "Some 0 \<in> set (in_use demo_taken)" "defaultSize demo_taken = 1024"
    by (simp_all add: demo_taken_def in_use_def cells_def demo_array_def)
  moreover have "roomy (p_stream x)" if "streams demo_taken a = Some x" for a x
    using that by (auto simp: demo_taken_def roomy_def demo_stream16_def split: if_splits)
  ultimately show ?thesis by (simp add: rx_inv_def)
qed

lemma demo_slack: "pool_slack demo_pointers demo_taken"
  by (simp add: pool_slack_def demo_taken_def demo_array_def demo_pointers_def)

lemma demo_hands_out: "hands_out demo_arrivals (\<lambda>_. False) id"
  by (auto simp: hands_out_def demo_arrivals_def)

lemma demo_partly: "partly (tcp_input id) [3, 0, 0, 8, 1, 2, 3, 4] [9] (demo_rx [3, 0, 0, 8, 1, 2, 3, 4, 9])"
  by (simp add: partly_def whole_def whole_pdu_def header_only_def tpkt_check_def)

theorem transport_receives_in_order_witness:
  "\<exists>u. polls demo_pointers demo_bytes demo_front demo_callback (demo_rx [3, 0, 0, 8, 1, 2, 3, 4, 9]) u \<and>
    ReceiveExtra u = [[3, 0, 0, 8, 1, 2, 3, 4]] \<and> got u @ to_come (tcp_input id) u = [9]"
proof -
  let ?t = "demo_rx [3, 0, 0, 8, 1, 2, 3, 4, 9]"
  have pr: "prompt demo_front (tcp_input id)"
    unfolding demo_front_def by (rule tcp_front_prompt [OF demo_arrivals_contract demo_hands_out])
  have slack: "pool_slack demo_pointers (ReceivePool ?t)" using demo_slack by simp
  obtain u where u: "transport_check_fds demo_pointers demo_bytes demo_front demo_callback ?t = Done 0 u"
      "ReceiveExtra u = [[3, 0, 0, 8, 1, 2, 3, 4]]"
    using check_fds_delivers [OF pr demo_rx_inv demo_partly _ slack demo_callback_law(1), of demo_bytes]
    by (auto simp: demo_bytes_def)
  have p: "polls demo_pointers demo_bytes demo_front demo_callback ?t u"
    using slack by (intro polls.poll [OF polls.idle _ _ u(1)]) simp_all
  have "concat (ReceiveExtra u) @ got u @ to_come (tcp_input id) u = [3, 0, 0, 8, 1, 2, 3, 4, 9]"
    using transport_receives_in_order [OF demo_arrivals_contract demo_rx_inv demo_callback_law _ p [unfolded demo_front_def]]
    by simp
  then show ?thesis using p u(2) by auto
qed

text \<open>
  C4. Progress, on a non-blocking connection in the default mode. When a whole PDU has arrived, of which the reader has seen a strict part so far, and
  the socket hands out bytes as long as it has some, one call delivers exactly this PDU and leaves
  everything behind it for the next. The only complete PDU excluded is the one that consists of
  nothing but its header.
\<close>

theorem complete_pdu_delivered:
  assumes "recv_contract os_r os_wait arriving" and "hands_out os_r stop arriving"
    and "rx_ok t" and "default_mode t" and "\<not> blocking t" and "granted t"
    and "got t @ to_come (tcp_input arriving) t = f @ rest" and "length (got t) < length f"
    and "whole_pdu f" and "\<not> header_only f"
  shows "\<exists>t'. transport_default_read_pdu (tcp_front os_s os_r os_wait stop) t = Done (int (length f)) t' \<and>
    frame (ReceiveBuffer t') = f \<and> to_come (tcp_input arriving) t' = rest"
  using assms by (intro read_pdu_prompt tcp_front_prompt) (simp_all add: partly_def whole_def)

theorem complete_pdu_delivered_witness:
  "\<exists>t'. transport_default_read_pdu demo_front (demo_rx [3, 0, 0, 8, 1, 2, 3, 4, 9]) = Done 8 t' \<and>
    frame (ReceiveBuffer t') = [3, 0, 0, 8, 1, 2, 3, 4] \<and> to_come (tcp_input id) t' = [9]"
proof -
  have "whole_pdu [3, 0, 0, 8, 1, 2, 3, 4]" "\<not> header_only [3, 0, 0, 8, 1, 2, 3, 4]"
    by (simp_all add: whole_pdu_def header_only_def tpkt_check_def)
  then show ?thesis
    using complete_pdu_delivered [OF demo_arrivals_contract demo_hands_out, of "demo_rx [3, 0, 0, 8, 1, 2, 3, 4, 9]"
        "[3, 0, 0, 8, 1, 2, 3, 4]" "[9]" "\<lambda>k bs. (0, WSAEOther, k)"]
    by (simp add: demo_front_def)
qed

lemma stalled_run:
  assumes ok: "rx_ok t" and mode: "default_mode t" and len: "default_len (got t) = int (length (got t))" "0 < length (got t)"
  shows "transport_default_read_pdu B t = Done 0 (sealed t)"
proof -
  let ?n = "length (got t)"
  let ?t = "sealed t"
  have st: "pdu_status t = int ?n" using len by (simp add: pdu_status_def)
  obtain b where run: "transport_default_read_pdu B t =
      bind (run_loop (header_loop B (pdu_status t) b)) (\<lambda>r. case r of Inl rc \<Rightarrow> ret rc
        | Inr status \<Rightarrow> if status < 0 then ret (- 1) else read_rest B (nat status)) ?t"
    using read_pdu_unfold [OF ok mode, of B] by blast
  have "header_loop B (int ?n) b ?t = Some (Done (Inr (int ?n)) ?t)"
    using len(2) by (subst header_loop.simps) simp
  then have "transport_default_read_pdu B t = read_rest B ?n ?t" using run st by (simp add: run_loop_def)
  moreover have pos: "pointer (ReceiveBuffer ?t) = ?n" using length_got [OF ok] by simp
  have cap: "?n \<le> capacity (ReceiveBuffer ?t)" using ok length_got [OF ok] by (simp add: rx_ok_def stream_ok_def)
  then have "on_buffer (Stream_EnsureCapacity ?n) ?t = Done () ?t"
    by (simp add: on_buffer_def Stream_EnsureCapacity_def)
  moreover have "transport_read_layer_bytes B 0 ?t = Done 0 ?t"
  proof -
    obtain n where n: "frontBio ?t = Some n" using sealed_simps(3) [OF ok] by (auto simp: rx_ok_def)
    have "pointer (ReceiveBuffer ?t) \<le> length (buffer (ReceiveBuffer ?t))"
      using sealed_simps(3) [OF ok] by (simp add: rx_ok_def stream_ok_def)
    moreover have "read_layer_loop B 0 [] n ?t = Some (0, [], ?t)" by (subst read_layer_loop.simps) simp
    ultimately show ?thesis
      using n by (simp add: transport_read_layer_bytes_def transport_read_layer_def on_buffer_def store_def)
  qed
  ultimately show ?thesis using pos by (simp add: read_rest_def or_value_def)
qed

text \<open>
  C37. A PDU that is nothing but its header is never delivered. Once the three bytes of a long
  fast-path header that announces a length of three are in the receive buffer, the reader asks the
  front BIO for zero further bytes, takes the zero it gets for missing data and returns 0, in the
  same state, on this and on every later call, whatever arrives.
\<close>

theorem header_only_pdu_stalls:
  assumes "rx_ok t" and "default_mode t" and "whole_pdu (got t)" and "header_only (got t)"
  shows "\<exists>t'. transport_default_read_pdu B t = Done 0 t' \<and> got t' = got t \<and> to_come inp t' = to_come inp t \<and>
    (\<forall>B' fb. transport_default_read_pdu B' (t'\<lparr>frontBio := Some fb\<rparr>) = Done 0 (t'\<lparr>frontBio := Some fb\<rparr>))"
proof -
  have len: "default_len (got t) = int (length (got t))" "0 < length (got t)"
    using assms(3,4) by (simp_all add: whole_pdu_def header_only_def)
  have "transport_default_read_pdu B' ((sealed t)\<lparr>frontBio := Some fb\<rparr>) = Done 0 ((sealed t)\<lparr>frontBio := Some fb\<rparr>)"
    for B' fb
  proof -
    let ?t = "(sealed t)\<lparr>frontBio := Some fb\<rparr>"
    have "rx_ok ?t" "default_mode ?t" "got ?t = got t"
      using sealed_simps(3) [OF assms(1)] assms(2) by (auto simp: rx_ok_def default_mode_def sealed_def got_def)
    moreover have "sealed ?t = ?t" by (simp add: sealed_def)
    ultimately show ?thesis using stalled_run [of ?t B'] len by simp
  qed
  then show ?thesis
    using stalled_run [OF assms(1,2) len, of B] by (intro exI [of _ "sealed t"]) simp
qed

definition demo_stalled :: "(byte list simple_bio buffered_bio, byte list list) rdp_transport" where
  "demo_stalled = (demo_rx [7, 7])\<lparr>ReceiveBuffer :=
     \<lparr>buffer = [0, 0x80, 3, 0], pointer = 3, s_length = 4, capacity = 4,
      isAllocatedStream = True, isOwner = True, malloc_ok = \<lambda>_. True\<rparr>\<rparr>"

theorem header_only_pdu_stalls_witness:
  "\<exists>t'. transport_default_read_pdu demo_front demo_stalled = Done 0 t' \<and> got t' = [0, 0x80, 3] \<and>
    to_come (tcp_input id) t' = [7, 7] \<and>
    (\<forall>B' fb. transport_default_read_pdu B' (t'\<lparr>frontBio := Some fb\<rparr>) = Done 0 (t'\<lparr>frontBio := Some fb\<rparr>))"
proof -
  have "rx_ok demo_stalled" "default_mode demo_stalled" "got demo_stalled = [0, 0x80, 3]"
      "to_come (tcp_input id) demo_stalled = [7, 7]"
    by (simp_all add: demo_stalled_def demo_rx_def rx_ok_def stream_ok_def default_mode_def got_def to_come_def
        tcp_input_def take_Suc numeral_3_eq_3)
  then show ?thesis
    using header_only_pdu_stalls [of demo_stalled demo_front "tcp_input id"]
    by (simp add: whole_pdu_def header_only_def fp_check_def)
qed

text \<open>
  C39. The early user authorization result is four bytes, but the reader does not count the bytes it
  already has. When an earlier call got \<open>k\<close> of them and the socket would block, the next call asks
  for four more and reports \<open>k + 4\<close> bytes as one PDU, the first \<open>k\<close> of the next PDU among them.
\<close>

theorem early_user_auth_merges:
  assumes "rx_ok t" and "earlyUserAuth t" and "\<not> AadMode t" and "frontBio t = Some n"
    and "front_read B n 4 = (4, bs, n')" and "length bs = 4" and "\<not> shall_disconnect B n'"
    and "length (got t) < 4" and "length (got t) + 4 \<le> capacity (ReceiveBuffer t)"
  shows "\<exists>t'. transport_default_read_pdu B t = Done (int (length (got t)) + 4) t' \<and>
    frame (ReceiveBuffer t') = got t @ bs"
proof -
  let ?s = "ReceiveBuffer t"
  let ?t1 = "t\<lparr>frontBio := Some n', inBytes := inBytes t + 4\<rparr>"
  let ?t2 = "?t1\<lparr>ReceiveBuffer := put bs ?s\<rparr>"
  have st: "stream_ok ?s" using assms(1) by (simp add: rx_ok_def)
  have pos: "pointer ?s = length (got t)" using length_got [OF assms(1)] by simp
  have room: "length bs \<le> room ?s" using assms(6,9) pos by (simp add: room_def)
  have "read_layer_loop B 4 [] n t = read_layer_loop B 4 bs n' ?t1"
    using assms(5,7) by (subst read_layer_loop.simps) simp
  also have "\<dots> = Some (4, bs, ?t1)" using assms(6) by (subst read_layer_loop.simps) simp
  finally have l: "transport_read_layer B 4 t = Some (4, bs, ?t1)"
    using assms(4) by (simp add: transport_read_layer_def)
  let ?stored = "?s\<lparr>buffer := splice_at (pointer ?s) bs (buffer ?s)\<rparr>"
  have store: "store bs ?s = Done () ?stored" using st room by (auto simp: store_def stream_ok_def room_def)
  have "Stream_Seek 4 ?stored = Done () (put bs ?s)" using store_put [OF st room] store assms(6) by simp
  then have rd: "transport_read_layer_bytes B 4 t = Done 1 ?t2"
    using l store by (simp add: transport_read_layer_bytes_def on_buffer_def)
  have ok2: "rx_ok ?t2" using assms(1) room by (auto simp: rx_ok_def)
  have got2: "got ?t2 = got t @ bs" using got_put [OF assms(1) room] by (simp add: got_def)
  have small: "length (got ?t2) \<le> 0xFFFF" using got2 assms(6,8) by simp
  have ens: "on_buffer (Stream_EnsureCapacity 4) t = Done () t"
    using assms(9) by (simp add: on_buffer_def Stream_EnsureCapacity_def)
  obtain t' where t': "finish_pdu ?t2 = Done (int (length (got t)) + 4) t'" "frame (ReceiveBuffer t') = got t @ bs"
    using finish_pdu_run [OF ok2 small] assms(6) unfolding got2 by auto
  have "transport_default_read_pdu B t = Done (int (length (got t)) + 4) t'"
    using assms(2,3) ens rd t'(1) by (simp add: transport_default_read_pdu_def or_value_def)
  with t'(2) show ?thesis by blast
qed

definition demo_auth :: "(byte list, byte list list) rdp_transport" where
  "demo_auth =
     \<lparr>layer = TRANSPORT_LAYER_TLS, frontBio = Some [0, 0, 9, 9],
      ReceiveBuffer = \<lparr>buffer = [0, 0, 0, 0, 0, 0, 0, 0], pointer = 2, s_length = 8, capacity = 8,
        isAllocatedStream = True, isOwner = True, malloc_ok = \<lambda>_. True\<rparr>,
      ReceiveAddress = Some 0, ReceivePool = demo_taken, ReceiveExtra = [], NlaMode = False, RdstlsMode = False,
      AadMode = False, earlyUserAuth = True, blocking = False, haveMoreBytesToRead = False, inBytes = 0,
      connect_failed = False, written = 0, outBytes = 0,
      WaitForOutputBufferFlush = True\<rparr>"

theorem early_user_auth_merges_witness:
  "\<exists>t'. transport_default_read_pdu
      \<lparr>front_read = \<lambda>k n. (int (length (take n k)), take n k, drop n k), front_should_retry = \<lambda>_. True,
       front_wait_read = \<lambda>k. (1, k), shall_disconnect = \<lambda>_. False\<rparr> demo_auth = Done (int (length (got demo_auth)) + 4) t' \<and>
    frame (ReceiveBuffer t') = got demo_auth @ [0, 0, 9, 9]"
  by (rule early_user_auth_merges [where n = "[0, 0, 9, 9]" and n' = "[]"])
    (simp_all add: demo_auth_def rx_ok_def stream_ok_def got_def)

lemma reader_need [reader_intros]: "reader k (need n) n"
  by (auto simp: reader_def need_run intro!: exI [of _ 0])

lemma on_received_safe:
  assumes "stream_ok s" and "reader 0 m 0"
  shows "\<exists>v. on_received (or_value 0 m) s = Done v s"
  using assms(2) static_over_ok(1) [OF assms(1)]
  by (auto simp: on_received_run or_value_def reader_def split: outcome.splits)

lemma length_readers:
  "reader 0 nla_mode_length 0" "reader 0 default_mode_length 0" "reader 0 rdstls_length 0"
proof -
  have skip: "reader k skip_counted 0" for k
    unfolding skip_counted_def by (rule reader_intros reader_last | simp)+
  have data: "reader 0 (rdstls_parse_pdu_data_type d) 0" for d
    unfolding rdstls_parse_pdu_data_type_def by (rule reader_intros reader_last skip | simp)+
  show "reader 0 nla_mode_length 0" unfolding nla_mode_length_def by (rule reader_intros reader_last | simp)+
  show "reader 0 default_mode_length 0"
    unfolding default_mode_length_def Let_def by (rule reader_intros reader_last | simp)+
  show "reader 0 rdstls_length 0" unfolding rdstls_length_def by (rule reader_intros reader_last data | simp)+
qed

text \<open>
  The three parsers that look for the length of a PDU, for the default, the NLA and the RDSTLS
  mode, are safe on every prefix of every input: each returns a length and leaves the receive buffer
  as it was.
\<close>

theorem pdu_length_parsers_safe:
  assumes "stream_ok s"
  shows "(\<exists>v. parse_default_mode_pdu s = Done v s) \<and> (\<exists>v. parse_nla_mode_pdu s = Done v s) \<and>
    (\<exists>v. rdstls_parse_pdu s = Done v s)"
  unfolding parse_default_mode_pdu_def parse_nla_mode_pdu_def rdstls_parse_pdu_def
  using on_received_safe [OF assms] length_readers by blast

theorem pdu_length_parsers_safe_witness:
  "(\<exists>v. parse_default_mode_pdu (demo_stream 3) = Done v (demo_stream 3)) \<and>
   (\<exists>v. parse_nla_mode_pdu (demo_stream 3) = Done v (demo_stream 3)) \<and>
   (\<exists>v. rdstls_parse_pdu (demo_stream 3) = Done v (demo_stream 3))"
  by (rule pdu_length_parsers_safe) simp

end
