(* ===== verification/TransportWrite.thy ===== *)
theory TransportWrite
  imports Transport
begin

text \<open>
  The sending side of the transport, \<^verbatim>\<open>transport_default_write\<close> of \<^verbatim>\<open>libfreerdp/core/transport.c\<close>:
  the loop that writes a PDU to the front BIO, the inner loop that waits for the transmit buffer to
  be written out, and the closing of the layer on an error. Both loops may run forever; the lemmas
  show that on a plain connection they end when the socket does not refuse writes forever, and that
  the bytes go out once and in order. Also how the front BIO is put on a socket, and how streams of the
  pool are taken for sending and written.
\<close>

section \<open>Writing to the front BIO\<close>

text \<open>
  The calls of the sending side on the front BIO: \<^verbatim>\<open>BIO_write\<close> with the bytes from the stream's
  pointer on and their number, \<^verbatim>\<open>BIO_should_retry\<close>, \<^verbatim>\<open>BIO_wait_write\<close>, \<^verbatim>\<open>BIO_write_blocked\<close> and
  \<^verbatim>\<open>BIO_flush\<close>.
\<close>

record 'n out_ops =
  out_write :: "byte list \<Rightarrow> int \<Rightarrow> ('n, int) prog"
  out_should_retry :: "'n \<Rightarrow> bool"
  out_wait_write :: "'n \<Rightarrow> int \<times> 'n"
  out_write_blocked :: "'n \<Rightarrow> bool"
  out_flush :: "('n, int) prog"

text \<open>
  The inner loop waits until the transmit buffer has been written out; the result is whether it
  has. \<open>None\<close> is a loop that never ends.
\<close>

partial_function (option) drain_loop :: "'n out_ops \<Rightarrow> 'n \<Rightarrow> ('n, bool) outcome option" where
  "drain_loop W n =
     (if \<not> out_write_blocked W n then Some (Done True n)
      else (case out_wait_write W n of (w, n1) \<Rightarrow>
        if w < 0 then Some (Done False n1)
        else (case out_flush W n1 of
                Done r n2 \<Rightarrow> if r < 1 then Some (Done False n2) else drain_loop W n2
              | Failed n2 \<Rightarrow> Some (Failed n2)
              | Fault e \<Rightarrow> Some (Fault e))))"

text \<open>
  The outer loop, with \<open>len\<close> bytes left and the last status; the result is the status at
  \<^verbatim>\<open>out_cleanup\<close> and whether the loop came to its end. \<^verbatim>\<open>BIO_write\<close> takes an \<^verbatim>\<open>int\<close>.
\<close>

definition as_int :: "nat \<Rightarrow> int" where
  "as_int n = sint (of_nat n :: 32 word)"

partial_function (option) write_loop ::
    "'n out_ops \<Rightarrow> bool \<Rightarrow> bool \<Rightarrow> nat \<Rightarrow> int \<Rightarrow> 'n \<times> wStream \<Rightarrow> ('n \<times> wStream, int \<times> bool) outcome option" where
  "write_loop W block flush len status ns =
     (case ns of (n, s) \<Rightarrow>
      if len = 0 then Some (Done (status, True) (n, s))
      else (case out_write W (take (nat (as_int len)) (drop (pointer s) (buffer s))) (as_int len) n of
              Fault e \<Rightarrow> Some (Fault e)
            | Failed n1 \<Rightarrow> Some (Failed (n1, s))
            | Done st n1 \<Rightarrow>
                if st \<le> 0
                then if \<not> out_should_retry W n1 \<or> \<not> block then Some (Done (st, False) (n1, s))
                     else (case out_wait_write W n1 of (w, n2) \<Rightarrow>
                             if w < 0 then Some (Done (- 1, False) (n2, s))
                             else write_loop W block flush len st (n2, s))
                else (case if block \<or> flush then drain_loop W n1 else Some (Done True n1) of
                        None \<Rightarrow> None
                      | Some (Fault e) \<Rightarrow> Some (Fault e)
                      | Some (Failed n2) \<Rightarrow> Some (Failed (n2, s))
                      | Some (Done ok n2) \<Rightarrow>
                          if \<not> ok then Some (Done (- 1, False) (n2, s))
                          else (case Stream_Seek (nat st) s of
                                  Fault e \<Rightarrow> Some (Fault e)
                                | Failed s1 \<Rightarrow> Some (Failed (n2, s1))
                                | Done _ s1 \<Rightarrow>
                                    write_loop W block flush (sub64 len (nat st)) st (n2, s1)))))"

text \<open>
  The function on a stream that is not null, with the \<^verbatim>\<open>out_cleanup\<close> tail. The counter \<^verbatim>\<open>written\<close> is a
  \<^verbatim>\<open>ULONG\<close> of 32 bits. \<^verbatim>\<open>Stream_AddRef\<close> at the start and \<^verbatim>\<open>Stream_Release\<close> at the end act on streams of a
  pool only, see \<open>transport_write_pooled\<close> below; on a stream of its own, as MCS sends, they do nothing.
\<close>

definition out_cleanup :: "int \<Rightarrow> ('n, 'e) rdp_transport \<Rightarrow> ('n, 'e) rdp_transport" where
  "out_cleanup status t = (if status < 0 then transport_fail t else t)"

definition transport_default_write ::
    "'n out_ops \<Rightarrow> (('n, 'e) rdp_transport \<times> wStream, int) prog" where
  "transport_default_write W ts =
     (case ts of (t, s) \<Rightarrow>
      case frontBio t of
        None \<Rightarrow> Done (- 1) (out_cleanup (- 1) t, s)
      | Some n \<Rightarrow>
          (let len = pointer s;
               writtenlength = as_int len;
               t1 = (if len > 0 then t\<lparr>outBytes := outBytes t + of_nat len\<rparr> else t)
           in case Stream_SetPosition 0 s of
                Fault e \<Rightarrow> Fault e
              | Failed s1 \<Rightarrow> Failed (t, s1)
              | Done _ s1 \<Rightarrow>
                  (case write_loop W (blocking t) (WaitForOutputBufferFlush t) len (- 1) (n, s1) of
                     None \<Rightarrow> Fault NonTermination
                   | Some (Fault e) \<Rightarrow> Fault e
                   | Some (Failed (n2, s2)) \<Rightarrow> Failed (t1\<lparr>frontBio := Some n2\<rparr>, s2)
                   | Some (Done (status, finished) (n2, s2)) \<Rightarrow>
                       (let t2 = t1\<lparr>frontBio := Some n2\<rparr>;
                            t3 = (if finished then t2\<lparr>written := written t2 + of_int writtenlength\<rparr> else t2)
                        in Done status (out_cleanup status t3, s2)))))"

text \<open>
  The calls of the loops when the front BIO is, on a plain connection, the buffered BIO on the socket
  BIO; \<open>os_wait\<close> is the poll behind \<^verbatim>\<open>BIO_wait_write\<close>.
\<close>

definition tcp_out ::
    "byte allocator \<Rightarrow> 'k os_send \<Rightarrow> 'k os_recv \<Rightarrow> ('k \<Rightarrow> int \<times> 'k) \<Rightarrow> 'k simple_bio buffered_bio out_ops" where
  "tcp_out A os_s os_r os_wait =
     \<lparr>out_write = (\<lambda>data num. transport_bio_buffered_write A (simple_bio_ops os_s os_r) (Some data) num),
      out_should_retry = bFLAGS_SHOULD_RETRY,
      out_wait_write = (\<lambda>st. case os_wait (sock (next_bio st)) of (w, k) \<Rightarrow>
        (w, st\<lparr>next_bio := (next_bio st)\<lparr>sock := k\<rparr>\<rparr>)),
      out_write_blocked = writeBlocked,
      out_flush = transport_bio_buffered_ctrl A (simple_bio_ops os_s os_r) BIO_CTRL_FLUSH\<rparr>"

section \<open>Waiting for the socket\<close>

text \<open>
  What has been handed to the connection and not lost: what the socket has taken, and the transmit
  buffer. \<open>unblocks\<close>: the socket may refuse any number of writes, but not forever; \<open>patience\<close> bounds
  the refusals in a row, each after a wait.
\<close>

definition handed :: "('k \<Rightarrow> byte list) \<Rightarrow> 'k simple_bio buffered_bio \<Rightarrow> byte list" where
  "handed accepted st = accepted (sock (next_bio st)) @ rb_contents (xmitBuffer st)"

definition wait_contract :: "('k \<Rightarrow> int \<times> 'k) \<Rightarrow> ('k \<Rightarrow> byte list) \<Rightarrow> bool" where
  "wait_contract os_wait accepted \<longleftrightarrow> (\<forall>k. accepted (snd (os_wait k)) = accepted k)"

definition unblocks :: "'k os_send \<Rightarrow> ('k \<Rightarrow> int \<times> 'k) \<Rightarrow> ('k \<Rightarrow> nat) \<Rightarrow> bool" where
  "unblocks os_s os_wait patience \<longleftrightarrow>
     (\<forall>k w k1 data st e k2. os_wait k = (w, k1) \<longrightarrow> 0 \<le> w \<longrightarrow> data \<noteq> [] \<longrightarrow>
        os_s k1 data = (st, e, k2) \<longrightarrow> st \<le> 0 \<longrightarrow> transient e \<longrightarrow> patience k2 < patience k)"

lemma stalled_impatient:
  assumes "unblocks os_s os_wait patience" and "os_wait (sock bio) = (w, k)" and "0 \<le> w"
    and "stalled (simple_bio_ops os_s os_r) (bio\<lparr>sock := k\<rparr>) bio'"
  shows "patience (sock bio') < patience (sock bio)"
proof -
  from assms(4) obtain data st where d: "data \<noteq> []"
      "transport_bio_simple_write os_s (bio\<lparr>sock := k\<rparr>) data = (st, bio')" "st \<le> 0" "FLAGS_SHOULD_RETRY bio'"
    by (auto simp: stalled_def simple_bio_ops_def)
  obtain st' e k2 where o: "os_s k data = (st', e, k2)" by (cases "os_s k data") auto
  with d(2,3,4) have "st' \<le> 0" "transient e" "sock bio' = k2"
    by (auto simp: transport_bio_simple_write_def Let_def split: if_splits)
  then show ?thesis
    using assms(1-3) d(1) o unfolding unblocks_def by blast
qed

text \<open>One flush after a wait either ends the waiting, or sends something, or costs patience.\<close>

definition drain_order :: "('k \<Rightarrow> nat) \<Rightarrow> ('k simple_bio buffered_bio \<times> 'k simple_bio buffered_bio) set" where
  "drain_order patience =
     measures [\<lambda>st. length (rb_contents (xmitBuffer st)), \<lambda>st. patience (sock (next_bio st))]"

lemma flush_after_wait:
  assumes "send_contract os_s accepted" and "wait_contract os_wait accepted"
    and "unblocks os_s os_wait patience"
    and "rb_inv (xmitBuffer st)" and "rb_contents (xmitBuffer st) \<noteq> []"
    and "os_wait (sock (next_bio st)) = (w, k)" and "0 \<le> w"
  shows "\<exists>r st'. out_flush (tcp_out A os_s os_r os_wait) (st\<lparr>next_bio := (next_bio st)\<lparr>sock := k\<rparr>\<rparr>) = Done r st' \<and>
    rb_inv (xmitBuffer st') \<and> handed accepted st' = handed accepted st \<and>
    (r < 1 \<or> (if writeBlocked st' then rb_contents (xmitBuffer st') \<noteq> [] \<and> (st', st) \<in> drain_order patience
              else rb_contents (xmitBuffer st') = []))"
proof -
  let ?B = "simple_bio_ops os_s os_r"
  let ?n = "(next_bio st)\<lparr>sock := k\<rparr>"
  let ?st = "st\<lparr>next_bio := ?n, writeBlocked := False, bFLAGS_WRITE := False\<rparr>"
  have k: "accepted k = accepted (sock (next_bio st))"
    using assms(2,6) unfolding wait_contract_def by (metis snd_conv)
  obtain r st' where f: "buffered_flush A ?B 0 ?st = Done r st'" "rb_inv (xmitBuffer st')"
      "accepted (sock (next_bio st')) @ rb_contents (xmitBuffer st') = accepted k @ rb_contents (xmitBuffer st)"
      "r = 0 \<or> r = - 1" "r = - 1 \<or> writeBlocked st' \<or> rb_contents (xmitBuffer st') = []"
      "writeBlocked st' \<longrightarrow> r = 0 \<and> rb_contents (xmitBuffer st') \<noteq> [] \<and>
         (length (rb_contents (xmitBuffer st')) < length (rb_contents (xmitBuffer st)) \<or>
          rb_contents (xmitBuffer st') = rb_contents (xmitBuffer st) \<and> stalled ?B ?n (next_bio st'))"
    using buffered_flush_run [OF simple_bio_contract [OF assms(1), of os_r], of ?st A 0] assms(4) by auto
  have "ringbuffer_used (xmitBuffer st) \<noteq> 0" using assms(4,5) by (simp add: rb_used)
  then have "out_flush (tcp_out A os_s os_r os_wait) (st\<lparr>next_bio := ?n\<rparr>) =
      Done (if r \<ge> 0 then 1 else - 1) st'"
    using f(1) by (simp add: tcp_out_def transport_bio_buffered_write_def Let_def)
  moreover have "stalled ?B ?n (next_bio st') \<Longrightarrow> patience (sock (next_bio st')) < patience (sock (next_bio st))"
    by (rule stalled_impatient [OF assms(3,6,7)])
  ultimately show ?thesis
    using f k by (auto simp: handed_def drain_order_def)
qed

lemma drain_run:
  assumes "send_contract os_s accepted" and "wait_contract os_wait accepted"
    and "unblocks os_s os_wait patience"
    and "rb_inv (xmitBuffer st)" and "writeBlocked st \<longleftrightarrow> rb_contents (xmitBuffer st) \<noteq> []"
  shows "\<exists>ok st'. drain_loop (tcp_out A os_s os_r os_wait) st = Some (Done ok st') \<and>
    rb_inv (xmitBuffer st') \<and> handed accepted st' = handed accepted st \<and>
    (ok \<longrightarrow> rb_contents (xmitBuffer st') = [])"
  using assms(4,5)
proof (induction st rule: wf_induct_rule [OF wf_measures, of "[\<lambda>st. length (rb_contents (xmitBuffer st)),
    \<lambda>st. patience (sock (next_bio st))]", folded drain_order_def])
  case (1 st)
  let ?W = "tcp_out A os_s os_r os_wait"
  have blocked: "out_write_blocked ?W = writeBlocked" by (simp add: tcp_out_def)
  show ?case
  proof (cases "writeBlocked st")
    case False
    then show ?thesis using 1(2,3) blocked by (subst drain_loop.simps) auto
  next
    case True
    obtain w k where w: "os_wait (sock (next_bio st)) = (w, k)" by fastforce
    let ?st1 = "st\<lparr>next_bio := (next_bio st)\<lparr>sock := k\<rparr>\<rparr>"
    have wait: "out_wait_write ?W st = (w, ?st1)" using w by (simp add: tcp_out_def)
    show ?thesis
    proof (cases "w < 0")
      case True
      have "accepted k = accepted (sock (next_bio st))"
        using assms(2) w unfolding wait_contract_def by (metis snd_conv)
      then show ?thesis
        using True \<open>writeBlocked st\<close> wait 1(2) blocked by (subst drain_loop.simps) (auto simp: handed_def)
    next
      case False
      with flush_after_wait [OF assms(1-3) 1(2) _ w, of A os_r] True 1(3) obtain r st' where f:
        "out_flush ?W ?st1 = Done r st'" "rb_inv (xmitBuffer st')" "handed accepted st' = handed accepted st"
        "r < 1 \<or> (if writeBlocked st' then rb_contents (xmitBuffer st') \<noteq> [] \<and> (st', st) \<in> drain_order patience
              else rb_contents (xmitBuffer st') = [])"
        by auto
      have step: "drain_loop ?W st = (if r < 1 then Some (Done False st') else drain_loop ?W st')"
        using True False wait f(1) blocked by (subst drain_loop.simps) simp
      show ?thesis
      proof (cases "r < 1 \<or> \<not> writeBlocked st'")
        case True
        then show ?thesis
          using step f blocked by (subst (asm) (2) drain_loop.simps) (auto split: if_splits)
      next
        case False
        then show ?thesis using 1(1) [of st'] f step by (auto simp: drain_order_def)
      qed
    qed
  qed
qed

section \<open>One PDU\<close>

lemma as_int_small: "n < 2 ^ 31 \<Longrightarrow> as_int n = int n"
  by (simp add: as_int_def sint_uint unsigned_of_nat signed_take_bit_int_eq_self take_bit_nat_eq_self)

text \<open>One write to the buffered BIO, and what is observed of it above.\<close>

lemma tcp_out_write:
  assumes "send_contract os_s accepted" and "rb_inv (xmitBuffer st)"
    and "rsize (xmitBuffer st) + length data < 2 ^ 31" and "data \<noteq> []"
  shows "\<exists>r st'. out_write (tcp_out A os_s os_r os_wait) data (int (length data)) st = Done r st' \<and>
    rb_inv (xmitBuffer st') \<and>
    (r = int (length data) \<and> handed accepted st' = handed accepted st @ data \<and>
       (writeBlocked st' \<longleftrightarrow> rb_contents (xmitBuffer st') \<noteq> []) \<or>
     r = - 1 \<and> (handed accepted st' = handed accepted st \<or> handed accepted st' = handed accepted st @ data) \<and>
       (\<not> bFLAGS_SHOULD_RETRY st' \<or> (\<exists>rb. ringbuffer_write A data (xmitBuffer st) = Failed rb)))"
proof -
  have w: "out_write (tcp_out A os_s os_r os_wait) data (int (length data)) =
      transport_bio_buffered_write A (simple_bio_ops os_s os_r) (Some data) (int (length data))"
    by (simp add: tcp_out_def)
  from buffered_write_run [OF assms(1-3), of A os_r] show ?thesis
    unfolding w Let_def handed_def by fastforce
qed

text \<open>
  The loop runs once: the buffered BIO takes all bytes or fails. With waiting, the bytes it took
  have left the transmit buffer when the loop goes on.
\<close>

lemma write_loop_run:
  assumes "send_contract os_s accepted"
    and "blk \<or> flush \<longrightarrow> wait_contract os_wait accepted \<and> unblocks os_s os_wait patience"
    and "blk \<longrightarrow> (\<forall>rb. ringbuffer_write A data (xmitBuffer st) \<noteq> Failed rb)"
    and "rb_inv (xmitBuffer st)" and "rsize (xmitBuffer st) + length data < 2 ^ 31"
    and "stream_ok s" and "pointer s = 0" and "data = take len (buffer s)" and "0 < len" and "len \<le> capacity s"
  shows "\<exists>r ok st' s'. write_loop (tcp_out A os_s os_r os_wait) blk flush len (- 1) (st, s) =
      Some (Done (r, ok) (st', s')) \<and> rb_inv (xmitBuffer st') \<and>
    (ok \<and> r = int len \<and> handed accepted st' = handed accepted st @ data \<and>
       (blk \<or> flush \<longrightarrow> rb_contents (xmitBuffer st') = []) \<or>
     \<not> ok \<and> r = - 1 \<and> (handed accepted st' = handed accepted st \<or> handed accepted st' = handed accepted st @ data))"
proof -
  let ?W = "tcp_out A os_s os_r os_wait"
  have len: "length data = len" "data \<noteq> []"
    using assms(6,8,9,10) by (auto simp: stream_ok_def)
  have int: "as_int len = int len" using assms(5) len(1) by (intro as_int_small) linarith
  have arg: "take (nat (as_int len)) (drop (pointer s) (buffer s)) = data"
    using assms(7,8) by (simp add: int)
  obtain r st1 where w: "out_write ?W data (as_int len) st = Done r st1" "rb_inv (xmitBuffer st1)"
      "r = int len \<and> handed accepted st1 = handed accepted st @ data \<and>
         (writeBlocked st1 \<longleftrightarrow> rb_contents (xmitBuffer st1) \<noteq> []) \<or>
       r = - 1 \<and> (handed accepted st1 = handed accepted st \<or> handed accepted st1 = handed accepted st @ data) \<and>
         (\<not> bFLAGS_SHOULD_RETRY st1 \<or> (\<exists>rb. ringbuffer_write A data (xmitBuffer st) = Failed rb))"
    using tcp_out_write [OF assms(1,4,5) len(2), of A os_r os_wait] unfolding len(1) int by blast
  show ?thesis
  proof (cases "r = - 1")
    case True
    have "\<not> out_should_retry ?W st1 \<or> \<not> blk"
      using w(3) assms(3) True by (auto simp: tcp_out_def)
    then show ?thesis
      using True w assms(9) arg by (subst write_loop.simps) auto
  next
    case False
    then have r: "r = int len" and h: "handed accepted st1 = handed accepted st @ data"
      and b: "writeBlocked st1 \<longleftrightarrow> rb_contents (xmitBuffer st1) \<noteq> []"
      using w(3) by blast+
    let ?drain = "if blk \<or> flush then drain_loop ?W st1 else Some (Done True st1)"
    obtain ok st2 where d: "?drain = Some (Done ok st2)" "rb_inv (xmitBuffer st2)"
        "handed accepted st2 = handed accepted st @ data" "ok \<Longrightarrow> blk \<or> flush \<longrightarrow> rb_contents (xmitBuffer st2) = []"
        "\<not> ok \<Longrightarrow> blk \<or> flush"
    proof (cases "blk \<or> flush")
      case True
      with drain_run [OF assms(1) _ _ w(2) b, of os_wait patience A os_r] assms(2) h
      show ?thesis by (auto intro: that)
    next
      case False
      then show ?thesis using w(2) h by (intro that [of True st1]) auto
    qed
    have seek: "Stream_Seek len s = Done () (s\<lparr>pointer := len\<rparr>)"
      using assms(6,7,10) by (simp add: Stream_Seek_def Stream_GetRemainingCapacity_def stream_ok_def sub64_def)
    have none: "sub64 len len = 0" using assms(6,10) by (simp add: sub64_def stream_ok_def)
    have "write_loop ?W blk flush len (- 1) (st, s) =
        (if \<not> ok then Some (Done (- 1, False) (st2, s))
         else write_loop ?W blk flush 0 (int len) (st2, s\<lparr>pointer := len\<rparr>))"
      using w(1) r d(1) seek assms(9) arg by (subst write_loop.simps) (simp add: none)
    also have "write_loop ?W blk flush 0 (int len) (st2, s\<lparr>pointer := len\<rparr>) =
        Some (Done (int len, True) (st2, s\<lparr>pointer := len\<rparr>))"
      by (subst write_loop.simps) simp
    finally show ?thesis using d(2-5) by (cases ok) auto
  qed
qed

section \<open>Attaching a socket and sending pooled streams\<close>

text \<open>
  \<^verbatim>\<open>transport_default_attach\<close> puts a buffered BIO on a socket BIO. What the system and the BIO library
  answer are arguments: whether keep-alive could be set, the new socket BIO for the descriptor, and
  whether \<^verbatim>\<open>BIO_new\<close> yields the buffered BIO. The descriptors closed are recorded in the second component.
\<close>

definition transport_default_attach ::
    "byte allocator \<Rightarrow> bool \<Rightarrow> 'k simple_bio option \<Rightarrow> bool \<Rightarrow> int \<Rightarrow>
     (('k simple_bio buffered_bio, 'e) rdp_transport \<times> int list, bool) prog" where
  "transport_default_attach A keep_alive socketBio buffered sockfd tc =
     (case tc of (t, closed) \<Rightarrow>
      if sockfd < 0 then Done True (t, closed)
      else if \<not> keep_alive then Done False (t, closed @ [sockfd])
      else (case socketBio of
              None \<Rightarrow> Done False (t, closed @ [sockfd])
            | Some n \<Rightarrow>
                if \<not> buffered then Done False (t, closed)
                else (case transport_bio_buffered_new A n of
                        Fault e \<Rightarrow> Fault e
                      | Failed st \<Rightarrow> Failed (t, closed)
                      | Done _ st \<Rightarrow> Done True (t\<lparr>frontBio := Some st\<rparr>, closed))))"

text \<open>
  Streams to send are taken from the pool of the transport. \<open>transport_write_pooled\<close> is
  \<^verbatim>\<open>transport_default_write\<close> on the stream at an address of that pool, with the reference it takes and
  gives back.
\<close>

definition transport_send_stream_init ::
    "nat pointer allocator \<Rightarrow> byte allocator \<Rightarrow> nat \<Rightarrow> ('n, 'e, nat pointer) tprog" where
  "transport_send_stream_init A M sz =
     bind (on_pool (StreamPool_Take A M sz)) (\<lambda>s.
     if s = None then ret None
     else bind (or_value False (seq (on_pool (on_stream s (Stream_EnsureCapacity sz))) (ret True))) (\<lambda>ok.
       if \<not> ok then seq (on_pool (Stream_Release A s)) (ret None)
       else seq (on_pool (ignore (on_stream s (Stream_SetPosition 0)))) (ret s)))"

definition transport_write_pooled ::
    "nat pointer allocator \<Rightarrow> 'n out_ops \<Rightarrow> nat pointer \<Rightarrow> ('n, 'e, int) tprog" where
  "transport_write_pooled A W s =
     (if s = None then ret (- 1)
      else seq (on_pool (Stream_AddRef s))
          (bind (on_pool (deref s)) (\<lambda>x.
           bind (\<lambda>t. case transport_default_write W (t, p_stream x) of
                   Fault e \<Rightarrow> Fault e
                 | Failed (t', s') \<Rightarrow> Failed t'
                 | Done r (t', s') \<Rightarrow> Done (r, s') t') (\<lambda>(r, s').
           seq (on_pool (assign s (\<lambda>x. x\<lparr>p_stream := s'\<rparr>)))
          (seq (on_pool (Stream_Release A s)) (ret r))))))"

lemma attach_ready:
  assumes "0 \<le> sockfd" and "grants A 0x10000"
  shows "\<exists>st. transport_default_attach A True (Some n) True sockfd (t, closed) =
      Done True (t\<lparr>frontBio := Some st\<rparr>, closed) \<and>
    rb_inv (xmitBuffer st) \<and> rsize (xmitBuffer st) = 0x10000 \<and> handed accepted st = accepted (sock n)"
proof -
  obtain st where st: "transport_bio_buffered_new A n = Done 1 st" "next_bio st = n"
      "rbuffer (xmitBuffer st) = Some (map (garbage A) [0..<0x10000])" "rsize (xmitBuffer st) = 0x10000"
      "initialSize (xmitBuffer st) = 0x10000" "freeSize (xmitBuffer st) = 0x10000" "readPtr (xmitBuffer st) = 0"
      "writePtr (xmitBuffer st) = 0"
    using assms(2) by (simp add: transport_bio_buffered_new_def ringbuffer_init_def malloc_def Let_def del: upt_rec_numeral)
  have "rb_inv (xmitBuffer st)" "rb_contents (xmitBuffer st) = []"
    using st(3-) by (simp_all add: rb_inv_def rb_contents_def del: upt_rec_numeral)
  then show ?thesis
    using st assms(1) by (intro exI [of _ st]) (simp add: transport_default_attach_def handed_def)
qed

lemma attach_failure_closes:
  assumes "0 \<le> sockfd" and "\<not> keep_alive \<or> socketBio = None"
  shows "transport_default_attach A keep_alive socketBio buffered sockfd (t, closed) = Done False (t, closed @ [sockfd])"
  using assms by (auto simp: transport_default_attach_def)

lemma send_stream_init_run:
  assumes "pool_inv (ReceivePool t)" and "pool_ready A (ReceivePool t)" and "wanted_size (ReceivePool t) n < 2 ^ 64"
  shows "transport_send_stream_init A M n t = Done None t \<or>
    (\<exists>a p. transport_send_stream_init A M n t = Done (Some a) (t\<lparr>ReceivePool := p\<rparr>) \<and> pool_inv p \<and>
       taken (ReceivePool t) (wanted_size (ReceivePool t) n) a p)"
  using take_run [OF assms, of M]
proof
  assume "StreamPool_Take A M n (ReceivePool t) = Done None (ReceivePool t)"
  then show ?thesis by (simp add: transport_send_stream_init_def on_pool_def)
next
  assume "\<exists>a p. StreamPool_Take A M n (ReceivePool t) = Done (Some a) p \<and> pool_inv p \<and>
    taken (ReceivePool t) (wanted_size (ReceivePool t) n) a p"
  then obtain a p where p: "StreamPool_Take A M n (ReceivePool t) = Done (Some a) p" "pool_inv p"
      "taken (ReceivePool t) (wanted_size (ReceivePool t) n) a p" by blast
  then obtain x where x: "streams p a = Some x" "handed_out (wanted_size (ReceivePool t) n) x"
    by (auto simp: taken_def)
  then have cap: "n \<le> capacity (p_stream x)" "pointer (p_stream x) = 0"
    by (auto simp: handed_out_def wanted_size_def split: if_splits)
  have same: "p\<lparr>streams := (streams p)(a \<mapsto> x\<lparr>p_stream := p_stream x\<rparr>)\<rparr> = p"
    using x(1) by (simp add: fun_upd_idem)
  have "on_stream (Some a) (Stream_EnsureCapacity n) p = Done () p"
    using on_stream_run [OF x(1), of "Stream_EnsureCapacity n" "()" "p_stream x"] cap same
    by (simp add: Stream_EnsureCapacity_def)
  moreover have "on_stream (Some a) (Stream_SetPosition 0) p = Done () p"
    using on_stream_run [OF x(1), of "Stream_SetPosition 0" "()" "p_stream x"] cap same
    by (simp add: Stream_SetPosition_def)
  ultimately have "transport_send_stream_init A M n t = Done (Some a) (t\<lparr>ReceivePool := p\<rparr>)"
    using p(1) by (simp add: transport_send_stream_init_def on_pool_def or_value_def)
  then show ?thesis using p by blast
qed

lemma write_ignores_pool:
  "transport_default_write W (t\<lparr>ReceivePool := p\<rparr>, s) =
     (case transport_default_write W (t, s) of
        Fault e \<Rightarrow> Fault e
      | Failed (t', s') \<Rightarrow> Failed (t'\<lparr>ReceivePool := p\<rparr>, s')
      | Done r (t', s') \<Rightarrow> Done r (t'\<lparr>ReceivePool := p\<rparr>, s'))"
  by (simp add: transport_default_write_def Let_def out_cleanup_def transport_fail_def split: option.split outcome.split prod.split)

text \<open>
  The reference changes nothing in the end: writing a stream in use is writing its contents, and only
  its contents change in the pool.
\<close>

lemma write_pooled_run:
  assumes inv: "pool_inv (ReceivePool t)" and a: "Some a \<in> set (in_use (ReceivePool t))"
    and x: "streams (ReceivePool t) a = Some x" "p_count x \<noteq> - 1"
    and w: "transport_default_write W (t, p_stream x) = Done r (t', s')"
  shows "transport_write_pooled A W (Some a) t =
    Done r (t'\<lparr>ReceivePool := (ReceivePool t)\<lparr>streams := (streams (ReceivePool t))(a \<mapsto> x\<lparr>p_stream := s'\<rparr>)\<rparr>\<rparr>)"
proof -
  let ?p = "ReceivePool t"
  obtain b z where "Some a = Some b" "streams ?p b = Some z" "p_pool z" "0 < p_count z" by (rule pool_inv_used [OF inv a])
  with x have u: "p_pool x" "p_count x \<noteq> 0" by auto
  have nz: "p_count x + 1 \<noteq> 0" using x(2) by (simp add: eq_neg_iff_add_eq_0)
  let ?x = "x\<lparr>p_count := p_count x + 1\<rparr>"
  let ?p1 = "?p\<lparr>streams := (streams ?p)(a \<mapsto> ?x)\<rparr>"
  let ?p2 = "?p\<lparr>streams := (streams ?p)(a \<mapsto> ?x\<lparr>p_stream := s'\<rparr>)\<rparr>"
  have add: "Stream_AddRef (Some a) ?p = Done () ?p1" by (rule add_ref_run [OF inv a x(1)])
  have get: "deref (Some a) ?p1 = Done ?x ?p1" by (rule deref_run) simp
  have put: "assign (Some a) (\<lambda>x. x\<lparr>p_stream := s'\<rparr>) ?p1 = Done () ?p2"
    using assign_run [of ?p1 a ?x "\<lambda>x. x\<lparr>p_stream := s'\<rparr>"] by simp
  have rel: "Stream_Release A (Some a) ?p2 = Done () (?p\<lparr>streams := (streams ?p)(a \<mapsto> x\<lparr>p_stream := s'\<rparr>)\<rparr>)"
    using u nz by (simp add: Stream_Release_def StreamPool_ReleaseOrReturn_def deref_run assign_run unat_gt_0 word_neq_0_conv [symmetric])
  show ?thesis
    using add get put rel w by (simp add: transport_write_pooled_def on_pool_def write_ignores_pool)
qed

lemma transport_write_run:
  assumes "send_contract os_s accepted"
    and "blocking t \<or> WaitForOutputBufferFlush t \<longrightarrow>
      wait_contract os_wait accepted \<and> unblocks os_s os_wait patience"
    and "blocking t \<longrightarrow> (\<forall>rb. ringbuffer_write A data (xmitBuffer st) \<noteq> Failed rb)"
    and "frontBio t = Some st" and "rb_inv (xmitBuffer st)"
    and "rsize (xmitBuffer st) + length data < 2 ^ 31"
    and "stream_ok s" and "data = take (pointer s) (buffer s)" and "data \<noteq> []"
  shows "\<exists>r t' s' st'. transport_default_write (tcp_out A os_s os_r os_wait) (t, s) = Done r (t', s') \<and>
    frontBio t' = Some st' \<and> rb_inv (xmitBuffer st') \<and>
    (r = int (length data) \<and> layer t' = layer t \<and> written t' = written t + of_nat (length data) \<and>
       handed accepted st' = handed accepted st @ data \<and>
       (blocking t \<or> WaitForOutputBufferFlush t \<longrightarrow> rb_contents (xmitBuffer st') = []) \<or>
     r = - 1 \<and> layer t' = TRANSPORT_LAYER_CLOSED \<and> written t' = written t \<and>
       (handed accepted st' = handed accepted st \<or> handed accepted st' = handed accepted st @ data))"
proof -
  let ?W = "tcp_out A os_s os_r os_wait"
  let ?s = "s\<lparr>pointer := 0\<rparr>"
  have len: "length data = pointer s" "0 < pointer s" using assms(7-9) by (auto simp: stream_ok_def)
  have start: "Stream_SetPosition 0 s = Done () ?s" by (simp add: Stream_SetPosition_def)
  have s: "stream_ok ?s" "pointer s \<le> capacity ?s" using assms(7) by (simp_all add: stream_ok_def)
  have small: "as_int (pointer s) = int (pointer s)" using assms(6) len by (intro as_int_small) linarith
  obtain r ok st' s' where w: "write_loop ?W (blocking t) (WaitForOutputBufferFlush t) (pointer s) (- 1) (st, ?s) =
      Some (Done (r, ok) (st', s'))" "rb_inv (xmitBuffer st')"
    "ok \<and> r = int (pointer s) \<and> handed accepted st' = handed accepted st @ data \<and>
       (blocking t \<or> WaitForOutputBufferFlush t \<longrightarrow> rb_contents (xmitBuffer st') = []) \<or>
     \<not> ok \<and> r = - 1 \<and> (handed accepted st' = handed accepted st \<or> handed accepted st' = handed accepted st @ data)"
    using write_loop_run [where os_r = os_r, OF assms(1-3) assms(5,6) s(1) _ _ len(2) s(2)] assms(8) by auto
  let ?t = "t\<lparr>outBytes := outBytes t + of_nat (pointer s), frontBio := Some st'\<rparr>"
  let ?t' = "out_cleanup r (if ok then ?t\<lparr>written := written t + of_nat (pointer s)\<rparr> else ?t)"
  have "transport_default_write ?W (t, s) = Done r (?t', s')"
    using assms(4) len(2) start w(1) small by (auto simp: transport_default_write_def Let_def)
  moreover have "frontBio ?t' = Some st'"
    by (simp add: out_cleanup_def transport_fail_def)
  ultimately show ?thesis
    using w(2,3) len by (intro exI [of _ r] exI [of _ ?t'] exI [of _ s'] exI [of _ st'])
      (auto simp: out_cleanup_def transport_fail_def)
qed

section \<open>Properties\<close>

text \<open>
  A socket that takes two bytes and is then not writable until it has been waited for.
\<close>

definition demo_pacing :: "(byte list \<times> bool) os_send" where
  "demo_pacing k data = (if snd k then (- 1, WSAEWOULDBLOCK, k)
     else (int (min 2 (length data)), WSAEOther, (fst k @ take 2 data, True)))"

definition demo_writable :: "byte list \<times> bool \<Rightarrow> int \<times> byte list \<times> bool" where
  "demo_writable k = (1, fst k, False)"

definition demo_silent :: "(byte list \<times> bool) os_recv" where
  "demo_silent k n = (None, WSAEWOULDBLOCK, k)"

definition demo_tx :: "((byte list \<times> bool) simple_bio buffered_bio, unit) rdp_transport" where
  "demo_tx =
     \<lparr>layer = TRANSPORT_LAYER_TCP,
      frontBio = Some \<lparr>next_bio = \<lparr>sock = ([], False), FLAGS_READ = False, FLAGS_WRITE = False,
          FLAGS_SHOULD_RETRY = False\<rparr>,
        readBlocked = False, writeBlocked = False, xmitBuffer = demo_rb, bFLAGS_READ = False,
        bFLAGS_WRITE = False, bFLAGS_SHOULD_RETRY = True\<rparr>,
      ReceiveBuffer = demo_stream 1, ReceiveAddress = None, ReceivePool = demo_taken, ReceiveExtra = (),
      NlaMode = False, RdstlsMode = False, AadMode = False, earlyUserAuth = False, blocking = False,
      haveMoreBytesToRead = False, inBytes = 0, connect_failed = False, written = 0, outBytes = 0,
      WaitForOutputBufferFlush = True\<rparr>"

lemma demo_pacing_ok: "send_contract demo_pacing fst" "wait_contract demo_writable fst"
    "unblocks demo_pacing demo_writable (\<lambda>_. 0)"
  by (auto simp: send_contract_def wait_contract_def unblocks_def demo_pacing_def demo_writable_def min_def
      take_all_iff split: if_splits)

text \<open>
  C6. Sending a PDU. On a plain connection, \<^verbatim>\<open>transport_default_write\<close> of a stream that holds at least
  one byte returns, in the blocking and the non-blocking mode, whether the socket takes the bytes
  at once, in pieces, with refusals in between (not forever, where the code waits for it) or fails
  (in the blocking mode provided there is memory for the transmit buffer). Either the result is the
  number of bytes, the 32-bit counter of written bytes grows by it, modulo \<open>2 ^ 32\<close>, the layer is
  unchanged, and what the socket has taken followed by the transmit buffer has grown by exactly the bytes of the stream, all
  of which the socket has taken if the code was told to wait for it; or the result is \<open>-1\<close> and the
  layer is closed. The bytes that were handed over before are never lost, repeated or reordered.
\<close>

theorem transport_write_in_order:
  assumes "send_contract os_s accepted"
    and "blocking t \<or> WaitForOutputBufferFlush t \<longrightarrow>
      wait_contract os_wait accepted \<and> unblocks os_s os_wait patience"
    and "blocking t \<longrightarrow> (\<forall>rb. ringbuffer_write A data (xmitBuffer st) \<noteq> Failed rb)"
    and "frontBio t = Some st" and "rb_inv (xmitBuffer st)"
    and "rsize (xmitBuffer st) + length data < 2 ^ 31"
    and "stream_ok s" and "data = take (pointer s) (buffer s)" and "data \<noteq> []"
  shows "\<exists>r t' s' st'. transport_default_write (tcp_out A os_s os_r os_wait) (t, s) = Done r (t', s') \<and>
    frontBio t' = Some st' \<and> rb_inv (xmitBuffer st') \<and>
    (r = int (length data) \<and> layer t' = layer t \<and> written t' = written t + of_nat (length data) \<and>
       handed accepted st' = handed accepted st @ data \<and>
       (blocking t \<or> WaitForOutputBufferFlush t \<longrightarrow> accepted (sock (next_bio st')) = handed accepted st @ data) \<or>
     r = - 1 \<and> layer t' = TRANSPORT_LAYER_CLOSED \<and> written t' = written t \<and>
       (handed accepted st' = handed accepted st \<or> handed accepted st' = handed accepted st @ data))"
  using transport_write_run [where os_r = os_r, OF assms]
  by (fastforce simp: handed_def)

theorem transport_write_in_order_witness:
  "\<exists>r t' s' st'. transport_default_write (tcp_out demo_alloc demo_pacing demo_silent demo_writable)
      (demo_tx, (demo_stream 5)\<lparr>pointer := 3\<rparr>) = Done r (t', s') \<and> frontBio t' = Some st' \<and>
    (r = 3 \<and> fst (sock (next_bio st')) = [10, 20] @ take 3 (buffer (demo_stream 5)) \<or>
     r = - 1 \<and> layer t' = TRANSPORT_LAYER_CLOSED)"
proof -
  have "stream_ok ((demo_stream 5)\<lparr>pointer := 3\<rparr>)" "length (take 3 (buffer (demo_stream 5))) = 3"
    by (simp_all add: demo_stream_def Stream_StaticInit_def stream_ok_def)
  then show ?thesis
    using transport_write_in_order [where os_r = demo_silent, of demo_pacing fst demo_tx demo_writable "\<lambda>_. 0"
        demo_alloc "take 3 (buffer (demo_stream 5))" "the (frontBio demo_tx)" "(demo_stream 5)\<lparr>pointer := 3\<rparr>"]
      demo_pacing_ok
    by (fastforce simp: demo_tx_def handed_def)
qed

end
