(* ===== verification/Mcs.thy ===== *)
theory Mcs
  imports Ber Per Tpkt TransportWrite
begin

text \<open>
  The multipoint communication service, \<^verbatim>\<open>libfreerdp/core/mcs.c\<close>: the header of a domain PDU, the
  domain parameters (reading, writing and the server's merge of the client's offer), the module
  state with its channels, and the PDUs that erect a domain, attach a user, join channels and
  disconnect, in both directions. Sending goes through \<^verbatim>\<open>transport_default_write\<close> of the theory
  \<^verbatim>\<open>TransportWrite\<close>; the lemmas follow a PDU from the sender's call over the connection to what the
  receiver makes of it.
\<close>

section \<open>Domain PDU headers\<close>

definition DomainMCSPDU_ErectDomainRequest :: byte where "DomainMCSPDU_ErectDomainRequest = 1"
definition DomainMCSPDU_DisconnectProviderUltimatum :: byte where "DomainMCSPDU_DisconnectProviderUltimatum = 8"
definition DomainMCSPDU_AttachUserRequest :: byte where "DomainMCSPDU_AttachUserRequest = 10"
definition DomainMCSPDU_AttachUserConfirm :: byte where "DomainMCSPDU_AttachUserConfirm = 11"
definition DomainMCSPDU_ChannelJoinRequest :: byte where "DomainMCSPDU_ChannelJoinRequest = 14"
definition DomainMCSPDU_ChannelJoinConfirm :: byte where "DomainMCSPDU_ChannelJoinConfirm = 15"

definition MCS_Result_enum_length :: byte where "MCS_Result_enum_length = 16"
definition MCS_BASE_CHANNEL_ID :: u16 where "MCS_BASE_CHANNEL_ID = 1001"
definition MCS_GLOBAL_CHANNEL_ID :: u16 where "MCS_GLOBAL_CHANNEL_ID = 1003"

lemmas mcs_codes = DomainMCSPDU_ErectDomainRequest_def DomainMCSPDU_DisconnectProviderUltimatum_def
  DomainMCSPDU_AttachUserRequest_def DomainMCSPDU_AttachUserConfirm_def
  DomainMCSPDU_ChannelJoinRequest_def DomainMCSPDU_ChannelJoinConfirm_def MCS_Result_enum_length_def

text \<open>
  A header is a TPKT header, a data TPDU header and a choice, which holds the PDU type above two
  option bits. The reader returns the TPKT length; the type found is only logged by these callers.
\<close>

definition mcs_read_domain_mcspdu_header :: "byte \<Rightarrow> u16 sprog" where
  "mcs_read_domain_mcspdu_header domainMCSPDU =
     seq (assert_that (\<lambda>_. domainMCSPDU \<noteq> 0))
    (bind tpkt_read_header (\<lambda>len.
     bind (tpdu_read_data len) (\<lambda>li.
     bind per_read_choice (\<lambda>choice.
     if domainMCSPDU \<noteq> drop_bit 2 choice then fail else ret len))))"

definition mcs_write_domain_mcspdu_header :: "byte \<Rightarrow> u16 \<Rightarrow> byte \<Rightarrow> unit sprog" where
  "mcs_write_domain_mcspdu_header domainMCSPDU len options =
     seq (assert_that (\<lambda>_. options AND NOT 0x03 = 0))
    (seq (assert_that (\<lambda>_. domainMCSPDU AND NOT 0x3F = 0))
    (seq (tpkt_write_header len)
    (seq tpdu_write_data
         (per_write_choice (push_bit 2 domainMCSPDU OR options)))))"

section \<open>Domain parameters\<close>

record DomainParameters =
  maxChannelIds :: u32
  maxUserIds :: u32
  maxTokenIds :: u32
  numPriorities :: u32
  minThroughput :: u32
  maxHeight :: u32
  maxMCSPDUsize :: u32
  protocolVersion :: u32

definition mcs_init_domain_parameters :: "u32 \<Rightarrow> u32 \<Rightarrow> u32 \<Rightarrow> u32 \<Rightarrow> DomainParameters" where
  "mcs_init_domain_parameters channelIds userIds tokenIds pduSize =
     \<lparr>maxChannelIds = channelIds, maxUserIds = userIds, maxTokenIds = tokenIds, numPriorities = 1,
      minThroughput = 0, maxHeight = 1, maxMCSPDUsize = pduSize, protocolVersion = 2\<rparr>"

definition mcs_read_domain_parameters :: "DomainParameters sprog" where
  "mcs_read_domain_parameters =
     bind ber_read_sequence_tag (\<lambda>_.
     bind (ber_read_integer True) (\<lambda>channelIds.
     bind (ber_read_integer True) (\<lambda>userIds.
     bind (ber_read_integer True) (\<lambda>tokenIds.
     bind (ber_read_integer True) (\<lambda>priorities.
     bind (ber_read_integer True) (\<lambda>throughput.
     bind (ber_read_integer True) (\<lambda>height.
     bind (ber_read_integer True) (\<lambda>pduSize.
     bind (ber_read_integer True) (\<lambda>version.
     ret \<lparr>maxChannelIds = channelIds, maxUserIds = userIds, maxTokenIds = tokenIds,
          numPriorities = priorities, minThroughput = throughput, maxHeight = height,
          maxMCSPDUsize = pduSize, protocolVersion = version\<rparr>)))))))))"

text \<open>
  The parameters are first written to a temporary stream as large as the target. The results of the
  writers are not looked at: \<open>ignoring\<close> goes on after a failure.
\<close>

definition ignoring :: "'a sprog \<Rightarrow> unit sprog" where
  "ignoring m = or_value () (bind m (\<lambda>_. ret ()))"

definition write_parameter_fields :: "DomainParameters \<Rightarrow> unit sprog" where
  "write_parameter_fields p =
     seq (ignoring (ber_write_integer (maxChannelIds p)))
    (seq (ignoring (ber_write_integer (maxUserIds p)))
    (seq (ignoring (ber_write_integer (maxTokenIds p)))
    (seq (ignoring (ber_write_integer (numPriorities p)))
    (seq (ignoring (ber_write_integer (minThroughput p)))
    (seq (ignoring (ber_write_integer (maxHeight p)))
    (seq (ignoring (ber_write_integer (maxMCSPDUsize p)))
         (ignoring (ber_write_integer (protocolVersion p)))))))))"

definition mcs_write_domain_parameters :: "byte list \<Rightarrow> DomainParameters \<Rightarrow> unit sprog" where
  "mcs_write_domain_parameters junk p s =
     (case Stream_New (malloc_ok s) None (capacity s) junk of
        None \<Rightarrow> Failed s
      | Some tmps \<Rightarrow>
          (case write_parameter_fields p tmps of
             Fault e \<Rightarrow> Fault e
           | Failed _ \<Rightarrow> Failed s
           | Done _ tmps' \<Rightarrow>
               seq (ignoring (ber_write_sequence_tag (pointer tmps')))
                   (Stream_Write (take (pointer tmps') (buffer tmps'))) s))"

text \<open>The server's choice between the target and the bounds the client offers.\<close>

definition mcs_merge_domain_parameters ::
    "DomainParameters \<Rightarrow> DomainParameters \<Rightarrow> DomainParameters \<Rightarrow> (DomainParameters, unit) prog" where
  "mcs_merge_domain_parameters target minimum maximum =
     seq (if maxChannelIds target \<ge> 4 then modify (\<lambda>out. out\<lparr>maxChannelIds := maxChannelIds target\<rparr>)
          else if maxChannelIds maximum \<ge> 4 then modify (\<lambda>out. out\<lparr>maxChannelIds := 4\<rparr>)
          else fail)
    (seq (if maxUserIds target \<ge> 3 then modify (\<lambda>out. out\<lparr>maxUserIds := maxUserIds target\<rparr>)
          else if maxUserIds maximum \<ge> 3 then modify (\<lambda>out. out\<lparr>maxUserIds := 3\<rparr>)
          else fail)
    (seq (modify (\<lambda>out. out\<lparr>maxTokenIds := maxTokenIds target\<rparr>))
    (seq (if numPriorities minimum \<le> 1 then modify (\<lambda>out. out\<lparr>numPriorities := 1\<rparr>) else fail)
    (seq (modify (\<lambda>out. out\<lparr>minThroughput := minThroughput target\<rparr>))
    (seq (if maxHeight target = 1 \<or> maxHeight minimum \<le> 1 then modify (\<lambda>out. out\<lparr>maxHeight := 1\<rparr>) else fail)
    (seq (if maxMCSPDUsize target \<ge> 1024
          then if maxMCSPDUsize target \<le> 65528
               then modify (\<lambda>out. out\<lparr>maxMCSPDUsize := maxMCSPDUsize target\<rparr>)
               else if maxMCSPDUsize minimum \<ge> 124 \<and> maxMCSPDUsize minimum \<le> 65528
               then modify (\<lambda>out. out\<lparr>maxMCSPDUsize := 65528\<rparr>)
               else fail
          else if maxMCSPDUsize maximum \<ge> 124
               then modify (\<lambda>out. out\<lparr>maxMCSPDUsize := maxMCSPDUsize maximum\<rparr>)
               else fail)
         (if protocolVersion target = 2 \<or> protocolVersion minimum \<le> 2 \<and> protocolVersion maximum \<ge> 2
          then modify (\<lambda>out. out\<lparr>protocolVersion := 2\<rparr>)
          else fail)))))))"

section \<open>The MCS module\<close>

record CHANNEL_DEF =
  def_name :: "byte list"
  def_options :: u32

record rdpMcsChannel =
  Name :: "byte list"
  options :: u32
  ChannelId :: u16
  joined :: bool

record ('n, 'e) rdpMcs =
  transport :: "('n, 'e) rdp_transport"
  userId :: u16
  baseChannelId :: u16
  messageChannelId :: u16
  mcs_flags :: u32
  domainParameters :: DomainParameters
  targetParameters :: DomainParameters
  minimumParameters :: DomainParameters
  maximumParameters :: DomainParameters
  userChannelJoined :: bool
  globalChannelJoined :: bool
  messageChannelJoined :: bool
  channelCount :: u32
  channelMaxCount :: u32
  channels :: "rdpMcsChannel list"

definition CHANNEL_MAX_COUNT :: u32 where "CHANNEL_MAX_COUNT = 31"
definition CHANNEL_NAME_LEN :: nat where "CHANNEL_NAME_LEN = 7"

definition zero_channel :: rdpMcsChannel where
  "zero_channel = \<lparr>Name = replicate (CHANNEL_NAME_LEN + 1) 0, options = 0, ChannelId = 0, joined = False\<rparr>"

text \<open>\<open>ok_mcs\<close> and \<open>ok_channels\<close> are the outcomes of the two calls of \<^verbatim>\<open>calloc\<close>.\<close>

definition mcs_new :: "bool \<Rightarrow> bool \<Rightarrow> ('n, 'e) rdp_transport \<Rightarrow> ('n, 'e) rdpMcs option" where
  "mcs_new ok_mcs ok_channels t =
     (if \<not> ok_mcs then None
      else if \<not> ok_channels then None
      else Some \<lparr>transport = t, userId = 0, baseChannelId = MCS_GLOBAL_CHANNEL_ID + 1, messageChannelId = 0,
        mcs_flags = 0, domainParameters = mcs_init_domain_parameters 0 0 0 0xFFFF,
        targetParameters = mcs_init_domain_parameters 34 2 0 0xFFFF,
        minimumParameters = mcs_init_domain_parameters 1 1 1 0x420,
        maximumParameters = mcs_init_domain_parameters 0xFFFF 0xFC17 0xFFFF 0xFFFF,
        userChannelJoined = False, globalChannelJoined = False, messageChannelJoined = False,
        channelCount = 0, channelMaxCount = CHANNEL_MAX_COUNT,
        channels = replicate (unat CHANNEL_MAX_COUNT) zero_channel\<rparr>)"

text \<open>
  The channels of the client are copied from the settings, \<open>count\<close> of them out of \<open>defs\<close>; a missing
  definition and an index outside the module's array are faults.
\<close>

fun copy_channels :: "CHANNEL_DEF list \<Rightarrow> nat \<Rightarrow> nat \<Rightarrow> rdpMcsChannel list \<Rightarrow> (fault, rdpMcsChannel list) sum" where
  "copy_channels defs index 0 chans = Inr chans"
| "copy_channels defs index (Suc n) chans =
     (if length defs \<le> index then Inl AssertionFailed
      else if length chans \<le> index then Inl OutOfBounds
      else copy_channels defs (Suc index) n
        (chans[index := (chans ! index)\<lparr>Name := splice_at 0 (take CHANNEL_NAME_LEN (def_name (defs ! index)))
                                                (Name (chans ! index)),
                                       options := def_options (defs ! index)\<rparr>]))"

definition mcs_initialize_client_channels :: "u32 \<Rightarrow> CHANNEL_DEF list \<Rightarrow> (('n, 'e) rdpMcs, int) prog" where
  "mcs_initialize_client_channels count defs m =
     (let n = (if count > channelMaxCount m then channelMaxCount m else count);
          zeroed = replicate (unat (channelMaxCount m)) zero_channel
      in case copy_channels defs 0 (unat n) zeroed of
           Inl e \<Rightarrow> Fault e
         | Inr chans \<Rightarrow> Done 0 (m\<lparr>channelCount := n, channels := chans\<rparr>))"

section \<open>Sending domain PDUs\<close>

text \<open>
  Every PDU is written to a fresh stream of its length and handed to the transport. \<open>mcs_emit\<close>
  writes and sends; a failure of the writer goes to the \<^verbatim>\<open>fail\<close> label with nothing sent.
\<close>

definition mcs_emit :: "'n out_ops \<Rightarrow> unit sprog \<Rightarrow> wStream \<Rightarrow> (('n, 'e) rdpMcs, bool) prog" where
  "mcs_emit W wr s m =
     (case wr s of
        Fault e \<Rightarrow> Fault e
      | Failed _ \<Rightarrow> Done False m
      | Done _ s' \<Rightarrow>
          (case transport_default_write W (transport m, s') of
             Fault e \<Rightarrow> Fault e
           | Failed (t, _) \<Rightarrow> Failed (m\<lparr>transport := t\<rparr>)
           | Done status (t, _) \<Rightarrow> Done (\<not> status < 0) (m\<lparr>transport := t\<rparr>)))"

definition mcs_send_erect_domain_request ::
    "'n out_ops \<Rightarrow> (nat \<Rightarrow> bool) \<Rightarrow> byte list \<Rightarrow> (('n, 'e) rdpMcs, bool) prog" where
  "mcs_send_erect_domain_request W mok junk m =
     (case Stream_New mok None 12 junk of
        None \<Rightarrow> Done False m
      | Some s \<Rightarrow> mcs_emit W
         (seq (ignoring (mcs_write_domain_mcspdu_header DomainMCSPDU_ErectDomainRequest 12 0))
         (seq (ignoring (per_write_integer 0))
         (seq (ignoring (per_write_integer 0)) Stream_SealLength))) s m)"

definition mcs_send_attach_user_request ::
    "'n out_ops \<Rightarrow> (nat \<Rightarrow> bool) \<Rightarrow> byte list \<Rightarrow> (('n, 'e) rdpMcs, bool) prog" where
  "mcs_send_attach_user_request W mok junk m =
     (case Stream_New mok None 8 junk of
        None \<Rightarrow> Done False m
      | Some s \<Rightarrow> mcs_emit W
         (seq (ignoring (mcs_write_domain_mcspdu_header DomainMCSPDU_AttachUserRequest 8 0))
              Stream_SealLength) s m)"

definition mcs_send_attach_user_confirm ::
    "'n out_ops \<Rightarrow> (nat \<Rightarrow> bool) \<Rightarrow> byte list \<Rightarrow> (('n, 'e) rdpMcs, bool) prog" where
  "mcs_send_attach_user_confirm W mok junk m =
     (case Stream_New mok None 11 junk of
        None \<Rightarrow> Done False m
      | Some s \<Rightarrow>
          (let user = baseChannelId m
           in mcs_emit W
               (seq (ignoring (mcs_write_domain_mcspdu_header DomainMCSPDU_AttachUserConfirm 11 2))
               (seq (ignoring (per_write_enumerated MCS_Result_enum_length 0))
               (seq (ignoring (per_write_integer16 MCS_BASE_CHANNEL_ID user)) Stream_SealLength))) s
               (m\<lparr>userId := user, baseChannelId := baseChannelId m + 1\<rparr>)))"

definition mcs_send_channel_join_request ::
    "'n out_ops \<Rightarrow> (nat \<Rightarrow> bool) \<Rightarrow> byte list \<Rightarrow> u16 \<Rightarrow> (('n, 'e) rdpMcs, bool) prog" where
  "mcs_send_channel_join_request W mok junk channelId m =
     (case Stream_New mok None 12 junk of
        None \<Rightarrow> Done False m
      | Some s \<Rightarrow> mcs_emit W
         (seq (ignoring (mcs_write_domain_mcspdu_header DomainMCSPDU_ChannelJoinRequest 12 0))
         (seq (ignoring (per_write_integer16 MCS_BASE_CHANNEL_ID (userId m)))
         (seq (ignoring (per_write_integer16 0 channelId)) Stream_SealLength))) s m)"

definition mcs_send_channel_join_confirm ::
    "'n out_ops \<Rightarrow> (nat \<Rightarrow> bool) \<Rightarrow> byte list \<Rightarrow> u16 \<Rightarrow> (('n, 'e) rdpMcs, bool) prog" where
  "mcs_send_channel_join_confirm W mok junk channelId m =
     (case Stream_New mok None 15 junk of
        None \<Rightarrow> Done False m
      | Some s \<Rightarrow> mcs_emit W
         (seq (mcs_write_domain_mcspdu_header DomainMCSPDU_ChannelJoinConfirm 15 2)
         (seq (per_write_enumerated MCS_Result_enum_length 0)
         (seq (per_write_integer16 MCS_BASE_CHANNEL_ID (userId m))
         (seq (per_write_integer16 0 channelId)
         (seq (per_write_integer16 0 channelId) Stream_SealLength))))) s m)"

definition mcs_send_disconnect_provider_ultimatum ::
    "'n out_ops \<Rightarrow> (nat \<Rightarrow> bool) \<Rightarrow> byte list \<Rightarrow> (('n, 'e) rdpMcs, bool) prog" where
  "mcs_send_disconnect_provider_ultimatum W mok junk m =
     (case Stream_New mok None 9 junk of
        None \<Rightarrow> Done False m
      | Some s \<Rightarrow> mcs_emit W
         (seq (mcs_write_domain_mcspdu_header DomainMCSPDU_DisconnectProviderUltimatum 9 1)
              (per_write_enumerated 0 0x80)) s m)"

section \<open>Receiving domain PDUs\<close>

definition mcs_recv_erect_domain_request :: "unit sprog" where
  "mcs_recv_erect_domain_request =
     bind (mcs_read_domain_mcspdu_header DomainMCSPDU_ErectDomainRequest) (\<lambda>len.
     bind per_read_integer (\<lambda>subHeight.
     bind per_read_integer (\<lambda>subInterval.
     tpkt_ensure_stream_consumed (unat len))))"

definition mcs_recv_attach_user_request :: "unit sprog" where
  "mcs_recv_attach_user_request =
     bind (mcs_read_domain_mcspdu_header DomainMCSPDU_AttachUserRequest) (\<lambda>len.
     tpkt_ensure_stream_consumed (unat len))"

text \<open>A program on the stream, and the two PDUs that touch the module as well.\<close>

definition mcs_stream :: "'a sprog \<Rightarrow> (('n, 'e) rdpMcs \<times> wStream, 'a) prog" where
  "mcs_stream rd = (\<lambda>(m, s). case rd s of
     Done v s' \<Rightarrow> Done v (m, s') | Failed s' \<Rightarrow> Failed (m, s') | Fault e \<Rightarrow> Fault e)"

text \<open>
  \<^verbatim>\<open>per_read_integer16\<close> with the user id of the module as its output, which is stored before the range
  check.
\<close>

definition read_user_id :: "(('n, 'e) rdpMcs \<times> wStream, unit) prog" where
  "read_user_id =
     bind (mcs_stream (seq (Stream_CheckAndLogRequiredLength 2) (stream_read_u16_be True))) (\<lambda>integer.
     seq (modify (\<lambda>(m, s). (m\<lparr>userId := integer\<rparr>, s)))
    (if unat integer > 0xFFFF - unat MCS_BASE_CHANNEL_ID then fail
     else modify (\<lambda>(m, s). (m\<lparr>userId := integer + MCS_BASE_CHANNEL_ID\<rparr>, s))))"

definition mcs_recv_attach_user_confirm :: "(('n, 'e) rdpMcs \<times> wStream, unit) prog" where
  "mcs_recv_attach_user_confirm =
     bind (mcs_stream (mcs_read_domain_mcspdu_header DomainMCSPDU_AttachUserConfirm)) (\<lambda>len.
     bind (mcs_stream (per_read_enumerated MCS_Result_enum_length)) (\<lambda>result.
     seq read_user_id
         (mcs_stream (tpkt_ensure_stream_consumed (unat len)))))"

definition mcs_recv_channel_join_request :: "bool \<Rightarrow> (('n, 'e) rdpMcs \<times> wStream, u16) prog" where
  "mcs_recv_channel_join_request dumpReplay =
     bind (mcs_stream (mcs_read_domain_mcspdu_header DomainMCSPDU_ChannelJoinRequest)) (\<lambda>len.
     bind (mcs_stream (per_read_integer16 MCS_BASE_CHANNEL_ID)) (\<lambda>user.
     bind (gets (\<lambda>(m, _). userId m)) (\<lambda>own.
     seq (if user \<noteq> own
          then if dumpReplay then modify (\<lambda>(m, s). (m\<lparr>userId := user\<rparr>, s)) else fail
          else ret ())
    (bind (mcs_stream (per_read_integer16 0)) (\<lambda>channelId.
     seq (mcs_stream (tpkt_ensure_stream_consumed (unat len))) (ret channelId))))))"

definition mcs_recv_channel_join_confirm :: "u16 sprog" where
  "mcs_recv_channel_join_confirm =
     bind (mcs_read_domain_mcspdu_header DomainMCSPDU_ChannelJoinConfirm) (\<lambda>len.
     bind (per_read_enumerated MCS_Result_enum_length) (\<lambda>result.
     bind (per_read_integer16 MCS_BASE_CHANNEL_ID) (\<lambda>initiator.
     bind (per_read_integer16 0) (\<lambda>requested.
     bind (per_read_integer16 0) (\<lambda>channelId.
     seq (tpkt_ensure_stream_consumed (unat len)) (ret channelId))))))"

text \<open>The reason straddles the choice byte, which has been read, and the byte after it.\<close>

definition mcs_recv_disconnect_provider_ultimatum :: "int sprog" where
  "mcs_recv_disconnect_provider_ultimatum =
     seq (Stream_CheckAndLogRequiredLength 1)
    (seq (Stream_Rewind 1)
    (bind (stream_read_u8 True) (\<lambda>b1.
     bind (stream_read_u8 True) (\<lambda>b2.
     ret (push_bit 1 (uint (b1 AND 0x01)) OR uint (drop_bit 7 b2))))))"

section \<open>Safety of the readers\<close>

lemma reader_consumed [reader_intros]: "reader k (tpkt_ensure_stream_consumed n) 0"
  by (auto simp: reader_def tpkt_ensure_stream_consumed_def remaining_length intro!: exI [of _ 0])

lemma reader_assertion [reader_intros]: "c \<Longrightarrow> reader k (assert_that (\<lambda>_. c)) k"
  by (auto simp: reader_def intro!: exI [of _ 0])

lemma reader_mcs_header [reader_intros]: "p \<noteq> 0 \<Longrightarrow> reader k (mcs_read_domain_mcspdu_header p) 0"
  unfolding mcs_read_domain_mcspdu_header_def by (rule reader_intros reader_last | simp)+

lemma reader_domain_parameters [reader_intros]: "reader k mcs_read_domain_parameters 0"
  unfolding mcs_read_domain_parameters_def by (rule reader_intros reader_last | simp)+

lemma reader_erect_domain [reader_intros]: "reader k mcs_recv_erect_domain_request 0"
  unfolding mcs_recv_erect_domain_request_def by (rule reader_intros reader_last | simp add: mcs_codes)+

lemma reader_attach_user_request [reader_intros]: "reader k mcs_recv_attach_user_request 0"
  unfolding mcs_recv_attach_user_request_def by (rule reader_intros reader_last | simp add: mcs_codes)+

lemma reader_join_confirm [reader_intros]: "reader k mcs_recv_channel_join_confirm 0"
  unfolding mcs_recv_channel_join_confirm_def by (rule reader_intros reader_last | simp add: mcs_codes)+

text \<open>
  The readers that store the user id: from a well-formed stream they reach well-formed streams and
  change nothing else of the module.
\<close>

definition within :: "('n, 'e) rdpMcs \<Rightarrow> ('n, 'e) rdpMcs \<times> wStream \<Rightarrow> bool" where
  "within m0 = (\<lambda>(m, s). read_ok s \<and> (\<exists>v. m = m0\<lparr>userId := v\<rparr>))"

definition id_reader :: "('n, 'e) rdpMcs \<Rightarrow> (('n, 'e) rdpMcs \<times> wStream, 'a) prog \<Rightarrow> bool" where
  "id_reader m0 rd \<longleftrightarrow> triple (within m0) rd (\<lambda>_. within m0) (within m0)"

lemma id_reader_stream: "reader 0 rd 0 \<Longrightarrow> id_reader m0 (mcs_stream rd)"
  unfolding id_reader_def triple_def within_def
  by (fastforce simp: reader_def mcs_stream_def split: outcome.splits)

lemma id_reader_store: "id_reader m0 (modify (\<lambda>(m, s). (m\<lparr>userId := v\<rparr>, s)))"
  by (auto simp: id_reader_def triple_def within_def)

lemma id_reader_bind: "id_reader m0 rd \<Longrightarrow> (\<And>x. id_reader m0 (f x)) \<Longrightarrow> id_reader m0 (bind rd f)"
  unfolding id_reader_def by (rule triple_bind)

lemma id_reader_seq: "id_reader m0 rd \<Longrightarrow> id_reader m0 rd' \<Longrightarrow> id_reader m0 (seq rd rd')"
  unfolding id_reader_def by (rule triple_seq)

lemma id_reader_basic: "id_reader m0 (ret x)" "id_reader m0 fail" "id_reader m0 (gets g)"
  by (simp_all add: id_reader_def triple_def)

lemma id_reader_if: "id_reader m0 rd \<Longrightarrow> id_reader m0 rd' \<Longrightarrow> id_reader m0 (if c then rd else rd')"
  by simp

lemmas id_reader_intros = id_reader_stream id_reader_store id_reader_bind id_reader_seq id_reader_basic
  id_reader_if

lemma id_reader_user_id: "id_reader m0 read_user_id"
  unfolding read_user_id_def
  by (rule id_reader_intros reader_intros reader_last | simp)+

lemma id_reader_attach_confirm: "id_reader m0 mcs_recv_attach_user_confirm"
  unfolding mcs_recv_attach_user_confirm_def
  by (rule id_reader_intros id_reader_user_id reader_intros | simp add: mcs_codes)+

lemma id_reader_join_request: "id_reader m0 (mcs_recv_channel_join_request replay)"
  unfolding mcs_recv_channel_join_request_def
  by (rule id_reader_intros reader_intros | simp add: mcs_codes)+

lemma ultimatum_run:
  assumes "read_ok s" and "0 < pointer s"
  shows "mcs_recv_disconnect_provider_ultimatum s =
    (case rem s of
       [] \<Rightarrow> Failed s
     | b2 # _ \<Rightarrow> Done (push_bit 1 (uint (buffer s ! (pointer s - 1) AND 0x01)) OR uint (drop_bit 7 b2)) (adv 1 s))"
proof (cases "rem s")
  case Nil
  then show ?thesis
    using assms by (simp add: mcs_recv_disconnect_provider_ultimatum_def stream_read)
next
  case (Cons b2 r)
  let ?s = "s\<lparr>pointer := pointer s - 1\<rparr>"
  have "take (s_length s) (buffer s) ! (pointer s - 1) = buffer s ! (pointer s - 1)"
      "pointer s - 1 < length (take (s_length s) (buffer s))"
    using assms by (auto simp: read_ok_def stream_ok_def)
  then have rem: "rem ?s = buffer s ! (pointer s - 1) # rem s"
    using assms(2) unfolding rem_def by (simp add: Cons_nth_drop_Suc [symmetric])
  have ok: "read_ok ?s" using assms by (auto simp: read_ok_def stream_ok_def)
  have "Stream_Rewind 1 s = Done () ?s" using assms(2) by (simp add: Stream_Rewind_def)
  moreover have "adv 2 ?s = adv 1 s" using assms(2) by (simp add: adv_def)
  ultimately show ?thesis
    using assms(1) Cons ok rem
    by (simp add: mcs_recv_disconnect_provider_ultimatum_def stream_read numeral_2_eq_2 [symmetric])
qed

lemma mcs_header_advances:
  assumes "read_ok s" and "p \<noteq> 0" and "mcs_read_domain_mcspdu_header p s = Done v s'"
  shows "0 < pointer s'"
proof -
  let ?before = "bind tpkt_read_header tpdu_read_data"
  have "reader 0 ?before 0" by (rule reader_intros | simp)+
  then have "case ?before s of Done _ s1 \<Rightarrow> read_ok s1 | _ \<Rightarrow> True"
    using assms(1) by (fastforce simp: reader_def split: outcome.splits)
  with assms(2,3) obtain s1 c where "read_ok s1" "per_read_choice s1 = Done c s'"
    by (auto simp: mcs_read_domain_mcspdu_header_def bind_def seq_def split: outcome.splits if_splits)
  then show ?thesis
    by (cases "rem s1") (auto simp: per_read_choice_def stream_read adv_def)
qed

lemma reader_header_ultimatum:
  "reader 0 (bind (mcs_read_domain_mcspdu_header DomainMCSPDU_DisconnectProviderUltimatum)
     (\<lambda>_. mcs_recv_disconnect_provider_ultimatum)) 0"
proof -
  let ?h = "mcs_read_domain_mcspdu_header DomainMCSPDU_DisconnectProviderUltimatum"
  have h: "reader 0 ?h 0" by (rule reader_intros | simp add: mcs_codes)+
  have "case bind ?h (\<lambda>_. mcs_recv_disconnect_provider_ultimatum) s of
      Done _ s' \<Rightarrow> (\<exists>n \<le> length (rem s). s' = adv n s) | Failed s' \<Rightarrow> (\<exists>n \<le> length (rem s). s' = adv n s)
    | Fault _ \<Rightarrow> False" if s: "read_ok s" for s
  proof (cases "?h s")
    case (Done v s1)
    with h s obtain n where n: "n \<le> length (rem s)" "s1 = adv n s" by (fastforce simp: reader_def)
    have p: "0 < pointer s1" by (rule mcs_header_advances [OF s _ Done]) (simp add: mcs_codes)
    have ok: "read_ok s1" using s n by simp
    show ?thesis
    proof (cases "rem s1")
      case Nil
      then show ?thesis using Done ultimatum_run [OF ok p] n by (auto simp: bind_def)
    next
      case (Cons b r)
      then have "Suc n \<le> length (rem s)" using n s by (auto simp: Suc_le_eq dest: arg_cong [where f = length])
      then show ?thesis
        using Done ultimatum_run [OF ok p] Cons n by (auto simp: bind_def intro!: exI [of _ "Suc n"])
    qed
  qed (use h s in \<open>fastforce simp: reader_def bind_def\<close>)+
  then show ?thesis unfolding reader_def by (fastforce split: outcome.splits)
qed

section \<open>The PDUs\<close>

definition enc_mcs_header :: "byte \<Rightarrow> u16 \<Rightarrow> byte \<Rightarrow> byte list" where
  "enc_mcs_header p len opt = enc_tpkt len @ enc_tpdu_data @ [push_bit 2 p OR opt]"

lemma length_enc_mcs_header [simp]: "length (enc_mcs_header p len opt) = 8"
  by (simp add: enc_mcs_header_def enc_tpdu_data_def)

lemma mcs_header_put [stream_write]:
  assumes "stream_ok s" and "8 \<le> room s" and "opt AND NOT 0x03 = 0" and "p AND NOT 0x3F = 0"
  shows "mcs_write_domain_mcspdu_header p len opt s = Done () (put (enc_mcs_header p len opt) s)"
  using assms
  by (simp add: mcs_write_domain_mcspdu_header_def enc_mcs_header_def per_write_choice_def stream_write
      enc_tpdu_data_def)

lemma mcs_header_enc:
  assumes "read_ok s" and "rem s = enc_mcs_header p len opt @ r" and "unat len = 8 + length r"
    and "p \<noteq> 0" and "drop_bit 2 (push_bit 2 p OR opt) = p"
  shows "mcs_read_domain_mcspdu_header p s = Done len (adv 8 s)"
proof -
  let ?c = "push_bit 2 p OR opt"
  have r: "rem s = enc_tpkt len @ enc_tpdu_data @ ?c # r" using assms(2) by (simp add: enc_mcs_header_def)
  have "tpkt_read_header s = Done len (adv 4 s)"
    using assms(1,3) r by (intro tpkt_read_enc [of _ _ "enc_tpdu_data @ ?c # r"]) (simp_all add: enc_tpdu_data_def)
  moreover have "tpdu_read_data len (adv 4 s) = Done 2 (adv 3 (adv 4 s))"
    using assms(1,3) r by (intro tpdu_read_data_enc [of _ "?c # r"]) simp_all
  moreover have "per_read_choice (adv 7 s) = Done ?c (adv 8 s)"
    using assms(1) r by (simp add: per_read_choice_def stream_read enc_tpdu_data_def)
  ultimately show ?thesis
    using assms(4,5) by (simp add: mcs_read_domain_mcspdu_header_def)
qed

lemma consumed_run: "read_ok s \<Longrightarrow> rem s = [] \<Longrightarrow> tpkt_ensure_stream_consumed (unat (len :: u16)) s = Done () s"
  using unat_u16_less [of len] by (simp add: tpkt_ensure_stream_consumed_def remaining_length del: unat_u16_less)

text \<open>The bytes of the four PDUs between client and server that carry values.\<close>

definition attach_confirm_pdu :: "u16 \<Rightarrow> byte list" where
  "attach_confirm_pdu user =
     enc_mcs_header DomainMCSPDU_AttachUserConfirm 11 2 @ 0 # bytes_be 2 (unat (user - MCS_BASE_CHANNEL_ID))"

definition join_request_pdu :: "u16 \<Rightarrow> u16 \<Rightarrow> byte list" where
  "join_request_pdu user channel =
     enc_mcs_header DomainMCSPDU_ChannelJoinRequest 12 0 @
       bytes_be 2 (unat (user - MCS_BASE_CHANNEL_ID)) @ bytes_be 2 (unat channel)"

definition join_confirm_pdu :: "u16 \<Rightarrow> u16 \<Rightarrow> byte list" where
  "join_confirm_pdu user channel =
     enc_mcs_header DomainMCSPDU_ChannelJoinConfirm 15 2 @
       0 # bytes_be 2 (unat (user - MCS_BASE_CHANNEL_ID)) @ bytes_be 2 (unat channel) @ bytes_be 2 (unat channel)"

definition ultimatum_pdu :: "byte list" where
  "ultimatum_pdu = enc_mcs_header DomainMCSPDU_DisconnectProviderUltimatum 9 1 @ [0x80]"

lemmas mcs_pdus = attach_confirm_pdu_def join_request_pdu_def join_confirm_pdu_def ultimatum_pdu_def

lemma bytes_be_two: "bytes_be 2 n = [word_of_nat (n div 256), word_of_nat n]"
  by (simp add: bytes_be_def numeral_2_eq_2)

lemma whole_mcs_pdu:
  assumes "unat len = 8 + length r"
  shows "whole_pdu (enc_mcs_header p len opt @ r)"
proof -
  let ?n = "unat len"
  have n: "?n < 65536" by simp
  then have "?n div 256 mod 256 = ?n div 256" by (intro mod_less) (simp add: less_mult_imp_div_less)
  then have "256 * (?n div 256 mod 256) + ?n mod 256 = ?n" by simp
  then have "256 * int (?n div 256 mod 256) + int (?n mod 256) = int ?n" by linarith
  moreover have "uint (word_of_nat k :: byte) = int (k mod 256)" for k
    by (simp only: unsigned_of_nat take_bit_nat_def) simp
  ultimately have "256 * uint (word_of_nat (?n div 256) :: byte) + uint (word_of_nat ?n :: byte) = int ?n"
    by (simp only:)
  moreover have "tpkt_check (int ?n) = int ?n" using n assms by (simp add: tpkt_check_def)
  ultimately show ?thesis
    using assms by (simp add: whole_pdu_def enc_mcs_header_def enc_tpkt_def enc_tpdu_data_def bytes_be_two)
qed

lemma whole_mcs_pdus: "whole_pdu (attach_confirm_pdu user)" "whole_pdu (join_request_pdu user channel)"
    "whole_pdu (join_confirm_pdu user channel)" "whole_pdu ultimatum_pdu"
  unfolding mcs_pdus by (rule whole_mcs_pdu; simp)+

text \<open>Receiving them.\<close>

lemma offset_in_range:
  assumes "unat mn \<le> unat (user :: u16)"
  shows "\<not> unat (user - mn) > 0xFFFF - unat mn"
proof -
  have "unat (user - mn) = unat user - unat mn" using assms by (simp add: unat_sub word_le_nat_alt)
  moreover have "unat user \<le> 0xFFFF" using unat_u16_less [of user] by (simp del: unat_u16_less)
  ultimately show ?thesis by simp
qed

lemma read_user_id_enc:
  assumes "read_ok s" and "rem s = bytes_be 2 (unat (user - MCS_BASE_CHANNEL_ID)) @ r"
    and "unat MCS_BASE_CHANNEL_ID \<le> unat user"
  shows "read_user_id (m, s) = Done () (m\<lparr>userId := user\<rparr>, adv 2 s)"
proof -
  have "seq (Stream_CheckAndLogRequiredLength 2) (stream_read_u16_be True) s =
      Done (user - MCS_BASE_CHANNEL_ID) (adv 2 s)"
    using assms(1,2) by (simp add: stream_read nat_be_bytes_be)
  with offset_in_range [OF assms(3)] show ?thesis
    unfolding read_user_id_def by (simp add: mcs_stream_def bind_def)
qed

lemma after_header:
  assumes "read_ok s" and "rem s = enc_mcs_header p len opt @ r"
  obtains s' where "s' = adv 8 s" "read_ok s'" "rem s' = r"
  using assms by (intro that [of "adv 8 s"]) simp_all

lemma recv_attach_confirm:
  assumes "read_ok s" and "rem s = attach_confirm_pdu user" and "unat MCS_BASE_CHANNEL_ID \<le> unat user"
  shows "mcs_recv_attach_user_confirm (m, s) = Done () (m\<lparr>userId := user\<rparr>, adv 11 s)"
proof -
  note pdu = assms(2) [unfolded attach_confirm_pdu_def]
  obtain s8 where s8: "s8 = adv 8 s" "read_ok s8"
      "rem s8 = [0] @ bytes_be 2 (unat (user - MCS_BASE_CHANNEL_ID))"
    by (rule after_header [OF assms(1) pdu]) simp
  have h: "mcs_read_domain_mcspdu_header DomainMCSPDU_AttachUserConfirm s = Done 11 s8"
    unfolding s8(1) using assms(1) pdu by (rule mcs_header_enc) (simp_all add: mcs_codes)
  have r: "per_read_enumerated MCS_Result_enum_length s8 = Done 0 (adv 1 s8)"
    using per_enumerated.rd_enc [OF s8(2) _ s8(3)] by (simp add: mcs_codes)
  have u: "read_user_id (m, adv 1 s8) = Done () (m\<lparr>userId := user\<rparr>, adv 2 (adv 1 s8))"
    using s8(2,3) by (intro read_user_id_enc [of _ _ "[]"] assms(3)) simp_all
  have c: "tpkt_ensure_stream_consumed (unat (11 :: u16)) (adv 3 s8) = Done () (adv 3 s8)"
    using s8(2,3) by (intro consumed_run) simp_all
  show ?thesis
    using h r u c s8(1)
    by (simp add: mcs_recv_attach_user_confirm_def mcs_stream_def bind_def seq_def del: unat_numeral)
qed

lemma read_id_enc:
  assumes "read_ok s" and "rem s = bytes_be 2 (unat (v - mn)) @ r" and "unat mn \<le> unat v"
  shows "per_read_integer16 mn s = Done v (adv 2 s)"
  using per_integer16.rd_enc [OF assms(1,3,2)] by simp

lemma recv_join_request:
  assumes "read_ok s" and "rem s = join_request_pdu user channel" and "unat MCS_BASE_CHANNEL_ID \<le> unat user"
  shows "mcs_recv_channel_join_request False (m, s) =
    (if userId m = user then Done channel (m, adv 12 s) else Failed (m, adv 10 s))"
proof -
  note pdu = assms(2) [unfolded join_request_pdu_def]
  obtain s8 where s8: "s8 = adv 8 s" "read_ok s8"
      "rem s8 = bytes_be 2 (unat (user - MCS_BASE_CHANNEL_ID)) @ bytes_be 2 (unat (channel - 0))"
    by (rule after_header [OF assms(1) pdu]) simp
  have h: "mcs_read_domain_mcspdu_header DomainMCSPDU_ChannelJoinRequest s = Done 12 s8"
    unfolding s8(1) using assms(1) pdu by (rule mcs_header_enc) (simp_all add: mcs_codes)
  have u: "per_read_integer16 MCS_BASE_CHANNEL_ID s8 = Done user (adv 2 s8)"
    using s8(2,3) assms(3) by (rule read_id_enc)
  have i: "per_read_integer16 0 (adv 2 s8) = Done channel (adv 2 (adv 2 s8))"
    using s8(2,3) by (intro read_id_enc [of _ _ _ "[]"]) simp_all
  have c: "tpkt_ensure_stream_consumed (unat (12 :: u16)) (adv 4 s8) = Done () (adv 4 s8)"
    using s8(2,3) by (intro consumed_run) simp_all
  show ?thesis
    using h u i c s8(1)
    by (simp add: mcs_recv_channel_join_request_def mcs_stream_def bind_def seq_def del: unat_numeral)
qed

lemma recv_join_confirm:
  assumes "read_ok s" and "rem s = join_confirm_pdu user channel" and "unat MCS_BASE_CHANNEL_ID \<le> unat user"
  shows "mcs_recv_channel_join_confirm s = Done channel (adv 15 s)"
proof -
  note pdu = assms(2) [unfolded join_confirm_pdu_def]
  let ?c = "bytes_be 2 (unat (channel - 0))"
  obtain s8 where s8: "s8 = adv 8 s" "read_ok s8"
      "rem s8 = [0] @ bytes_be 2 (unat (user - MCS_BASE_CHANNEL_ID)) @ ?c @ ?c"
    by (rule after_header [OF assms(1) pdu]) simp
  have h: "mcs_read_domain_mcspdu_header DomainMCSPDU_ChannelJoinConfirm s = Done 15 s8"
    unfolding s8(1) using assms(1) pdu by (rule mcs_header_enc) (simp_all add: mcs_codes)
  have r: "per_read_enumerated MCS_Result_enum_length s8 = Done 0 (adv 1 s8)"
    using per_enumerated.rd_enc [OF s8(2) _ s8(3)] by (simp add: mcs_codes)
  have u: "per_read_integer16 MCS_BASE_CHANNEL_ID (adv 1 s8) = Done user (adv 2 (adv 1 s8))"
    using s8(2,3) assms(3) by (intro read_id_enc [of _ _ _ "?c @ ?c"]) simp_all
  have i: "per_read_integer16 0 (adv 3 s8) = Done channel (adv 2 (adv 3 s8))"
    using s8(2,3) by (intro read_id_enc [of _ _ _ ?c]) simp_all
  have j: "per_read_integer16 0 (adv 5 s8) = Done channel (adv 2 (adv 5 s8))"
    using s8(2,3) by (intro read_id_enc [of _ _ _ "[]"]) simp_all
  have c: "tpkt_ensure_stream_consumed (unat (15 :: u16)) (adv 7 s8) = Done () (adv 7 s8)"
    using s8(2,3) by (intro consumed_run) simp_all
  show ?thesis
    using h r u i j c s8(1)
    by (simp add: mcs_recv_channel_join_confirm_def bind_def seq_def del: unat_numeral)
qed

lemma recv_ultimatum:
  assumes "read_ok s" and "rem s = ultimatum_pdu"
  shows "bind (mcs_read_domain_mcspdu_header DomainMCSPDU_DisconnectProviderUltimatum)
    (\<lambda>_. mcs_recv_disconnect_provider_ultimatum) s = Done 3 (adv 9 s)"
proof -
  note pdu = assms(2) [unfolded ultimatum_pdu_def]
  obtain s8 where s8: "s8 = adv 8 s" "read_ok s8" "rem s8 = [0x80]"
    by (rule after_header [OF assms(1) pdu]) simp
  have h: "mcs_read_domain_mcspdu_header DomainMCSPDU_DisconnectProviderUltimatum s = Done 9 s8"
    unfolding s8(1) using assms(1) pdu by (rule mcs_header_enc) (simp_all add: mcs_codes)
  have p: "0 < pointer s8" "pointer s8 - 1 = pointer s + 7" "buffer s8 = buffer s"
    by (simp_all add: s8(1) adv_def)
  have "length (rem s) = 9" by (simp add: pdu)
  then have "pointer s + 7 < length (take (s_length s) (buffer s))"
    unfolding rem_def length_drop by linarith
  then have "buffer s ! (pointer s + 7) = rem s ! 7" unfolding rem_def by (subst nth_drop) simp_all
  also have "\<dots> = 0x21"
    unfolding pdu by (simp add: enc_mcs_header_def enc_tpdu_data_def enc_tpkt_def bytes_be_two mcs_codes)
  finally have "buffer s8 ! (pointer s8 - 1) = 0x21" using p by simp
  then have "mcs_recv_disconnect_provider_ultimatum s8 = Done 3 (adv 1 s8)"
    using ultimatum_run [OF s8(2) p(1)] s8(3) by simp
  then show ?thesis using h s8(1) by (simp add: bind_def)
qed

section \<open>Sending over a plain connection\<close>

text \<open>
  A module whose transport is a plain connection in good state, and what has been handed to that
  connection. There is memory for streams, and in the blocking mode for the transmit buffer.
\<close>

definition conn_bytes :: "('k \<Rightarrow> byte list) \<Rightarrow> ('k simple_bio buffered_bio, 'e) rdpMcs \<Rightarrow> byte list" where
  "conn_bytes accepted m = (case frontBio (transport m) of None \<Rightarrow> [] | Some st \<Rightarrow> handed accepted st)"

definition connected ::
    "byte allocator \<Rightarrow> 'k os_send \<Rightarrow> ('k \<Rightarrow> int \<times> 'k) \<Rightarrow> ('k \<Rightarrow> byte list) \<Rightarrow> ('k \<Rightarrow> nat) \<Rightarrow>
     ('k simple_bio buffered_bio, 'e) rdpMcs \<Rightarrow> bool" where
  "connected A os_s os_wait accepted patience m \<longleftrightarrow>
     send_contract os_s accepted \<and> wait_contract os_wait accepted \<and> unblocks os_s os_wait patience \<and>
     (\<exists>st. frontBio (transport m) = Some st \<and> rb_inv (xmitBuffer st) \<and> rsize (xmitBuffer st) + 15 < 2 ^ 31 \<and>
        (blocking (transport m) \<longrightarrow> (\<forall>data rb. ringbuffer_write A data (xmitBuffer st) \<noteq> Failed rb)))"

text \<open>
  \<open>conveys\<close>: the send returns; it reports success, exactly one whole PDU has been handed to the
  connection and a receiver of that PDU behaves as \<open>good\<close> says; or it reports failure and the
  connection is closed.
\<close>

definition conveys ::
    "('k \<Rightarrow> byte list) \<Rightarrow> ('k simple_bio buffered_bio, 'e) rdpMcs \<Rightarrow>
     (('k simple_bio buffered_bio, 'e) rdpMcs, bool) outcome \<Rightarrow>
     (('k simple_bio buffered_bio, 'e) rdpMcs \<Rightarrow> wStream \<Rightarrow> bool) \<Rightarrow> bool" where
  "conveys accepted m out good \<longleftrightarrow>
     (\<exists>ok m'. out = Done ok m' \<and>
        (if ok
         then (\<exists>pdu. conn_bytes accepted m' = conn_bytes accepted m @ pdu \<and> whole_pdu pdu \<and>
                 (\<forall>s. read_ok s \<and> rem s = pdu \<longrightarrow> good m' s))
         else layer (transport m') = TRANSPORT_LAYER_CLOSED))"

lemma ignoring_run: "wr s = Done x s' \<Longrightarrow> ignoring wr s = Done () s'"
  by (simp add: ignoring_def or_value_def bind_def)

lemma fresh_stream:
  assumes "\<forall>n. mok n" and "0 < n" and "n \<le> length junk" and "n < 2 ^ 64"
  obtains s where "Stream_New mok None n junk = Some s" "stream_ok s" "pointer s = 0" "capacity s = n"
  using assms by (auto simp: Stream_New_def stream_ok_def intro!: that)

lemma emit_conveys:
  assumes "connected A os_s os_wait accepted patience m" and "transport m1 = transport m"
    and "stream_ok s" and "pointer s = 0" and "wr s = Done () s'" and "stream_ok s'"
    and "take (pointer s') (buffer s') = pdu" and "pdu \<noteq> []" and "length pdu \<le> 15" and "whole_pdu pdu"
    and "\<And>m' r. m' = m1\<lparr>transport := transport m'\<rparr> \<Longrightarrow> read_ok r \<Longrightarrow> rem r = pdu \<Longrightarrow> good m' r"
  shows "conveys accepted m (mcs_emit (tcp_out A os_s os_r os_wait) wr s m1) good"
proof -
  from assms(1) obtain st where st: "send_contract os_s accepted"
      "blocking (transport m) \<or> WaitForOutputBufferFlush (transport m) \<longrightarrow>
        wait_contract os_wait accepted \<and> unblocks os_s os_wait patience"
      "blocking (transport m) \<longrightarrow> (\<forall>rb. ringbuffer_write A pdu (xmitBuffer st) \<noteq> Failed rb)"
      "frontBio (transport m) = Some st" "rb_inv (xmitBuffer st)" "rsize (xmitBuffer st) + 15 < 2 ^ 31"
    unfolding connected_def by blast
  have small: "rsize (xmitBuffer st) + length pdu < 2 ^ 31" using st(6) assms(9) by linarith
  obtain r t' s2 st' where w:
      "transport_default_write (tcp_out A os_s os_r os_wait) (transport m, s') = Done r (t', s2)"
      "frontBio t' = Some st'"
      "r = int (length pdu) \<and> handed accepted st' = handed accepted st @ pdu \<or>
       r = - 1 \<and> layer t' = TRANSPORT_LAYER_CLOSED"
    using transport_write_run [where os_r = os_r, OF st(1-5) small assms(6) assms(7) [symmetric] assms(8)] by blast
  have run: "mcs_emit (tcp_out A os_s os_r os_wait) wr s m1 = Done (\<not> r < 0) (m1\<lparr>transport := t'\<rparr>)"
    using assms(2,5) w(1) by (simp add: mcs_emit_def)
  show ?thesis
    unfolding conveys_def run using w(2,3) st(4) assms(10,11) by (auto simp: conn_bytes_def)
qed

lemma put_fresh:
  assumes "stream_ok s" and "pointer s = 0" and "length pdu \<le> capacity s"
  shows "take (length pdu) (buffer (put pdu s)) = pdu" and "pointer (put pdu s) = length pdu"
    and "stream_ok (put pdu s)"
  using assms by (simp_all add: put_def splice_at_def stream_ok_def)

text \<open>A writer that fills a fresh stream with a PDU, and seals it.\<close>

lemma sealed:
  assumes "stream_ok s" and "pointer s = 0" and "length pdu \<le> capacity s"
  shows "Stream_SealLength (put pdu s) = Done () ((put pdu s)\<lparr>s_length := length pdu\<rparr>)"
    and "stream_ok ((put pdu s)\<lparr>s_length := length pdu\<rparr>)"
  using assms by (simp_all add: Stream_SealLength_def put_fresh stream_ok_def put_def splice_at_def)

lemma attach_confirm_written:
  assumes "stream_ok s" and "pointer s = 0" and "capacity s = 11"
  shows "seq (ignoring (mcs_write_domain_mcspdu_header DomainMCSPDU_AttachUserConfirm 11 2))
    (seq (ignoring (per_write_enumerated MCS_Result_enum_length 0))
    (seq (ignoring (per_write_integer16 MCS_BASE_CHANNEL_ID user)) Stream_SealLength)) s =
    Done () ((put (attach_confirm_pdu user) s)\<lparr>s_length := 11\<rparr>)"
proof -
  let ?h = "enc_mcs_header DomainMCSPDU_AttachUserConfirm 11 2"
  have room: "room s = 11" using assms by (simp add: room_def)
  have 1: "ignoring (mcs_write_domain_mcspdu_header DomainMCSPDU_AttachUserConfirm 11 2) s = Done () (put ?h s)"
    using assms(1) room by (intro ignoring_run [where x = "()"] mcs_header_put) (simp_all add: mcs_codes)
  have 2: "ignoring (per_write_enumerated MCS_Result_enum_length 0) (put ?h s) = Done () (put (?h @ [0]) s)"
    using assms(1) room
    by (intro ignoring_run [where x = "()"]) (simp add: per_write_enumerated_def stream_write)
  have 3: "ignoring (per_write_integer16 MCS_BASE_CHANNEL_ID user) (put (?h @ [0]) s) =
      Done () (put (attach_confirm_pdu user) s)"
    using assms(1) room
    by (intro ignoring_run [where x = "()"]) (simp add: per_write_integer16_def attach_confirm_pdu_def stream_write)
  have "length (attach_confirm_pdu user) = 11" by (simp add: attach_confirm_pdu_def)
  then show ?thesis using 1 2 3 sealed(1) [OF assms(1,2), of "attach_confirm_pdu user"] assms(3) by simp
qed

lemma join_request_written:
  assumes "stream_ok s" and "pointer s = 0" and "capacity s = 12"
  shows "seq (ignoring (mcs_write_domain_mcspdu_header DomainMCSPDU_ChannelJoinRequest 12 0))
    (seq (ignoring (per_write_integer16 MCS_BASE_CHANNEL_ID user))
    (seq (ignoring (per_write_integer16 0 channel)) Stream_SealLength)) s =
    Done () ((put (join_request_pdu user channel) s)\<lparr>s_length := 12\<rparr>)"
proof -
  let ?h = "enc_mcs_header DomainMCSPDU_ChannelJoinRequest 12 0"
  let ?u = "bytes_be 2 (unat (user - MCS_BASE_CHANNEL_ID))"
  have room: "room s = 12" using assms by (simp add: room_def)
  have 1: "ignoring (mcs_write_domain_mcspdu_header DomainMCSPDU_ChannelJoinRequest 12 0) s = Done () (put ?h s)"
    using assms(1) room by (intro ignoring_run [where x = "()"] mcs_header_put) (simp_all add: mcs_codes)
  have 2: "ignoring (per_write_integer16 MCS_BASE_CHANNEL_ID user) (put ?h s) = Done () (put (?h @ ?u) s)"
    using assms(1) room
    by (intro ignoring_run [where x = "()"]) (simp add: per_write_integer16_def stream_write)
  have 3: "ignoring (per_write_integer16 0 channel) (put (?h @ ?u) s) = Done () (put (join_request_pdu user channel) s)"
    using assms(1) room
    by (intro ignoring_run [where x = "()"]) (simp add: per_write_integer16_def join_request_pdu_def stream_write)
  have "length (join_request_pdu user channel) = 12" by (simp add: join_request_pdu_def)
  then show ?thesis using 1 2 3 sealed(1) [OF assms(1,2), of "join_request_pdu user channel"] assms(3) by simp
qed

lemma join_confirm_written:
  assumes "stream_ok s" and "pointer s = 0" and "capacity s = 15"
  shows "seq (mcs_write_domain_mcspdu_header DomainMCSPDU_ChannelJoinConfirm 15 2)
    (seq (per_write_enumerated MCS_Result_enum_length 0)
    (seq (per_write_integer16 MCS_BASE_CHANNEL_ID user)
    (seq (per_write_integer16 0 channel)
    (seq (per_write_integer16 0 channel) Stream_SealLength)))) s =
    Done () ((put (join_confirm_pdu user channel) s)\<lparr>s_length := 15\<rparr>)"
proof -
  have room: "room s = 15" using assms by (simp add: room_def)
  have len: "length (join_confirm_pdu user channel) = 15" by (simp add: join_confirm_pdu_def)
  have "mcs_write_domain_mcspdu_header DomainMCSPDU_ChannelJoinConfirm 15 2 s =
      Done () (put (enc_mcs_header DomainMCSPDU_ChannelJoinConfirm 15 2) s)"
    using assms(1) room by (intro mcs_header_put) (simp_all add: mcs_codes)
  then show ?thesis
    using assms(1) room sealed(1) [OF assms(1,2), of "join_confirm_pdu user channel"] len assms(3)
    by (simp add: per_write_integer16_def per_write_enumerated_def stream_write join_confirm_pdu_def)
qed

lemma ultimatum_written:
  assumes "stream_ok s" and "pointer s = 0" and "capacity s = 9"
  shows "seq (mcs_write_domain_mcspdu_header DomainMCSPDU_DisconnectProviderUltimatum 9 1)
    (per_write_enumerated 0 0x80) s = Done () (put ultimatum_pdu s)"
proof -
  have room: "room s = 9" using assms by (simp add: room_def)
  have "mcs_write_domain_mcspdu_header DomainMCSPDU_DisconnectProviderUltimatum 9 1 s =
      Done () (put (enc_mcs_header DomainMCSPDU_DisconnectProviderUltimatum 9 1) s)"
    using assms(1) room by (intro mcs_header_put) (simp_all add: mcs_codes)
  then show ?thesis
    using assms(1) room by (simp add: per_write_enumerated_def stream_write ultimatum_pdu_def)
qed

text \<open>
  A PDU that a writer puts into a fresh stream of its length reaches a receiver as it was meant;
  then the four PDUs.
\<close>

lemma send_conveys:
  assumes "connected A os_s os_wait accepted patience m" and "transport m1 = transport m"
    and "\<forall>n. mok n" and "length pdu \<le> length junk" and "length pdu = n" and "0 < n" and "n \<le> 15" and "whole_pdu pdu"
    and wr: "\<And>s. stream_ok s \<Longrightarrow> pointer s = 0 \<Longrightarrow> capacity s = n \<Longrightarrow>
      \<exists>l \<le> n. wr s = Done () ((put pdu s)\<lparr>s_length := l\<rparr>)"
    and good: "\<And>t r. read_ok r \<Longrightarrow> rem r = pdu \<Longrightarrow> good (m1\<lparr>transport := t\<rparr>) r"
  shows "conveys accepted m (case Stream_New mok None n junk of
      None \<Rightarrow> Done False m | Some s \<Rightarrow> mcs_emit (tcp_out A os_s os_r os_wait) wr s m1) good"
proof -
  have "n < 2 ^ 64" using assms(7) by simp
  then obtain s where s: "Stream_New mok None n junk = Some s" "stream_ok s" "pointer s = 0" "capacity s = n"
    using assms(3-6) by (elim fresh_stream [of mok n junk]) simp_all
  obtain l where l: "l \<le> n" "wr s = Done () ((put pdu s)\<lparr>s_length := l\<rparr>)" using wr s by blast
  let ?s = "(put pdu s)\<lparr>s_length := l\<rparr>"
  note f = put_fresh [OF s(2,3), of pdu]
  have "stream_ok ?s" "take (pointer ?s) (buffer ?s) = pdu" "pdu \<noteq> []"
    using f l(1) s(4) assms(5,6) by (auto simp: stream_ok_def)
  then have "conveys accepted m (mcs_emit (tcp_out A os_s os_r os_wait) wr s m1) good"
    using emit_conveys [where wr = wr and s = s and s' = ?s and pdu = pdu and good = good and ?m1.0 = m1,
        OF assms(1,2) s(2,3) l(2)] assms(5,7,8) good by metis
  then show ?thesis by (simp add: s(1))
qed

lemma attach_confirm_conveys:
  assumes "connected A os_s os_wait accepted patience m" and "\<forall>n. mok n" and "15 \<le> length junk"
    and "unat MCS_BASE_CHANNEL_ID \<le> unat (baseChannelId m)"
  shows "conveys accepted m (mcs_send_attach_user_confirm (tcp_out A os_s os_r os_wait) mok junk m)
    (\<lambda>m' s. userId m' = baseChannelId m \<and> baseChannelId m' = baseChannelId m + 1 \<and>
       mcs_recv_attach_user_confirm (peer, s) = Done () (peer\<lparr>userId := userId m'\<rparr>, adv 11 s))"
proof -
  have len: "length (attach_confirm_pdu (baseChannelId m)) = 11" by (simp add: attach_confirm_pdu_def)
  show ?thesis
    unfolding mcs_send_attach_user_confirm_def Let_def
    by (rule send_conveys [where pdu = "attach_confirm_pdu (baseChannelId m)", OF assms(1) _ assms(2)])
      (use assms(3) len in \<open>auto simp: whole_mcs_pdus attach_confirm_written recv_attach_confirm assms(4)
        intro!: exI [of _ 11]\<close>)
qed

lemma join_request_conveys:
  assumes "connected A os_s os_wait accepted patience m" and "\<forall>n. mok n" and "15 \<le> length junk"
    and "unat MCS_BASE_CHANNEL_ID \<le> unat (userId m)"
  shows "conveys accepted m (mcs_send_channel_join_request (tcp_out A os_s os_r os_wait) mok junk channel m)
    (\<lambda>m' s. mcs_recv_channel_join_request False (peer, s) =
       (if userId peer = userId m then Done channel (peer, adv 12 s) else Failed (peer, adv 10 s)))"
proof -
  have len: "length (join_request_pdu (userId m) channel) = 12" by (simp add: join_request_pdu_def)
  show ?thesis
    unfolding mcs_send_channel_join_request_def
    by (rule send_conveys [where pdu = "join_request_pdu (userId m) channel", OF assms(1) refl assms(2)])
      (use assms(3) len in \<open>auto simp: whole_mcs_pdus join_request_written recv_join_request assms(4)
        intro!: exI [of _ 12]\<close>)
qed

lemma join_confirm_conveys:
  assumes "connected A os_s os_wait accepted patience m" and "\<forall>n. mok n" and "15 \<le> length junk"
    and "unat MCS_BASE_CHANNEL_ID \<le> unat (userId m)"
  shows "conveys accepted m (mcs_send_channel_join_confirm (tcp_out A os_s os_r os_wait) mok junk channel m)
    (\<lambda>m' s. mcs_recv_channel_join_confirm s = Done channel (adv 15 s))"
proof -
  have len: "length (join_confirm_pdu (userId m) channel) = 15" by (simp add: join_confirm_pdu_def)
  show ?thesis
    unfolding mcs_send_channel_join_confirm_def
    by (rule send_conveys [where pdu = "join_confirm_pdu (userId m) channel", OF assms(1) refl assms(2)])
      (use assms(3) len in \<open>auto simp: whole_mcs_pdus join_confirm_written recv_join_confirm assms(4)
        intro!: exI [of _ 15]\<close>)
qed

lemma ultimatum_conveys:
  assumes "connected A os_s os_wait accepted patience m" and "\<forall>n. mok n" and "15 \<le> length junk"
  shows "conveys accepted m (mcs_send_disconnect_provider_ultimatum (tcp_out A os_s os_r os_wait) mok junk m)
    (\<lambda>m' s. bind (mcs_read_domain_mcspdu_header DomainMCSPDU_DisconnectProviderUltimatum)
       (\<lambda>_. mcs_recv_disconnect_provider_ultimatum) s = Done 3 (adv 9 s))"
proof -
  have len: "length ultimatum_pdu = 9" by (simp add: ultimatum_pdu_def)
  have "\<exists>l \<le> 9. put ultimatum_pdu s = (put ultimatum_pdu s)\<lparr>s_length := l\<rparr>" if "stream_ok s" "capacity s = 9" for s
    using that by (intro exI [of _ "s_length s"]) (simp add: stream_ok_def put_def)
  then show ?thesis
    unfolding mcs_send_disconnect_provider_ultimatum_def
    by (intro send_conveys [where pdu = ultimatum_pdu, OF assms(1) refl assms(2)])
      (use assms(3) len in \<open>auto simp: whole_mcs_pdus ultimatum_written recv_ultimatum\<close>)
qed

section \<open>Domain parameters on the wire\<close>

definition parameter_list :: "DomainParameters \<Rightarrow> u32 list" where
  "parameter_list p = [maxChannelIds p, maxUserIds p, maxTokenIds p, numPriorities p, minThroughput p,
     maxHeight p, maxMCSPDUsize p, protocolVersion p]"

lemma length_parameter_list: "length (parameter_list p) = 8"
  by (simp add: parameter_list_def)

definition enc_parameters :: "DomainParameters \<Rightarrow> byte list" where
  "enc_parameters p = concat (map enc_ber_integer (parameter_list p))"

fun write_integers :: "u32 list \<Rightarrow> unit sprog" where
  "write_integers [] = ret ()"
| "write_integers (v # vs) = seq (ignoring (ber_write_integer v)) (write_integers vs)"

lemma write_integers_put:
  "stream_ok s \<Longrightarrow> length (concat (map enc_ber_integer vs)) \<le> room s \<Longrightarrow>
    write_integers vs s = Done () (put (concat (map enc_ber_integer vs)) s)"
proof (induction vs arbitrary: s)
  case (Cons v vs)
  have "ignoring (ber_write_integer v) s = Done () (put (enc_ber_integer v) s)"
    using Cons.prems by (intro ignoring_run [OF ber_write_integer_put]) (simp_all add: length_enc_ber_integer)
  with Cons show ?case by simp
qed simp

lemma seq_ret_unit: "seq m (ret ()) = m"
  by (auto simp: fun_eq_iff seq_def bind_def split: outcome.splits)

lemma write_parameter_fields_list: "write_parameter_fields p = write_integers (parameter_list p)"
  by (simp add: write_parameter_fields_def parameter_list_def seq_ret_unit)

fun read_integers :: "nat \<Rightarrow> u32 list sprog" where
  "read_integers 0 = ret []"
| "read_integers (Suc n) = bind (ber_read_integer True) (\<lambda>v. bind (read_integers n) (\<lambda>vs. ret (v # vs)))"

lemma read_integers_enc:
  "read_ok s \<Longrightarrow> rem s = concat (map enc_ber_integer vs) @ r \<Longrightarrow>
    read_integers (length vs) s = Done vs (adv (length (concat (map enc_ber_integer vs))) s)"
proof (induction vs arbitrary: s)
  case (Cons v vs)
  have "ber_read_integer True s = Done v (adv (ber_sizeof_integer v) s)"
    using Cons.prems by (intro ber_read_integer_enc) simp_all
  moreover have "read_integers (length vs) (adv (ber_sizeof_integer v) s) =
      Done vs (adv (length (concat (map enc_ber_integer vs))) (adv (ber_sizeof_integer v) s))"
    using Cons.prems by (intro Cons.IH) (simp_all add: length_enc_ber_integer flip: length_enc_ber_integer)
  ultimately show ?case by (simp add: length_enc_ber_integer)
qed simp

definition parameters_of :: "u32 list \<Rightarrow> DomainParameters" where
  "parameters_of vs = \<lparr>maxChannelIds = vs ! 0, maxUserIds = vs ! 1, maxTokenIds = vs ! 2, numPriorities = vs ! 3,
     minThroughput = vs ! 4, maxHeight = vs ! 5, maxMCSPDUsize = vs ! 6, protocolVersion = vs ! 7\<rparr>"

lemma prog_bind_assoc: "bind (bind m f) g = bind m (\<lambda>x. bind (f x) g)"
  by (auto simp: fun_eq_iff bind_def split: outcome.splits)

lemma prog_bind_ret: "ret x = Done x" "bind (Done x) f = f x"
  by (auto simp: fun_eq_iff bind_def)

lemma mcs_read_domain_parameters_list:
  "mcs_read_domain_parameters =
     bind ber_read_sequence_tag (\<lambda>_. bind (read_integers 8) (\<lambda>vs. ret (parameters_of vs)))"
proof -
  have "read_integers 8 = read_integers (Suc (Suc (Suc (Suc (Suc (Suc (Suc (Suc 0))))))))" by (simp add: eval_nat_numeral)
  then show ?thesis
    by (simp add: mcs_read_domain_parameters_def parameters_of_def prog_bind_assoc prog_bind_ret)
qed

lemma parameters_of_list [simp]: "parameters_of (parameter_list p) = p"
  by (simp add: parameters_of_def parameter_list_def)

lemma length_enc_parameters: "length (enc_parameters p) \<le> 48"
proof -
  have "ber_sizeof_integer v \<le> 6" for v by (cases v rule: ber_integer_cases) simp_all
  note le = this [of "maxChannelIds p"] this [of "maxUserIds p"] this [of "maxTokenIds p"]
    this [of "numPriorities p"] this [of "minThroughput p"] this [of "maxHeight p"]
    this [of "maxMCSPDUsize p"] this [of "protocolVersion p"]
  show ?thesis
    using le by (simp add: enc_parameters_def parameter_list_def length_enc_ber_integer)
qed

definition enc_domain_parameters :: "DomainParameters \<Rightarrow> byte list" where
  "enc_domain_parameters p = (seq_tag # enc_ber_length (length (enc_parameters p))) @ enc_parameters p"

lemma write_domain_parameters_put:
  assumes "stream_ok s" and "50 \<le> room s" and "capacity s \<le> length junk" and "\<forall>n. malloc_ok s n"
  shows "mcs_write_domain_parameters junk p s = Done () (put (enc_domain_parameters p) s)"
proof -
  have cap: "50 \<le> capacity s" "capacity s < 2 ^ 64" using assms(1,2) by (auto simp: room_def stream_ok_def)
  then obtain t where t: "Stream_New (malloc_ok s) None (capacity s) junk = Some t" "stream_ok t" "pointer t = 0"
      "capacity t = capacity s"
    using assms(3,4) by (elim fresh_stream [of "malloc_ok s" "capacity s" junk]) simp_all
  let ?e = "enc_parameters p"
  have e: "length ?e \<le> 48" by (rule length_enc_parameters)
  have w: "write_parameter_fields p t = Done () (put ?e t)"
    unfolding write_parameter_fields_list enc_parameters_def
    using t cap e by (intro write_integers_put) (simp_all add: room_def enc_parameters_def)
  have f: "take (length ?e) (buffer (put ?e t)) = ?e" using put_fresh [OF t(2,3), of ?e] t(4) cap e by simp
  have small: "ber_sizeof_sequence_tag (length ?e) = 2"
    using e by (simp add: ber_sizeof_sequence_tag_def ber_sizeof_length_def)
  have "ignoring (ber_write_sequence_tag (length ?e)) s = Done () (put (seq_tag # enc_ber_length (length ?e)) s)"
    using assms(1,2) e small
    by (intro ignoring_run [OF ber_sequence.wr_sized])
      (simp_all add: length_enc_ber_length ber_sizeof_sequence_tag_def)
  then show ?thesis
    using assms(1,2) t w f e small
    by (simp add: mcs_write_domain_parameters_def enc_domain_parameters_def stream_write
        length_enc_ber_length ber_sizeof_sequence_tag_def)
qed

section \<open>The channels of the client\<close>

lemma copy_channels_run:
  assumes "index + n \<le> length defs" and "index + n \<le> length chans"
  shows "\<exists>chans'. copy_channels defs index n chans = Inr chans' \<and> length chans' = length chans \<and>
    (\<forall>i < length chans. options (chans' ! i) =
       (if index \<le> i \<and> i < index + n then def_options (defs ! i) else options (chans ! i)))"
  using assms
proof (induction n arbitrary: index chans)
  case (Suc n)
  define c where "c = (chans ! index)\<lparr>Name := splice_at 0 (take CHANNEL_NAME_LEN (def_name (defs ! index)))
      (Name (chans ! index)), options := def_options (defs ! index)\<rparr>"
  have c: "options c = def_options (defs ! index)" by (simp add: c_def)
  obtain chans' where IH: "copy_channels defs (Suc index) n (chans[index := c]) = Inr chans'"
      "length chans' = length chans"
      "\<forall>i < length chans. options (chans' ! i) =
         (if Suc index \<le> i \<and> i < Suc index + n then def_options (defs ! i) else options (chans[index := c] ! i))"
    using Suc.IH [of "Suc index" "chans[index := c]"] Suc.prems by auto
  have "copy_channels defs index (Suc n) chans = Inr chans'" using IH(1) Suc.prems by (simp add: c_def)
  moreover have "options (chans' ! i) =
      (if index \<le> i \<and> i < index + Suc n then def_options (defs ! i) else options (chans ! i))"
    if "i < length chans" for i
    using IH(3) that c by (cases "i = index") auto
  ultimately show ?case using IH(2) by blast
qed auto

lemma initialize_client_channels_run:
  assumes "min (unat count) (unat (channelMaxCount m)) \<le> length defs"
  shows "\<exists>m'. mcs_initialize_client_channels count defs m = Done 0 m' \<and>
    unat (channelCount m') = min (unat count) (unat (channelMaxCount m)) \<and>
    length (channels m') = unat (channelMaxCount m) \<and>
    (\<forall>i < unat (channelCount m'). options (channels m' ! i) = def_options (defs ! i))"
proof -
  let ?n = "if count > channelMaxCount m then channelMaxCount m else count"
  have n: "unat ?n = min (unat count) (unat (channelMaxCount m))" by (auto simp: word_less_nat_alt)
  then obtain chans where "copy_channels defs 0 (unat ?n) (replicate (unat (channelMaxCount m)) zero_channel) = Inr chans"
      "length chans = unat (channelMaxCount m)"
      "\<forall>i < unat (channelMaxCount m). options (chans ! i) =
         (if i < unat ?n then def_options (defs ! i)
          else options (replicate (unat (channelMaxCount m)) zero_channel ! i))"
    using copy_channels_run [of 0 "unat ?n" defs "replicate (unat (channelMaxCount m)) zero_channel"] assms
    by auto
  then show ?thesis
    using n by (intro exI [of _ "m\<lparr>channelCount := ?n, channels := chans\<rparr>"])
      (auto simp: mcs_initialize_client_channels_def Let_def)
qed

section \<open>Merging\<close>

lemma mcs_merge_run:
  assumes "mcs_merge_domain_parameters target minimum maximum out = Done () p"
  shows "maxChannelIds p = (if 4 \<le> maxChannelIds target then maxChannelIds target else 4) \<and>
    (4 \<le> maxChannelIds target \<or> 4 \<le> maxChannelIds maximum) \<and>
    maxUserIds p = (if 3 \<le> maxUserIds target then maxUserIds target else 3) \<and>
    (3 \<le> maxUserIds target \<or> 3 \<le> maxUserIds maximum) \<and>
    maxTokenIds p = maxTokenIds target \<and> numPriorities p = 1 \<and> numPriorities minimum \<le> 1 \<and>
    minThroughput p = minThroughput target \<and> maxHeight p = 1 \<and>
    (maxHeight target = 1 \<or> maxHeight minimum \<le> 1) \<and>
    maxMCSPDUsize p = (if 1024 \<le> maxMCSPDUsize target
      then if maxMCSPDUsize target \<le> 65528 then maxMCSPDUsize target else 65528 else maxMCSPDUsize maximum) \<and>
    (1024 \<le> maxMCSPDUsize target \<and> \<not> maxMCSPDUsize target \<le> 65528 \<longrightarrow> maxMCSPDUsize minimum \<le> 65528) \<and>
    (1024 \<le> maxMCSPDUsize target \<or> 124 \<le> maxMCSPDUsize maximum) \<and>
    protocolVersion p = 2 \<and>
    (protocolVersion target = 2 \<or> protocolVersion minimum \<le> 2 \<and> 2 \<le> protocolVersion maximum)"
  using assms unfolding mcs_merge_domain_parameters_def
  by (simp add: seq_def bind_def split: if_splits; clarsimp)

section \<open>Properties\<close>

text \<open>
  C10. The handshake of the domain, end to end. On a plain connection each of the PDUs that attach a
  user, request and confirm the joining of a channel and announce the disconnection is handed to
  the connection as exactly one PDU whose framing the receiving transport recognises, or the
  connection is closed. The client takes over the user id the server has chosen, which is the next
  free one; the server finds the channel the client asked for and refuses a request in the name of
  another user; the client finds the channel the server confirmed; and the reason of the ultimatum
  is \<open>3\<close>, user requested.
\<close>

theorem mcs_handshake_exchange:
  fixes m peer :: "('k simple_bio buffered_bio, 'e) rdpMcs"
  assumes "connected A os_s os_wait accepted patience m" and "\<forall>n. mok n" and "15 \<le> length junk"
    and "unat MCS_BASE_CHANNEL_ID \<le> unat (baseChannelId m)" and "unat MCS_BASE_CHANNEL_ID \<le> unat (userId m)"
  shows "conveys accepted m (mcs_send_attach_user_confirm (tcp_out A os_s os_r os_wait) mok junk m)
      (\<lambda>m' s. userId m' = baseChannelId m \<and> baseChannelId m' = baseChannelId m + 1 \<and>
         mcs_recv_attach_user_confirm (peer, s) = Done () (peer\<lparr>userId := userId m'\<rparr>, adv 11 s)) \<and>
    conveys accepted m (mcs_send_channel_join_request (tcp_out A os_s os_r os_wait) mok junk channel m)
      (\<lambda>m' s. mcs_recv_channel_join_request False (peer, s) =
         (if userId peer = userId m then Done channel (peer, adv 12 s) else Failed (peer, adv 10 s))) \<and>
    conveys accepted m (mcs_send_channel_join_confirm (tcp_out A os_s os_r os_wait) mok junk channel m)
      (\<lambda>m' s. mcs_recv_channel_join_confirm s = Done channel (adv 15 s)) \<and>
    conveys accepted m (mcs_send_disconnect_provider_ultimatum (tcp_out A os_s os_r os_wait) mok junk m)
      (\<lambda>m' s. bind (mcs_read_domain_mcspdu_header DomainMCSPDU_DisconnectProviderUltimatum)
         (\<lambda>_. mcs_recv_disconnect_provider_ultimatum) s = Done 3 (adv 9 s))"
  by (intro conjI attach_confirm_conveys [OF assms(1-4)] join_request_conveys [OF assms(1-3,5)]
      join_confirm_conveys [OF assms(1-3,5)] ultimatum_conveys [OF assms(1-3)])

definition demo_mcs :: "((byte list \<times> bool) simple_bio buffered_bio, unit) rdpMcs" where
  "demo_mcs = (the (mcs_new True True demo_tx))\<lparr>userId := 1007\<rparr>"

theorem mcs_handshake_exchange_witness:
  "conveys fst demo_mcs (mcs_send_channel_join_request
      (tcp_out demo_alloc demo_pacing demo_silent demo_writable) (\<lambda>_. True) (replicate 15 0) 1003 demo_mcs)
    (\<lambda>m' s. mcs_recv_channel_join_request False (demo_mcs, s) = Done 1003 (demo_mcs, adv 12 s))"
proof -
  have m: "userId demo_mcs = 1007" "baseChannelId demo_mcs = 1004" "transport demo_mcs = demo_tx"
    by (simp_all add: demo_mcs_def mcs_new_def MCS_GLOBAL_CHANNEL_ID_def)
  have "connected demo_alloc demo_pacing demo_writable fst (\<lambda>_. 0) demo_mcs"
    using demo_pacing_ok by (simp add: connected_def m demo_tx_def)
  then show ?thesis
    using mcs_handshake_exchange [where os_r = demo_silent and mok = "\<lambda>_. True" and junk = "replicate 15 0"
        and channel = 1003 and m = demo_mcs and peer = demo_mcs and accepted = fst and A = demo_alloc and os_s = demo_pacing
        and os_wait = demo_writable and patience = "\<lambda>_. 0"]
    by (simp add: m MCS_BASE_CHANNEL_ID_def)
qed

text \<open>
  C21. The domain PDU readers are safe on arbitrary input. Whatever the bytes, the readers of the domain
  parameters, the erect domain request, the attach user request and the join confirm stay inside
  the received bytes and never fault; so do the readers of the attach user confirm and the join
  request, which change nothing of the module but the user id; and the reader of the ultimatum,
  which steps back by one byte, does not fault behind the header it is called after.
\<close>

theorem mcs_readers_safe:
  "reader 0 mcs_read_domain_parameters 0 \<and> reader 0 mcs_recv_erect_domain_request 0 \<and>
   reader 0 mcs_recv_attach_user_request 0 \<and> reader 0 mcs_recv_channel_join_confirm 0 \<and>
   id_reader m mcs_recv_attach_user_confirm \<and> id_reader m (mcs_recv_channel_join_request replay) \<and>
   reader 0 (bind (mcs_read_domain_mcspdu_header DomainMCSPDU_DisconnectProviderUltimatum)
     (\<lambda>_. mcs_recv_disconnect_provider_ultimatum)) 0"
  by (simp add: reader_intros id_reader_attach_confirm id_reader_join_request reader_header_ultimatum)

text \<open>
  C25. Domain parameters survive the wire: all eight values, whatever they are, are read back from
  what \<^verbatim>\<open>mcs_write_domain_parameters\<close> wrote, and the reader stops where the writer stopped.
\<close>

theorem mcs_domain_parameters_roundtrip:
  assumes "stream_ok s" and "pointer s + 50 \<le> s_length s" and "capacity s \<le> length junk"
    and "\<forall>n. malloc_ok s n"
  shows "\<exists>s'. mcs_write_domain_parameters junk p s = Done () s' \<and>
    mcs_read_domain_parameters (s'\<lparr>pointer := pointer s\<rparr>) = Done p s'"
proof -
  let ?e = "enc_domain_parameters p" and ?n = "length (enc_parameters p)"
  have n: "?n \<le> 48" by (rule length_enc_parameters)
  have len: "length ?e = 2 + ?n"
    using n by (simp add: enc_domain_parameters_def length_enc_ber_length ber_sizeof_length_def)
  then have le: "pointer s + length ?e \<le> s_length s" using assms(2) n by linarith
  note rew = put_rewound [OF assms(1) le]
  let ?t = "(put ?e s)\<lparr>pointer := pointer s\<rparr>"
  obtain r where r: "rem ?t = (seq_tag # enc_ber_length ?n) @ enc_parameters p @ r"
    using rew(2) by (auto simp: enc_domain_parameters_def)
  have room: "50 \<le> room s" using assms(1,2) by (auto simp: room_def stream_ok_def)
  have tag: "ber_read_sequence_tag ?t = Done ?n (adv 2 ?t)"
    using ber_sequence.rd_sized [OF rew(1) _ r] n
    by (simp add: length_enc_ber_length ber_sizeof_length_def numeral_2_eq_2)
  have fields: "read_integers 8 (adv 2 ?t) = Done (parameter_list p) (adv ?n (adv 2 ?t))"
    using read_integers_enc [of "adv 2 ?t" "parameter_list p" r] rew(1) r n length_parameter_list [of p]
    by (simp add: enc_parameters_def length_enc_ber_length ber_sizeof_length_def numeral_2_eq_2)
  have "adv (2 + ?n) ?t = put ?e s" using rew(4) len by simp
  then show ?thesis
    using write_domain_parameters_put [OF assms(1) room assms(3,4)] tag fields
    by (simp add: mcs_read_domain_parameters_list)
qed

theorem mcs_domain_parameters_roundtrip_witness:
  "\<exists>s'. mcs_write_domain_parameters (replicate 64 0) (mcs_init_domain_parameters 34 2 0 0xFFFF) (demo_stream 64) =
      Done () s' \<and>
    mcs_read_domain_parameters (s'\<lparr>pointer := pointer (demo_stream 64)\<rparr>) =
      Done (mcs_init_domain_parameters 34 2 0 0xFFFF) s'"
  by (rule mcs_domain_parameters_roundtrip) simp_all

text \<open>
  C26. The server's choice respects the client's offer. When the target lies between the minimum and
  the maximum, field by field, and the maximum allows one priority and height one, a successful
  merge yields parameters that lie between them too, with at least four channels, three users and
  the only supported priority, height and version. The PDU size is between 1024 and 65528 if the
  target was at least 1024; otherwise it is the client's maximum, however large that is.
\<close>

theorem mcs_merge_within_offer:
  assumes "mcs_merge_domain_parameters target minimum maximum out = Done () p"
    and "list_all2 (\<le>) (parameter_list minimum) (parameter_list target)"
    and "list_all2 (\<le>) (parameter_list target) (parameter_list maximum)"
    and "1 \<le> numPriorities maximum" and "1 \<le> maxHeight maximum"
  shows "list_all2 (\<le>) (parameter_list minimum) (parameter_list p) \<and>
    list_all2 (\<le>) (parameter_list p) (parameter_list maximum) \<and>
    4 \<le> maxChannelIds p \<and> 3 \<le> maxUserIds p \<and> numPriorities p = 1 \<and> maxHeight p = 1 \<and> protocolVersion p = 2 \<and>
    (if 1024 \<le> maxMCSPDUsize target then 1024 \<le> maxMCSPDUsize p \<and> maxMCSPDUsize p \<le> 65528
     else maxMCSPDUsize p = maxMCSPDUsize maximum)"
proof -
  note run = mcs_merge_run [OF assms(1)]
  have le: "maxChannelIds minimum \<le> maxChannelIds target" "maxChannelIds target \<le> maxChannelIds maximum"
      "maxUserIds minimum \<le> maxUserIds target" "maxUserIds target \<le> maxUserIds maximum"
      "maxTokenIds minimum \<le> maxTokenIds target" "maxTokenIds target \<le> maxTokenIds maximum"
      "minThroughput minimum \<le> minThroughput target" "minThroughput target \<le> minThroughput maximum"
      "maxMCSPDUsize minimum \<le> maxMCSPDUsize target" "maxMCSPDUsize target \<le> maxMCSPDUsize maximum"
      "maxHeight minimum \<le> maxHeight target" "protocolVersion minimum \<le> protocolVersion target"
      "protocolVersion target \<le> protocolVersion maximum"
    using assms(2,3) by (simp_all add: parameter_list_def)
  have "maxChannelIds minimum \<le> maxChannelIds p \<and> maxChannelIds p \<le> maxChannelIds maximum \<and> 4 \<le> maxChannelIds p"
    using run le(1,2) by (auto split: if_splits)
  moreover have "maxUserIds minimum \<le> maxUserIds p \<and> maxUserIds p \<le> maxUserIds maximum \<and> 3 \<le> maxUserIds p"
    using run le(3,4) by (auto split: if_splits)
  moreover have "maxMCSPDUsize minimum \<le> maxMCSPDUsize p \<and> maxMCSPDUsize p \<le> maxMCSPDUsize maximum \<and>
      (if 1024 \<le> maxMCSPDUsize target then 1024 \<le> maxMCSPDUsize p \<and> maxMCSPDUsize p \<le> 65528
       else maxMCSPDUsize p = maxMCSPDUsize maximum)"
    using run le(9,10) by (auto split: if_splits)
  moreover have "maxHeight minimum \<le> 1" "protocolVersion minimum \<le> 2" "2 \<le> protocolVersion maximum"
    using run le(11-13) by auto
  ultimately show ?thesis
    using run le(5-8) assms(4,5) by (simp add: parameter_list_def)
qed

theorem mcs_merge_within_offer_witness:
  "let p = mcs_init_domain_parameters 34 3 1 65528 in
   mcs_merge_domain_parameters (mcs_init_domain_parameters 34 2 1 0xFFFF) (mcs_init_domain_parameters 1 1 1 0x420)
       (mcs_init_domain_parameters 0xFFFF 0xFC17 0xFFFF 0xFFFF) (mcs_init_domain_parameters 0 0 0 0xFFFF) = Done () p \<and>
   list_all2 (\<le>) (parameter_list p) (parameter_list (mcs_init_domain_parameters 0xFFFF 0xFC17 0xFFFF 0xFFFF))"
  using mcs_merge_within_offer [of "mcs_init_domain_parameters 34 2 1 0xFFFF" "mcs_init_domain_parameters 1 1 1 0x420"
      "mcs_init_domain_parameters 0xFFFF 0xFC17 0xFFFF 0xFFFF" "mcs_init_domain_parameters 0 0 0 0xFFFF"
      "mcs_init_domain_parameters 34 3 1 65528"]
  by (simp add: mcs_init_domain_parameters_def mcs_merge_domain_parameters_def parameter_list_def Let_def)

end
