(* ===== verification/HashTable.thy ===== *)
theory HashTable
  imports Complex_Main Objects
begin

text \<open>
  The hash table of WinPR, \<^verbatim>\<open>winpr/libwinpr/utils/collections/HashTable.c\<close>: pairs in an explicit store,
  linked into one list per bucket; insertion, assignment, removal, lookup, clearing, listing of keys,
  rehashing with the search for a new number of buckets, and iteration with removals delayed until
  the outermost iteration ends. The lock of a synchronized table is taken as serialising calls. The
  theories \<^verbatim>\<open>HashTableLists\<close>, \<^verbatim>\<open>HashTableMap\<close>, \<^verbatim>\<open>HashTableForeach\<close> and \<^verbatim>\<open>HashTableSpec\<close> hold the lemmas.
\<close>

section \<open>State\<close>

text \<open>
  Pairs live in a store from addresses to pairs; a bucket is the address of the first pair of a
  linked list. The thresholds are single precision numbers, kept as rationals. What the callbacks of
  \<^verbatim>\<open>fnObjectFree\<close> were called on is recorded in \<open>freed_keys\<close> and \<open>freed_values\<close>.
\<close>

record ('k, 'v) wKeyValuePair =
  pair_key :: "'k pointer"
  pair_value :: "'v pointer"
  pair_next :: "nat pointer"
  markedForRemove :: bool

record ('k, 'v) wHashTable =
  numOfBuckets :: nat
  numOfElements :: nat
  idealRatio :: rat
  lowerRehashThreshold :: rat
  upperRehashThreshold :: rat
  bucketArray :: "nat pointer list"
  ht_hash :: "('k \<Rightarrow> u32) option"
  ht_key :: "'k wObject"
  ht_value :: "'v wObject"
  foreachRecursionLevel :: u32
  pendingRemoves :: u32
  pairs :: "nat \<Rightarrow> ('k, 'v) wKeyValuePair option"
  next_pair :: nat
  freed_keys :: "'k pointer list"
  freed_values :: "'v pointer list"

type_synonym ('k, 'v, 'a) htprog = "(('k, 'v) wHashTable, 'a) prog"

section \<open>Hash functions and comparisons\<close>

text \<open>
  A pointer is a 64-bit word. A string is an address with the bytes before the terminator; \<open>place\<close>
  is the address \<^verbatim>\<open>_strdup\<close> finds for a copy, if there is memory.
\<close>

type_synonym cstring = "u64 \<times> byte list"

definition HashTable_PointerCompare :: "u64 \<Rightarrow> u64 \<Rightarrow> bool" where
  "HashTable_PointerCompare pointer1 pointer2 \<longleftrightarrow> pointer1 = pointer2"

definition HashTable_PointerHash :: "u64 \<Rightarrow> u32" where
  "HashTable_PointerHash pointer = drop_bit 4 (ucast pointer)"

fun HashTable_StringCompare :: "cstring pointer \<Rightarrow> cstring pointer \<Rightarrow> bool" where
  "HashTable_StringCompare (Some s1) (Some s2) \<longleftrightarrow> snd s1 = snd s2"
| "HashTable_StringCompare s1 s2 \<longleftrightarrow> s1 = None \<and> s2 = None"

fun djb2 :: "u32 \<Rightarrow> byte list \<Rightarrow> u32" where
  "djb2 h [] = h"
| "djb2 h (c # str) = djb2 (h * 33 + ucast c) str"

definition HashTable_StringHash :: "cstring \<Rightarrow> u32" where
  "HashTable_StringHash key = djb2 5381 (snd key)"

definition HashTable_StringClone :: "(byte list \<Rightarrow> u64 option) \<Rightarrow> cstring pointer \<Rightarrow> cstring pointer" where
  "HashTable_StringClone place str =
     (case str of None \<Rightarrow> None | Some (_, s) \<Rightarrow> map_option (\<lambda>a. (a, s)) (place s))"

section \<open>The number of buckets\<close>

text \<open>
  Single precision: \<open>float32\<close> rounds a nonnegative number to 24 significant bits, ties to even. The
  fuel of 128 steps covers every quotient of two \<^verbatim>\<open>size_t\<close> values.
\<close>

definition round_even :: "rat \<Rightarrow> int" where
  "round_even x =
     (let f = \<lfloor>x\<rfloor>; d = x - of_int f
      in if d < 1 / 2 then f else if d > 1 / 2 then f + 1 else if even f then f else f + 1)"

fun float32_steps :: "nat \<Rightarrow> rat \<Rightarrow> rat" where
  "float32_steps 0 x = x"
| "float32_steps (Suc n) x =
     (if x \<ge> 2 ^ 24 then 2 * float32_steps n (x / 2)
      else if x < 2 ^ 23 then float32_steps n (2 * x) / 2
      else of_int (round_even x))"

definition float32 :: "rat \<Rightarrow> rat" where
  "float32 x = float32_steps 128 x"

definition fdiv :: "nat \<Rightarrow> rat \<Rightarrow> rat" where
  "fdiv n r = float32 (float32 (of_nat n) / r)"

function prime_loop :: "nat \<Rightarrow> nat \<Rightarrow> bool" where
  "prime_loop oddNumber i =
     (if i < 51
      then if oddNumber = i then True
           else if oddNumber mod i = 0 then False
           else prime_loop oddNumber (i + 2)
      else True)"
  by pat_completeness auto
termination
  by (relation "measure (\<lambda>(_, i). 51 - i)") auto

declare prime_loop.simps [simp del]

definition HashTable_IsProbablePrime :: "nat \<Rightarrow> bool" where
  "HashTable_IsProbablePrime oddNumber = prime_loop oddNumber 3"

partial_function (option) prime_search :: "nat \<Rightarrow> nat option" where
  "prime_search n = (if HashTable_IsProbablePrime n then Some n else prime_search (add64 n 2))"

definition HashTable_CalculateIdealNumOfBuckets :: "('k, 'v, nat) htprog" where
  "HashTable_CalculateIdealNumOfBuckets t =
     (let tmp = fdiv (numOfElements t) (idealRatio t);
          ideal = nat \<lfloor>tmp\<rfloor>;
          start = (if ideal < 5 then 5 else ideal OR 1)
      in case prime_search start of None \<Rightarrow> Fault NonTermination | Some n \<Rightarrow> Done n t)"

section \<open>Walking the lists\<close>

text \<open>\<open>deref_pair\<close> and \<open>assign_pair\<close> go through the address of a pair; a dangling one is a fault.\<close>

definition deref_pair :: "nat pointer \<Rightarrow> ('k, 'v, ('k, 'v) wKeyValuePair) htprog" where
  "deref_pair p t =
     (case p of None \<Rightarrow> Fault NullDereference
      | Some a \<Rightarrow> (case pairs t a of None \<Rightarrow> Fault NullDereference | Some pr \<Rightarrow> Done pr t))"

definition assign_pair ::
    "nat pointer \<Rightarrow> (('k, 'v) wKeyValuePair \<Rightarrow> ('k, 'v) wKeyValuePair) \<Rightarrow> ('k, 'v, unit) htprog" where
  "assign_pair p f =
     bind (deref_pair p) (\<lambda>pr. modify (\<lambda>t. t\<lparr>pairs := (pairs t)(the p \<mapsto> f pr)\<rparr>))"

definition get_bucket :: "nat \<Rightarrow> ('k, 'v, nat pointer) htprog" where
  "get_bucket i t = (if i < length (bucketArray t) then Done (bucketArray t ! i) t else Fault OutOfBounds)"

definition set_bucket :: "nat \<Rightarrow> nat pointer \<Rightarrow> ('k, 'v, unit) htprog" where
  "set_bucket i p t =
     (if i < length (bucketArray t) then Done () (t\<lparr>bucketArray := (bucketArray t)[i := p]\<rparr>)
      else Fault OutOfBounds)"

text \<open>
  The loops over one list read the next address before the body runs; \<open>None\<close> is a loop that never
  ends. \<open>for_buckets\<close> is the loop over the indices from \<open>i\<close> on.
\<close>

partial_function (option) chain_loop ::
    "(nat \<Rightarrow> ('k, 'v) wKeyValuePair \<Rightarrow> ('k, 'v, unit) htprog) \<Rightarrow> nat pointer \<Rightarrow> ('k, 'v) wHashTable \<Rightarrow>
     (('k, 'v) wHashTable, unit) outcome option" where
  "chain_loop body p t =
     (case p of
        None \<Rightarrow> Some (Done () t)
      | Some a \<Rightarrow>
          (case pairs t a of
             None \<Rightarrow> Some (Fault NullDereference)
           | Some pr \<Rightarrow>
               (case body a pr t of
                  Fault e \<Rightarrow> Some (Fault e)
                | Failed t' \<Rightarrow> Some (Failed t')
                | Done _ t' \<Rightarrow> chain_loop body (pair_next pr) t')))"

definition for_chain ::
    "(nat \<Rightarrow> ('k, 'v) wKeyValuePair \<Rightarrow> ('k, 'v, unit) htprog) \<Rightarrow> nat pointer \<Rightarrow> ('k, 'v, unit) htprog" where
  "for_chain body p t = (case chain_loop body p t of None \<Rightarrow> Fault NonTermination | Some r \<Rightarrow> r)"

fun for_buckets :: "(nat \<Rightarrow> ('k, 'v, unit) htprog) \<Rightarrow> nat list \<Rightarrow> ('k, 'v, unit) htprog" where
  "for_buckets body [] = ret ()"
| "for_buckets body (i # is) = seq (body i) (for_buckets body is)"

section \<open>Operations\<close>

text \<open>The hash function is applied to a key that is not \<^verbatim>\<open>NULL\<close>, or to the key of a pair.\<close>

definition bucket_index :: "'k pointer \<Rightarrow> nat \<Rightarrow> ('k, 'v, nat) htprog" where
  "bucket_index key n t =
     (case (ht_hash t, key) of
        (Some f, Some k) \<Rightarrow> if n = 0 then Fault DivisionByZero else Done (unat (f k) mod n) t
      | _ \<Rightarrow> Fault NullDereference)"

text \<open>
  Rehashing threads every pair into a new array. \<open>mok\<close> says which allocations succeed, by size in
  bytes; without memory nothing happens.
\<close>

definition rehash_pair :: "nat \<Rightarrow> nat \<Rightarrow> ('k, 'v) wKeyValuePair \<Rightarrow> ('k, 'v, unit) htprog" where
  "rehash_pair n a pr =
     bind (bucket_index (pair_key pr) n) (\<lambda>hashValue.
     bind (get_bucket hashValue) (\<lambda>head.
     seq (assign_pair (Some a) (\<lambda>pr. pr\<lparr>pair_next := head\<rparr>))
         (set_bucket hashValue (Some a))))"

definition HashTable_Rehash :: "(nat \<Rightarrow> bool) \<Rightarrow> nat \<Rightarrow> ('k, 'v, unit) htprog" where
  "HashTable_Rehash mok n0 =
     bind (if n0 = 0 then HashTable_CalculateIdealNumOfBuckets else ret n0) (\<lambda>n.
     bind (gets numOfBuckets) (\<lambda>old.
     if n = old then ret ()
     else if \<not> mok (n * 8) then ret ()
     else
       bind (gets bucketArray) (\<lambda>heads.
       seq (modify (\<lambda>t. t\<lparr>bucketArray := replicate n None\<rparr>))
      (seq (for_buckets (\<lambda>i. if i < length heads then for_chain (rehash_pair n) (heads ! i)
                             else fault OutOfBounds) [0..<old])
           (modify (\<lambda>t. t\<lparr>numOfBuckets := n\<rparr>))))))"

text \<open>The search in a bucket yields the pair before the one found as well.\<close>

partial_function (option) find_loop ::
    "('k, 'v) wHashTable \<Rightarrow> 'k pointer \<Rightarrow> nat pointer \<Rightarrow> nat pointer \<Rightarrow>
     (fault + nat pointer \<times> nat pointer) option" where
  "find_loop t key previousPair p =
     (case p of
        None \<Rightarrow> Some (Inr (previousPair, None))
      | Some a \<Rightarrow>
          (case (pairs t a, fnObjectEquals (ht_key t)) of
             (Some pr, Some eq) \<Rightarrow>
               if eq key (pair_key pr) then Some (Inr (previousPair, Some a))
               else find_loop t key (Some a) (pair_next pr)
           | _ \<Rightarrow> Some (Inl NullDereference)))"

definition find_pair :: "'k pointer \<Rightarrow> nat pointer \<Rightarrow> ('k, 'v, nat pointer \<times> nat pointer) htprog" where
  "find_pair key p t =
     (case find_loop t key None p of
        None \<Rightarrow> Fault NonTermination
      | Some (Inl e) \<Rightarrow> Fault e
      | Some (Inr r) \<Rightarrow> Done r t)"

definition HashTable_Get :: "'k pointer \<Rightarrow> ('k, 'v, nat pointer) htprog" where
  "HashTable_Get key =
     (if key = None then ret None
      else
        bind (gets numOfBuckets) (\<lambda>n.
        bind (bucket_index key n) (\<lambda>hashValue.
        bind (get_bucket hashValue) (\<lambda>p.
        bind (find_pair key p) (\<lambda>(_, q). ret q)))))"

definition disposeKey :: "'k pointer \<Rightarrow> ('k, 'v, unit) htprog" where
  "disposeKey key =
     modify (\<lambda>t. if fnObjectFree (ht_key t) then t\<lparr>freed_keys := freed_keys t @ [key]\<rparr> else t)"

definition disposeValue :: "'v pointer \<Rightarrow> ('k, 'v, unit) htprog" where
  "disposeValue val =
     modify (\<lambda>t. if fnObjectFree (ht_value t) then t\<lparr>freed_values := freed_values t @ [val]\<rparr> else t)"

definition disposePair :: "nat pointer \<Rightarrow> ('k, 'v, unit) htprog" where
  "disposePair p =
     (case p of
        None \<Rightarrow> ret ()
      | Some a \<Rightarrow>
          bind (deref_pair p) (\<lambda>pr.
          seq (disposeKey (pair_key pr))
         (seq (disposeValue (pair_value pr))
              (modify (\<lambda>t. t\<lparr>pairs := (pairs t)(a := None)\<rparr>)))))"

definition new_object :: "'p wObject \<Rightarrow> 'p pointer \<Rightarrow> 'p pointer" where
  "new_object ob x = (case fnObjectNew ob of Some f \<Rightarrow> f x | None \<Rightarrow> x)"

definition setKey :: "nat pointer \<Rightarrow> 'k pointer \<Rightarrow> ('k, 'v, unit) htprog" where
  "setKey p key =
     bind (deref_pair p) (\<lambda>pr.
     seq (disposeKey (pair_key pr))
    (bind (gets ht_key) (\<lambda>ob.
     assign_pair p (\<lambda>pr. pr\<lparr>pair_key := new_object ob key\<rparr>))))"

definition setValue :: "nat pointer \<Rightarrow> 'v pointer \<Rightarrow> ('k, 'v, unit) htprog" where
  "setValue p val =
     bind (deref_pair p) (\<lambda>pr.
     seq (disposeValue (pair_value pr))
    (bind (gets ht_value) (\<lambda>ob.
     assign_pair p (\<lambda>pr. pr\<lparr>pair_value := new_object ob val\<rparr>))))"

definition HashTable_Count :: "('k, 'v, nat) htprog" where
  "HashTable_Count = gets numOfElements"

text \<open>A fresh pair is zeroed, 32 bytes on a 64-bit target.\<close>

definition calloc_pair :: "('k, 'v, nat pointer) htprog" where
  "calloc_pair t =
     (let a = next_pair t
      in Done (Some a) (t\<lparr>next_pair := a + 1,
           pairs := (pairs t)(a \<mapsto> \<lparr>pair_key = None, pair_value = None, pair_next = None,
                                    markedForRemove = False\<rparr>)\<rparr>))"

definition update_pair :: "nat pointer \<Rightarrow> 'k pointer \<Rightarrow> 'v pointer \<Rightarrow> ('k, 'v, unit) htprog" where
  "update_pair p key val =
     bind (deref_pair p) (\<lambda>pr.
     seq (if markedForRemove pr
          then seq (modify (\<lambda>t. t\<lparr>pendingRemoves := pendingRemoves t - 1\<rparr>))
              (seq (assign_pair p (\<lambda>pr. pr\<lparr>markedForRemove := False\<rparr>))
                   (modify (\<lambda>t. t\<lparr>numOfElements := add64 (numOfElements t) 1\<rparr>)))
          else ret ())
    (seq (if pair_key pr \<noteq> key then setKey p key else ret ())
         (if pair_value pr \<noteq> val then setValue p val else ret ())))"

definition add_pair :: "(nat \<Rightarrow> bool) \<Rightarrow> nat \<Rightarrow> 'k pointer \<Rightarrow> 'v pointer \<Rightarrow> ('k, 'v, unit) htprog" where
  "add_pair mok hashValue key val =
     bind calloc_pair (\<lambda>p.
     seq (setKey p key)
    (seq (setValue p val)
    (bind (get_bucket hashValue) (\<lambda>head.
     seq (assign_pair p (\<lambda>pr. pr\<lparr>pair_next := head, markedForRemove := False\<rparr>))
    (seq (set_bucket hashValue p)
    (seq (modify (\<lambda>t. t\<lparr>numOfElements := add64 (numOfElements t) 1\<rparr>))
    (bind (gets (\<lambda>t. foreachRecursionLevel t = 0 \<and> upperRehashThreshold t > idealRatio t \<and>
         fdiv (numOfElements t) (float32 (of_nat (numOfBuckets t))) > upperRehashThreshold t)) (\<lambda>full.
     if full then HashTable_Rehash mok 0 else ret ()))))))))"

definition HashTable_Insert :: "(nat \<Rightarrow> bool) \<Rightarrow> 'k pointer \<Rightarrow> 'v pointer \<Rightarrow> ('k, 'v, unit) htprog" where
  "HashTable_Insert mok key val =
     (if key = None \<or> val = None then fail
      else
        bind (gets numOfBuckets) (\<lambda>n.
        bind (bucket_index key n) (\<lambda>hashValue.
        bind (get_bucket hashValue) (\<lambda>head.
        bind (find_pair key head) (\<lambda>(_, p).
        if p \<noteq> None then update_pair p key val
        else if \<not> mok 32 then fail
        else add_pair mok hashValue key val)))))"

definition HashTable_Remove :: "(nat \<Rightarrow> bool) \<Rightarrow> 'k pointer \<Rightarrow> ('k, 'v, unit) htprog" where
  "HashTable_Remove mok key =
     (if key = None then fail
      else
        bind (gets numOfBuckets) (\<lambda>n.
        bind (bucket_index key n) (\<lambda>hashValue.
        bind (get_bucket hashValue) (\<lambda>head.
        bind (find_pair key head) (\<lambda>(previousPair, p).
        if p = None then fail
        else
          bind (gets foreachRecursionLevel) (\<lambda>level.
          if level \<noteq> 0
          then seq (assign_pair p (\<lambda>pr. pr\<lparr>markedForRemove := True\<rparr>))
                   (modify (\<lambda>t. t\<lparr>pendingRemoves := pendingRemoves t + 1,
                                  numOfElements := sub64 (numOfElements t) 1\<rparr>))
          else
            bind (deref_pair p) (\<lambda>pr.
            seq (if previousPair \<noteq> None
                 then assign_pair previousPair (\<lambda>q. q\<lparr>pair_next := pair_next pr\<rparr>)
                 else set_bucket hashValue (pair_next pr))
           (seq (disposePair p)
           (seq (modify (\<lambda>t. t\<lparr>numOfElements := sub64 (numOfElements t) 1\<rparr>))
           (bind (gets (\<lambda>t. lowerRehashThreshold t > 0 \<and>
                fdiv (numOfElements t) (float32 (of_nat (numOfBuckets t))) < lowerRehashThreshold t)) (\<lambda>sparse.
            if sparse then HashTable_Rehash mok 0 else ret ())))))))))))"

definition HashTable_GetItemValue :: "'k pointer \<Rightarrow> ('k, 'v, 'v pointer) htprog" where
  "HashTable_GetItemValue key =
     bind (HashTable_Get key) (\<lambda>p.
     if p = None then ret None
     else bind (deref_pair p) (\<lambda>pr. ret (if markedForRemove pr then None else pair_value pr)))"

definition HashTable_SetItemValue :: "'k pointer \<Rightarrow> 'v pointer \<Rightarrow> ('k, 'v, unit) htprog" where
  "HashTable_SetItemValue key val =
     bind (HashTable_Get key) (\<lambda>p.
     if p = None then fail
     else bind (deref_pair p) (\<lambda>pr. if markedForRemove pr then fail else setValue p val))"

definition HashTable_Contains :: "'k pointer \<Rightarrow> ('k, 'v, bool) htprog" where
  "HashTable_Contains key =
     bind (HashTable_Get key) (\<lambda>p.
     if p = None then ret False
     else bind (deref_pair p) (\<lambda>pr. ret (\<not> markedForRemove pr)))"

definition HashTable_ContainsKey :: "'k pointer \<Rightarrow> ('k, 'v, bool) htprog" where
  "HashTable_ContainsKey key =
     bind (HashTable_Get key) (\<lambda>p.
     if p = None then ret False
     else bind (deref_pair p) (\<lambda>pr. ret (\<not> markedForRemove pr)))"

definition HashTable_Add :: "(nat \<Rightarrow> bool) \<Rightarrow> 'k pointer \<Rightarrow> 'v pointer \<Rightarrow> ('k, 'v, int) htprog" where
  "HashTable_Add mok key val t =
     (case HashTable_Insert mok key val t of
        Fault e \<Rightarrow> Fault e
      | Failed t' \<Rightarrow> Done (-1) t'
      | Done _ t' \<Rightarrow> Done 0 t')"

text \<open>
  \<^verbatim>\<open>HashTable_Clear\<close> moves on to the next pair only outside of \<^verbatim>\<open>HashTable_Foreach\<close>.
\<close>

partial_function (option) clear_pairs ::
    "nat pointer \<Rightarrow> ('k, 'v) wHashTable \<Rightarrow> (('k, 'v) wHashTable, unit) outcome option" where
  "clear_pairs p t =
     (case p of
        None \<Rightarrow> Some (Done () t)
      | Some a \<Rightarrow>
          (case pairs t a of
             None \<Rightarrow> Some (Fault NullDereference)
           | Some pr \<Rightarrow>
               if foreachRecursionLevel t \<noteq> 0
               then clear_pairs p (t\<lparr>pairs := (pairs t)(a \<mapsto> pr\<lparr>markedForRemove := True\<rparr>),
                                    pendingRemoves := pendingRemoves t + 1\<rparr>)
               else (case disposePair p t of
                       Fault e \<Rightarrow> Some (Fault e)
                     | Failed t' \<Rightarrow> Some (Failed t')
                     | Done _ t' \<Rightarrow> clear_pairs (pair_next pr) t')))"

definition clear_bucket :: "nat \<Rightarrow> ('k, 'v, unit) htprog" where
  "clear_bucket i =
     bind (get_bucket i) (\<lambda>p.
     seq (\<lambda>t. case clear_pairs p t of None \<Rightarrow> Fault NonTermination | Some r \<Rightarrow> r)
         (set_bucket i None))"

definition HashTable_Clear :: "(nat \<Rightarrow> bool) \<Rightarrow> ('k, 'v, unit) htprog" where
  "HashTable_Clear mok =
     bind (gets numOfBuckets) (\<lambda>n.
     seq (for_buckets clear_bucket [0..<n])
    (seq (modify (\<lambda>t. t\<lparr>numOfElements := 0\<rparr>))
    (bind (gets foreachRecursionLevel) (\<lambda>level.
     if level = 0 then HashTable_Rehash mok 5 else ret ()))))"

text \<open>
  The keys are collected in an array of \<^verbatim>\<open>numOfElements\<close> entries, which starts out zeroed; a write
  behind its end is a fault. The collecting loops thread the array and the next index.
\<close>

partial_function (option) keys_loop ::
    "('k, 'v) wHashTable \<Rightarrow> nat pointer \<Rightarrow> 'k pointer list \<times> nat \<Rightarrow> (fault + 'k pointer list \<times> nat) option" where
  "keys_loop t p st =
     (case p of
        None \<Rightarrow> Some (Inr st)
      | Some a \<Rightarrow>
          (case pairs t a of
             None \<Rightarrow> Some (Inl NullDereference)
           | Some pr \<Rightarrow>
               (case st of (pKeys, iKey) \<Rightarrow>
                  if markedForRemove pr then keys_loop t (pair_next pr) (pKeys, iKey)
                  else if length pKeys \<le> iKey then Some (Inl OutOfBounds)
                  else keys_loop t (pair_next pr) (pKeys[iKey := pair_key pr], iKey + 1))))"

fun keys_buckets ::
    "('k, 'v) wHashTable \<Rightarrow> nat list \<Rightarrow> 'k pointer list \<times> nat \<Rightarrow> (fault + 'k pointer list \<times> nat) option" where
  "keys_buckets t [] st = Some (Inr st)"
| "keys_buckets t (i # is) st =
     (if length (bucketArray t) \<le> i then Some (Inl OutOfBounds)
      else (case keys_loop t (bucketArray t ! i) st of
              Some (Inr st') \<Rightarrow> keys_buckets t is st'
            | r \<Rightarrow> r))"

definition HashTable_GetKeys :: "(nat \<Rightarrow> bool) \<Rightarrow> ('k, 'v, 'k pointer list) htprog" where
  "HashTable_GetKeys mok t =
     (let count = numOfElements t
      in if count < 1 then Done [] t
         else if \<not> mok (count * 8) then Done [] t
         else (case keys_buckets t [0..<numOfBuckets t] (replicate count None, 0) of
                 None \<Rightarrow> Fault NonTermination
               | Some (Inl e) \<Rightarrow> Fault e
               | Some (Inr (pKeys, _)) \<Rightarrow> Done pKeys t))"

text \<open>The test for a value compares it with the keys.\<close>

partial_function (option) value_loop ::
    "('k, 'v) wHashTable \<Rightarrow> 'k pointer \<Rightarrow> nat pointer \<Rightarrow> (fault + bool) option" where
  "value_loop t val p =
     (case p of
        None \<Rightarrow> Some (Inr False)
      | Some a \<Rightarrow>
          (case (pairs t a, fnObjectEquals (ht_key t)) of
             (Some pr, Some eq) \<Rightarrow>
               if \<not> markedForRemove pr \<and> eq val (pair_key pr) then Some (Inr True)
               else value_loop t val (pair_next pr)
           | _ \<Rightarrow> Some (Inl NullDereference)))"

fun value_buckets :: "('k, 'v) wHashTable \<Rightarrow> 'k pointer \<Rightarrow> nat list \<Rightarrow> (fault + bool) option" where
  "value_buckets t val [] = Some (Inr False)"
| "value_buckets t val (i # is) =
     (if length (bucketArray t) \<le> i then Some (Inl OutOfBounds)
      else (case value_loop t val (bucketArray t ! i) of
              Some (Inr False) \<Rightarrow> value_buckets t val is
            | r \<Rightarrow> r))"

definition HashTable_ContainsValue :: "'k pointer \<Rightarrow> ('k, 'v, bool) htprog" where
  "HashTable_ContainsValue val t =
     (if val = None then Done False t
      else (case value_buckets t val [0..<numOfBuckets t] of
              None \<Rightarrow> Fault NonTermination
            | Some (Inl e) \<Rightarrow> Fault e
            | Some (Inr b) \<Rightarrow> Done b t))"

section \<open>Iteration\<close>

text \<open>
  The callback may use the table: it is a program on the table and the state \<open>'c\<close> behind its
  argument. The next pair is read after it has run, and so are the number of buckets and the
  bucket array at every index.
\<close>

type_synonym ('k, 'v, 'c) foreach_fn = "'k pointer \<Rightarrow> 'v pointer \<Rightarrow> (('k, 'v) wHashTable \<times> 'c, bool) prog"

partial_function (option) foreach_pairs ::
    "('k, 'v, 'c) foreach_fn \<Rightarrow> nat pointer \<Rightarrow> ('k, 'v) wHashTable \<times> 'c \<Rightarrow>
     (('k, 'v) wHashTable \<times> 'c, bool) outcome option" where
  "foreach_pairs fn p st =
     (case p of
        None \<Rightarrow> Some (Done True st)
      | Some a \<Rightarrow>
          (case pairs (fst st) a of
             None \<Rightarrow> Some (Fault NullDereference)
           | Some pr \<Rightarrow>
               if markedForRemove pr then foreach_pairs fn (pair_next pr) st
               else (case fn (pair_key pr) (pair_value pr) st of
                       Fault e \<Rightarrow> Some (Fault e)
                     | Failed st' \<Rightarrow> Some (Failed st')
                     | Done r st' \<Rightarrow>
                         if \<not> r then Some (Done False st')
                         else (case pairs (fst st') a of
                                 None \<Rightarrow> Some (Fault NullDereference)
                               | Some pr' \<Rightarrow> foreach_pairs fn (pair_next pr') st'))))"

partial_function (option) foreach_buckets ::
    "('k, 'v, 'c) foreach_fn \<Rightarrow> nat \<Rightarrow> ('k, 'v) wHashTable \<times> 'c \<Rightarrow>
     (('k, 'v) wHashTable \<times> 'c, bool) outcome option" where
  "foreach_buckets fn index st =
     (if numOfBuckets (fst st) \<le> index then Some (Done True st)
      else if length (bucketArray (fst st)) \<le> index then Some (Fault OutOfBounds)
      else (case foreach_pairs fn (bucketArray (fst st) ! index) st of
              None \<Rightarrow> None
            | Some (Fault e) \<Rightarrow> Some (Fault e)
            | Some (Failed st') \<Rightarrow> Some (Failed st')
            | Some (Done r st') \<Rightarrow>
                if r then foreach_buckets fn (index + 1) st' else Some (Done False st')))"

text \<open>
  The sweep after the outermost iteration: \<open>prev\<close> is the pair whose \<^verbatim>\<open>next\<close> field \<^verbatim>\<open>prevPtr\<close> points
  to, or \<open>None\<close> for the slot of the bucket.
\<close>

definition relink :: "nat \<Rightarrow> nat pointer \<Rightarrow> nat pointer \<Rightarrow> ('k, 'v, unit) htprog" where
  "relink i prev p =
     (if prev = None then set_bucket i p else assign_pair prev (\<lambda>q. q\<lparr>pair_next := p\<rparr>))"

partial_function (option) sweep_loop ::
    "nat \<Rightarrow> nat pointer \<Rightarrow> nat pointer \<Rightarrow> ('k, 'v) wHashTable \<Rightarrow>
     (('k, 'v) wHashTable, unit) outcome option" where
  "sweep_loop i prev p t =
     (case p of
        None \<Rightarrow> Some (Done () t)
      | Some a \<Rightarrow>
          (case pairs t a of
             None \<Rightarrow> Some (Fault NullDereference)
           | Some pr \<Rightarrow>
               if \<not> markedForRemove pr then sweep_loop i p (pair_next pr) t
               else (case seq (disposePair p) (relink i prev (pair_next pr)) t of
                       Fault e \<Rightarrow> Some (Fault e)
                     | Failed t' \<Rightarrow> Some (Failed t')
                     | Done _ t' \<Rightarrow> sweep_loop i prev (pair_next pr) t')))"

definition sweep_bucket :: "nat \<Rightarrow> ('k, 'v, unit) htprog" where
  "sweep_bucket i =
     bind (get_bucket i) (\<lambda>p t.
     case sweep_loop i None p t of None \<Rightarrow> Fault NonTermination | Some r \<Rightarrow> r)"

definition foreach_cleanup :: "('k, 'v, unit) htprog" where
  "foreach_cleanup =
     seq (modify (\<lambda>t. t\<lparr>foreachRecursionLevel := foreachRecursionLevel t - 1\<rparr>))
    (bind (gets (\<lambda>t. foreachRecursionLevel t = 0 \<and> pendingRemoves t \<noteq> 0)) (\<lambda>last.
     if last
     then bind (gets numOfBuckets) (\<lambda>n.
          seq (for_buckets sweep_bucket [0..<n])
              (modify (\<lambda>t. t\<lparr>pendingRemoves := 0\<rparr>)))
     else ret ()))"

definition HashTable_Foreach :: "('k, 'v, 'c) foreach_fn \<Rightarrow> (('k, 'v) wHashTable \<times> 'c, bool) prog" where
  "HashTable_Foreach fn st0 =
     (let st = ((fst st0)\<lparr>foreachRecursionLevel := foreachRecursionLevel (fst st0) + 1\<rparr>, snd st0)
      in case foreach_buckets fn 0 st of
           None \<Rightarrow> Fault NonTermination
         | Some (Fault e) \<Rightarrow> Fault e
         | Some (Failed st') \<Rightarrow> Failed st'
         | Some (Done r st') \<Rightarrow>
             if \<not> r then Done False st'
             else (case foreach_cleanup (fst st') of
                     Fault e \<Rightarrow> Fault e
                   | Failed t \<Rightarrow> Failed (t, snd st')
                   | Done _ t \<Rightarrow> Done True (t, snd st')))"

section \<open>Construction and destruction\<close>

text \<open>
  A new table compares and hashes the addresses of keys and values, which \<open>addr_k\<close> and \<open>addr_v\<close>
  read; \<open>mok\<close> decides the two allocations, the structure and the bucket array.
\<close>

definition pointer_object :: "('p \<Rightarrow> u64) \<Rightarrow> 'p wObject" where
  "pointer_object addr =
     \<lparr>fnObjectNew = None, fnObjectFree = False,
      fnObjectEquals = Some (\<lambda>p q. case (p, q) of
        (Some x, Some y) \<Rightarrow> HashTable_PointerCompare (addr x) (addr y) | _ \<Rightarrow> p = None \<and> q = None)\<rparr>"

definition HashTable_New ::
    "(nat \<Rightarrow> bool) \<Rightarrow> ('k \<Rightarrow> u64) \<Rightarrow> ('v \<Rightarrow> u64) \<Rightarrow> ('k, 'v) wHashTable option" where
  "HashTable_New mok addr_k addr_v =
     (if \<not> mok 192 \<or> \<not> mok (64 * 8) then None
      else Some \<lparr>numOfBuckets = 64, numOfElements = 0, idealRatio = 3, lowerRehashThreshold = 0,
        upperRehashThreshold = 15, bucketArray = replicate 64 None,
        ht_hash = Some (\<lambda>k. HashTable_PointerHash (addr_k k)),
        ht_key = pointer_object addr_k, ht_value = pointer_object addr_v,
        foreachRecursionLevel = 0, pendingRemoves = 0, pairs = (\<lambda>_. None), next_pair = 0,
        freed_keys = [], freed_values = []\<rparr>)"

definition HashTable_Free :: "('k, 'v, unit) htprog" where
  "HashTable_Free =
     bind (gets numOfBuckets) (\<lambda>n.
     for_buckets (\<lambda>i. bind (get_bucket i) (for_chain (\<lambda>a _. disposePair (Some a)))) [0..<n])"

definition HashTable_SetHashFunction :: "('k \<Rightarrow> u32) option \<Rightarrow> ('k, 'v, unit) htprog" where
  "HashTable_SetHashFunction fn =
     seq (modify (\<lambda>t. t\<lparr>ht_hash := fn\<rparr>)) (require (fn \<noteq> None))"

definition string_object :: "(byte list \<Rightarrow> u64 option) \<Rightarrow> cstring wObject" where
  "string_object place =
     \<lparr>fnObjectNew = Some (HashTable_StringClone place), fnObjectFree = True,
      fnObjectEquals = Some HashTable_StringCompare\<rparr>"

definition HashTable_SetupForStringData ::
    "(byte list \<Rightarrow> u64 option) \<Rightarrow> bool \<Rightarrow> (cstring, cstring, unit) htprog" where
  "HashTable_SetupForStringData place stringValues =
     seq (HashTable_SetHashFunction (Some HashTable_StringHash))
    (seq (modify (\<lambda>t. t\<lparr>ht_key := string_object place\<rparr>))
         (if stringValues then modify (\<lambda>t. t\<lparr>ht_value := string_object place\<rparr>) else ret ()))"

end
