(* ===== verification/HashTableLists.thy ===== *)
theory HashTableLists
  imports HashTable
begin

text \<open>
  The lists of a hash table: chains of pairs in the store, the rules for loops over them, the search
  for a new number of buckets, the invariant of a table and the map it represents, how changing one
  pair changes both, and that rehashing moves every pair to its new bucket.
\<close>

section \<open>Lists in the store\<close>

type_synonym ('k, 'v) store = "nat \<Rightarrow> ('k, 'v) wKeyValuePair option"

fun chain :: "('k, 'v) store \<Rightarrow> nat pointer \<Rightarrow> nat list \<Rightarrow> bool" where
  "chain h p [] \<longleftrightarrow> p = None"
| "chain h p (a # as) \<longleftrightarrow> p = Some a \<and> (\<exists>pr. h a = Some pr \<and> chain h (pair_next pr) as)"

lemma chain_None [simp]: "chain h None as \<longleftrightarrow> as = []"
  by (cases as) auto

lemma chain_Some: "chain h (Some a) as \<longleftrightarrow> (\<exists>pr bs. h a = Some pr \<and> as = a # bs \<and> chain h (pair_next pr) bs)"
  by (cases as) auto

lemma chain_cong: "(\<And>a. a \<in> set as \<Longrightarrow> map_option pair_next (h a) = map_option pair_next (h' a)) \<Longrightarrow>
    chain h p as \<longleftrightarrow> chain h' p as"
proof (induction as arbitrary: p)
  case (Cons a as)
  have "map_option pair_next (h a) = map_option pair_next (h' a)" using Cons.prems by simp
  then have "(\<exists>pr. h a = Some pr \<and> chain h (pair_next pr) as) \<longleftrightarrow> (\<exists>pr. h' a = Some pr \<and> chain h (pair_next pr) as)"
    by (cases "h a"; cases "h' a") auto
  with Cons show ?case by simp
qed simp

lemma chain_upd [simp]: "a \<notin> set as \<Longrightarrow> chain (h(a := x)) p as \<longleftrightarrow> chain h p as"
  by (rule chain_cong) auto

lemma chain_same_next:
  "h a = Some pr \<Longrightarrow> pair_next pr' = pair_next pr \<Longrightarrow> chain (h(a \<mapsto> pr')) p as \<longleftrightarrow> chain h p as"
  by (rule chain_cong) auto

lemma chain_dom: "chain h p as \<Longrightarrow> set as \<subseteq> dom h"
  by (induction as arbitrary: p) auto

lemma chain_unlink:
  assumes "chain h p (xs @ a # ys)" and "distinct (xs @ a # ys)" and "h a = Some pr" and "xs \<noteq> []"
    and "h (last xs) = Some q"
  shows "chain (h(last xs \<mapsto> q\<lparr>pair_next := pair_next pr\<rparr>)) p (xs @ ys)"
  using assms
proof (induction xs arbitrary: p)
  case (Cons x xs)
  from Cons.prems(1) obtain prx where x: "p = Some x" "h x = Some prx" "chain h (pair_next prx) (xs @ a # ys)" by auto
  show ?case
  proof (cases "xs = []")
    case True
    then show ?thesis using Cons.prems x by (auto simp: fun_upd_same simp del: fun_upd_apply)
  next
    case False
    then have "x \<noteq> last xs" using Cons.prems(2) by auto
    then show ?thesis using Cons.IH [OF x(3)] Cons.prems(2-5) x False by auto
  qed
qed simp

lemma chain_next: "chain h p (xs @ a # ys) \<Longrightarrow> h a = Some pr \<Longrightarrow> chain h (pair_next pr) ys"
  by (induction xs arbitrary: p) auto

section \<open>The loops\<close>

text \<open>
  The rule for a loop over one list: \<open>P rest t\<close> holds before each round with \<open>rest\<close> the pairs still
  to come.
\<close>

lemma chain_loop_run:
  assumes "P as t" and "chain (pairs t) p as"
    and step: "\<And>a rest t pr. P (a # rest) t \<Longrightarrow> pairs t a = Some pr \<Longrightarrow> chain (pairs t) (pair_next pr) rest \<Longrightarrow>
      \<exists>t'. body a pr t = Done () t' \<and> P rest t' \<and> chain (pairs t') (pair_next pr) rest"
  shows "\<exists>t'. for_chain body p t = Done () t' \<and> P [] t'"
proof -
  have "\<exists>t'. chain_loop body p t = Some (Done () t') \<and> P [] t'"
    using assms(1,2)
  proof (induction as arbitrary: p t)
    case Nil
    then show ?case by (subst chain_loop.simps) simp
  next
    case (Cons a rest)
    from Cons.prems(2) obtain pr where pr: "p = Some a" "pairs t a = Some pr" "chain (pairs t) (pair_next pr) rest"
      by auto
    from step [OF Cons.prems(1) pr(2,3)] obtain t' where t': "body a pr t = Done () t'" "P rest t'"
        "chain (pairs t') (pair_next pr) rest"
      by blast
    from Cons.IH [OF t'(2,3)] show ?case using pr t'(1) by (subst chain_loop.simps) simp
  qed
  then show ?thesis by (auto simp: for_chain_def)
qed

lemma for_buckets_run:
  assumes "P is t" and "\<And>i is t. P (i # is) t \<Longrightarrow> \<exists>t'. body i t = Done () t' \<and> P is t'"
  shows "\<exists>t'. for_buckets body is t = Done () t' \<and> P [] t'"
  using assms(1)
proof (induction "is" arbitrary: t)
  case (Cons i "is")
  from assms(2) [OF Cons.prems] obtain t' where "body i t = Done () t'" "P is t'" by blast
  with Cons.IH [of t'] show ?case by simp
qed simp

definition key_at :: "('k, 'v) wHashTable \<Rightarrow> nat \<Rightarrow> 'k pointer" where
  "key_at t a = (case pairs t a of None \<Rightarrow> None | Some pr \<Rightarrow> pair_key pr)"

lemma find_loop_run:
  assumes "fnObjectEquals (ht_key t) = Some eq" and "chain (pairs t) p as"
  shows "(\<exists>xs a ys. as = xs @ a # ys \<and> (\<forall>b \<in> set xs. \<not> eq key (key_at t b)) \<and> eq key (key_at t a) \<and>
      find_loop t key prev p = Some (Inr (if xs = [] then prev else Some (last xs), Some a))) \<or>
    (\<forall>b \<in> set as. \<not> eq key (key_at t b)) \<and> (\<exists>q. find_loop t key prev p = Some (Inr (q, None)))"
  using assms(2)
proof (induction as arbitrary: p prev)
  case Nil
  then show ?case by (subst find_loop.simps) simp
next
  case (Cons a as)
  from Cons.prems obtain pr where pr: "p = Some a" "pairs t a = Some pr" "chain (pairs t) (pair_next pr) as" by auto
  have key: "key_at t a = pair_key pr" using pr(2) by (simp add: key_at_def)
  show ?case
  proof (cases "eq key (pair_key pr)")
    case True
    then have "find_loop t key prev p = Some (Inr (prev, Some a))"
      using pr(1,2) assms(1) by (subst find_loop.simps) simp
    with True key show ?thesis by (intro disjI1 exI [of _ "[]"] exI [of _ a] exI [of _ as]) simp
  next
    case False
    then have step: "find_loop t key prev p = find_loop t key (Some a) (pair_next pr)"
      using pr(1,2) assms(1) by (subst find_loop.simps) simp
    from Cons.IH [OF pr(3), of "Some a"] show ?thesis
    proof (elim disjE exE conjE)
      fix xs c ys
      assume "as = xs @ c # ys" "\<forall>b \<in> set xs. \<not> eq key (key_at t b)" "eq key (key_at t c)"
        "find_loop t key (Some a) (pair_next pr) = Some (Inr (if xs = [] then Some a else Some (last xs), Some c))"
      then show ?thesis
        using False key step by (intro disjI1 exI [of _ "a # xs"] exI [of _ c] exI [of _ ys]) auto
    qed (use False key step in auto)
  qed
qed

section \<open>The search for the number of buckets ends\<close>

lemma round_even_le: "of_int (round_even x) \<le> x + 1 / 2"
proof -
  have "of_int \<lfloor>x\<rfloor> \<le> x" by (rule of_int_floor_le)
  then show ?thesis by (simp add: round_even_def Let_def) linarith
qed

lemma round_even_nonneg: "0 \<le> x \<Longrightarrow> 0 \<le> round_even x"
  by (simp add: round_even_def Let_def)

lemma float32_steps_le: "0 \<le> x \<Longrightarrow> 0 \<le> float32_steps n x \<and> float32_steps n x \<le> 2 * x"
proof (induction n arbitrary: x)
  case (Suc n)
  have "of_int (round_even x) \<le> 2 * x" if "2 ^ 23 \<le> x"
    using round_even_le [of x] that by simp
  then show ?case
    using Suc.IH [of "x / 2"] Suc.IH [of "2 * x"] Suc.prems round_even_nonneg [of x] by (auto simp: not_less)
qed simp

lemma fdiv_le: "0 \<le> fdiv n 3 \<and> fdiv n 3 \<le> 4 * of_nat n"
  using float32_steps_le [of "of_nat n" 128] float32_steps_le [of "float32_steps 128 (of_nat n) / 3" 128]
  by (auto simp: fdiv_def float32_def)

text \<open>
  The candidates that are tried and tested against: below any number there is one step of at most
  \<open>period\<close> candidates to a number that none of the odd numbers from 3 to 49 divides.
\<close>

definition small_primes :: "nat list" where
  "small_primes = [3, 5, 7, 11, 13, 17, 19, 23, 29, 31, 37, 41, 43, 47]"

definition period :: nat where
  "period = prod_list small_primes"

lemma period_value: "period = 307444891294245705"
  by (simp add: period_def small_primes_def)

lemma prime_loop_survives:
  assumes "\<forall>j. i \<le> j \<and> j < 51 \<and> odd j \<longrightarrow> \<not> j dvd n" and "odd i"
  shows "prime_loop n i"
  using assms
proof (induction n i rule: prime_loop.induct)
  case (1 n i)
  show ?case
  proof (cases "i < 51 \<and> n \<noteq> i")
    case True
    then have "n mod i \<noteq> 0" using 1(2,3) by (auto simp: dvd_eq_mod_eq_0)
    then show ?thesis using 1 True by (subst prime_loop.simps) simp
  next
    case False
    then show ?thesis by (subst prime_loop.simps) simp
  qed
qed

lemma odd_has_small_prime:
  assumes "3 \<le> j" and "j < 51" and "odd j"
  shows "\<exists>p \<in> set small_primes. p dvd j"
proof -
  have "\<forall>j \<in> set [3..<51]. odd j \<longrightarrow> (\<exists>p \<in> set small_primes. p dvd j)"
    by code_simp
  moreover have "j \<in> set [3..<51]" using assms(1,2) by (simp only: set_upt atLeastLessThan_iff)
  ultimately show ?thesis using assms(3) by blast
qed

lemma probable_prime_one:
  assumes "n mod period = 1"
  shows "HashTable_IsProbablePrime n"
proof -
  have "\<not> j dvd n" if "3 \<le> j" "j < 51" "odd j" for j
  proof
    assume "j dvd n"
    with odd_has_small_prime [OF that] obtain p where p: "p \<in> set small_primes" "p dvd n"
      by (meson dvd_trans)
    from p(1) have "p dvd period" unfolding period_def by (rule prod_list_dvd)
    with p(2) assms have "p dvd 1" by (metis dvd_mod)
    with p(1) show False by (auto simp: small_primes_def)
  qed
  then show ?thesis
    unfolding HashTable_IsProbablePrime_def by (intro prime_loop_survives) auto
qed

lemma reach_one: "\<exists>k < period. (n + 2 * k) mod period = 1"
proof -
  obtain h where h: "2 * h = period + 1" by (rule that [of 153722445647122853]) (simp add: period_value)
  have pos: "1 < period" by (simp add: period_value)
  define r where "r = period + 1 - n mod period"
  have "n mod period < period" using pos by simp
  then have r: "n mod period + r = period + 1" unfolding r_def by linarith
  define k where "k = h * r"
  have "2 * k = (2 * h) * r" by (simp add: k_def)
  then have "2 * k = period * r + r" by (simp add: h)
  then have "n + 2 * k = (n mod period + r) + period * (n div period + r)"
    using mod_mult_div_eq [of n period] by (simp add: distrib_left)
  then have "n + 2 * k = 1 + period * (n div period + r + 1)" using r by (simp add: distrib_left)
  moreover have "n + 2 * k = n + 2 * (k mod period) + period * (2 * (k div period))"
    using mod_mult_div_eq [of k period] by (metis add.assoc distrib_left mult.left_commute)
  ultimately have "(n + 2 * (k mod period)) mod period = (1 + period * (n div period + r + 1)) mod period"
    by (metis mod_mult_self2)
  also have "\<dots> = 1 mod period" by (rule mod_mult_self2)
  also have "\<dots> = 1" using pos by simp
  finally show ?thesis using pos by (intro exI [of _ "k mod period"]) simp
qed

lemma prime_search_run:
  assumes "HashTable_IsProbablePrime (n + 2 * k)" and "n + 2 * k < 2 ^ 64"
  shows "\<exists>m. prime_search n = Some m \<and> n \<le> m"
  using assms
proof (induction k arbitrary: n)
  case 0
  then show ?case by (subst prime_search.simps) simp
next
  case (Suc k)
  have "add64 n 2 = n + 2" using Suc.prems(2) by (simp add: add64_def)
  moreover have "\<exists>m. prime_search (n + 2) = Some m \<and> n + 2 \<le> m"
    using Suc.IH [of "n + 2"] Suc.prems by (simp add: add.assoc)
  ultimately show ?case by (subst prime_search.simps) auto
qed

lemma fdiv_three_small:
  assumes "n < 2 ^ 32"
  shows "nat \<lfloor>fdiv n 3\<rfloor> < 2 ^ 34"
proof -
  have "(of_nat n :: rat) < of_nat (2 ^ 32)" using assms by (simp only: of_nat_less_iff)
  then have "4 * (of_nat n :: rat) < 2 ^ 34" by simp
  with fdiv_le [of n] have "fdiv n 3 < of_int (2 ^ 34)" by simp
  then have "\<lfloor>fdiv n 3\<rfloor> < 2 ^ 34" by (simp only: floor_less_iff)
  then show ?thesis by (cases "0 \<le> \<lfloor>fdiv n 3\<rfloor>") (simp_all add: nat_less_iff)
qed

lemma ideal_buckets_run:
  assumes "idealRatio t = 3" and "numOfElements t < 2 ^ 32"
  shows "\<exists>n \<ge> 5. HashTable_CalculateIdealNumOfBuckets t = Done n t"
proof -
  define ideal where "ideal = nat \<lfloor>fdiv (numOfElements t) 3\<rfloor>"
  define start where "start = (if ideal < 5 then 5 else ideal OR 1)"
  have "ideal < 2 ^ 34" using fdiv_three_small [OF assms(2)] by (simp add: ideal_def)
  then have small: "start < 2 ^ 35" "5 \<le> start" by (auto simp: start_def or_Suc_0_eq)
  obtain k where k: "k < period" "(start + 2 * k) mod period = 1" using reach_one by blast
  have "start + 2 * k < 2 ^ 64" using small k(1) unfolding period_value by simp
  from prime_search_run [OF probable_prime_one [OF k(2)] this] obtain m where
    m: "prime_search start = Some m" "start \<le> m" by blast
  have "HashTable_CalculateIdealNumOfBuckets t = Done m t"
    unfolding HashTable_CalculateIdealNumOfBuckets_def Let_def assms(1) ideal_def [symmetric] start_def [symmetric]
    by (simp add: m(1))
  then show ?thesis using small(2) m(2) by (intro exI [of _ m]) simp
qed

section \<open>Well-formed tables\<close>

text \<open>
  What a table relies on: comparing keys is an equivalence \<open>same\<close>, equal keys have equal hashes, and
  copying a key succeeds and yields an equal key.
\<close>

definition key_contract :: "('k \<Rightarrow> 'k \<Rightarrow> bool) \<Rightarrow> ('k \<Rightarrow> u32) \<Rightarrow> 'k wObject \<Rightarrow> bool" where
  "key_contract same hf ob \<longleftrightarrow>
     equivp same \<and> (\<forall>x y. same x y \<longrightarrow> hf x = hf y) \<and>
     (\<exists>eq. fnObjectEquals ob = Some eq \<and> (\<forall>x y. eq (Some x) (Some y) = same x y)) \<and>
     (\<forall>x. \<exists>y. new_object ob (Some x) = Some y \<and> same x y)"

lemma key_contractD:
  assumes "key_contract same hf ob"
  shows "same x x" and "same x y \<Longrightarrow> same y x" and "same x y \<Longrightarrow> same y z \<Longrightarrow> same x z"
    and "same x y \<Longrightarrow> hf x = hf y"
  using assms by (auto simp: key_contract_def intro: equivp_reflp equivp_symp equivp_transp)

lemma same_class:
  assumes kc: "key_contract same hf ob" and k: "same k k'"
  shows "same k' x \<longleftrightarrow> same k x" and "same x k' \<longleftrightarrow> same k x"
proof -
  show 1: "same k' x \<longleftrightarrow> same k x"
  proof
    assume "same k' x"
    with k show "same k x" by (rule key_contractD(3) [OF kc])
  next
    assume "same k x"
    with key_contractD(2) [OF kc k] show "same k' x" by (rule key_contractD(3) [OF kc])
  qed
  have "same x k' \<longleftrightarrow> same k' x"
    using key_contractD(2) [OF kc, of x k'] key_contractD(2) [OF kc, of k' x] by (rule iffI)
  with 1 show "same x k' \<longleftrightarrow> same k x" by simp
qed

text \<open>
  \<open>threaded\<close>: bucket \<open>i\<close> is a list without repetition, its pairs have keys that hash to \<open>i\<close>. Live
  pairs are those not marked for removal.
\<close>

definition threaded :: "('k \<Rightarrow> u32) \<Rightarrow> nat \<Rightarrow> ('k, 'v) store \<Rightarrow> nat pointer list \<Rightarrow> nat list list \<Rightarrow> bool" where
  "threaded hf n h arr bs \<longleftrightarrow> length arr = n \<and> length bs = n \<and>
     (\<forall>i < n. chain h (arr ! i) (bs ! i) \<and> distinct (bs ! i) \<and>
        (\<forall>a \<in> set (bs ! i). \<exists>pr k. h a = Some pr \<and> pair_key pr = Some k \<and> unat (hf k) mod n = i))"

definition live :: "('k, 'v) store \<Rightarrow> nat set" where
  "live h = {a. \<exists>pr. h a = Some pr \<and> \<not> markedForRemove pr}"

definition doomed :: "('k, 'v) store \<Rightarrow> nat set" where
  "doomed h = {a. \<exists>pr. h a = Some pr \<and> markedForRemove pr}"

definition unique_keys :: "('k \<Rightarrow> 'k \<Rightarrow> bool) \<Rightarrow> ('k, 'v) store \<Rightarrow> bool" where
  "unique_keys same h \<longleftrightarrow> (\<forall>a b pa pb ka kb. h a = Some pa \<and> h b = Some pb \<and>
     pair_key pa = Some ka \<and> pair_key pb = Some kb \<and> same ka kb \<longrightarrow> a = b)"

text \<open>
  The invariant, with the lists of the buckets: every pair in the store is on exactly one list, the
  counters are the numbers of live and of marked pairs, and marked pairs exist only during an
  iteration. The number of pairs stays below the range of \<^verbatim>\<open>DWORD\<close>.
\<close>

definition ht_counts :: "('k, 'v) wHashTable \<Rightarrow> bool" where
  "ht_counts t \<longleftrightarrow> finite (dom (pairs t)) \<and> card (dom (pairs t)) < 2 ^ 32 \<and>
     (\<forall>a \<in> dom (pairs t). a < next_pair t) \<and> numOfElements t = card (live (pairs t)) \<and>
     pendingRemoves t = of_nat (card (doomed (pairs t))) \<and>
     (foreachRecursionLevel t = 0 \<longrightarrow> doomed (pairs t) = {})"

definition ht_inv :: "('k \<Rightarrow> 'k \<Rightarrow> bool) \<Rightarrow> ('k \<Rightarrow> u32) \<Rightarrow> ('k, 'v) wHashTable \<Rightarrow> nat list list \<Rightarrow> bool" where
  "ht_inv same hf t bs \<longleftrightarrow> ht_hash t = Some hf \<and> key_contract same hf (ht_key t) \<and> idealRatio t = 3 \<and>
     0 < numOfBuckets t \<and> threaded hf (numOfBuckets t) (pairs t) (bucketArray t) bs \<and>
     dom (pairs t) = set (concat bs) \<and> unique_keys same (pairs t) \<and> ht_counts t"

text \<open>A table represents the map that sends a key to the value of the live pair with an equal key.\<close>

definition binds_there ::
    "('k \<Rightarrow> 'k \<Rightarrow> bool) \<Rightarrow> ('k, 'v) wKeyValuePair option \<Rightarrow> 'k \<Rightarrow> 'v pointer \<Rightarrow> bool" where
  "binds_there same p x v \<longleftrightarrow> (\<exists>pr k. p = Some pr \<and> \<not> markedForRemove pr \<and> pair_key pr = Some k \<and> same x k \<and>
     pair_value pr = v)"

definition binds :: "('k \<Rightarrow> 'k \<Rightarrow> bool) \<Rightarrow> ('k, 'v) store \<Rightarrow> 'k \<Rightarrow> 'v pointer \<Rightarrow> bool" where
  "binds same h x v \<longleftrightarrow> (\<exists>a. binds_there same (h a) x v)"

definition ht_rep ::
    "('k \<Rightarrow> 'k \<Rightarrow> bool) \<Rightarrow> ('k \<Rightarrow> u32) \<Rightarrow> ('k, 'v) wHashTable \<Rightarrow> ('k \<Rightarrow> 'v pointer option) \<Rightarrow> bool" where
  "ht_rep same hf t m \<longleftrightarrow> (\<exists>bs. ht_inv same hf t bs) \<and> (\<forall>k v. m k = Some v \<longleftrightarrow> binds same (pairs t) k v)"

section \<open>Looking up\<close>

lemma threadedD:
  assumes "threaded hf n h arr bs" and "i < n"
  shows "chain h (arr ! i) (bs ! i)" and "distinct (bs ! i)"
    and "a \<in> set (bs ! i) \<Longrightarrow> \<exists>pr k. h a = Some pr \<and> pair_key pr = Some k \<and> unat (hf k) mod n = i"
  using assms by (auto simp: threaded_def)

lemma ht_pairE:
  assumes "ht_inv same hf t bs" and "pairs t a = Some pr"
  obtains k where "pair_key pr = Some k" "a \<in> set (bs ! (unat (hf k) mod numOfBuckets t))"
proof -
  have "a \<in> set (concat bs)" using assms by (auto simp: ht_inv_def)
  then obtain b where "b \<in> set bs" "a \<in> set b" by auto
  then obtain i where i: "i < length bs" "a \<in> set (bs ! i)" unfolding in_set_conv_nth [of b] by blast
  have th: "threaded hf (numOfBuckets t) (pairs t) (bucketArray t) bs" using assms(1) by (simp add: ht_inv_def)
  with i(1) have n: "i < numOfBuckets t" by (simp add: threaded_def)
  from threadedD(3) [OF th n i(2)] assms(2) obtain k where "pair_key pr = Some k" "unat (hf k) mod numOfBuckets t = i"
    by auto
  with i(2) show thesis by (intro that) auto
qed

lemma bucket_index_run:
  assumes "ht_inv same hf t bs"
  shows "bucket_index (Some k) (numOfBuckets t) t = Done (unat (hf k) mod numOfBuckets t) t"
    and "get_bucket (unat (hf k) mod numOfBuckets t) t =
      Done (bucketArray t ! (unat (hf k) mod numOfBuckets t)) t"
    and "unat (hf k) mod numOfBuckets t < numOfBuckets t"
  using assms by (auto simp: bucket_index_def get_bucket_def ht_inv_def threaded_def)

text \<open>The search finds the pair with an equal key and its predecessor, or there is none.\<close>

lemma find_pair_cases:
  assumes inv: "ht_inv same hf t bs" and i: "i = unat (hf k) mod numOfBuckets t"
  obtains (found) xs a ys pr k' where "bs ! i = xs @ a # ys" "pairs t a = Some pr" "pair_key pr = Some k'"
      "same k k'" "find_pair (Some k) (bucketArray t ! i) t = Done (if xs = [] then None else Some (last xs), Some a) t"
  | (absent) q where "\<And>a pr k'. pairs t a = Some pr \<Longrightarrow> pair_key pr = Some k' \<Longrightarrow> \<not> same k k'"
      "find_pair (Some k) (bucketArray t ! i) t = Done (q, None) t"
proof -
  have th: "threaded hf (numOfBuckets t) (pairs t) (bucketArray t) bs" and kc: "key_contract same hf (ht_key t)"
    using inv by (simp_all add: ht_inv_def)
  from kc obtain eq where eq: "fnObjectEquals (ht_key t) = Some eq" "\<And>x y. eq (Some x) (Some y) = same x y"
    by (auto simp: key_contract_def)
  have i': "i < numOfBuckets t" using bucket_index_run(3) [OF inv] i by simp
  have key: "\<exists>pr k'. pairs t a = Some pr \<and> pair_key pr = Some k' \<and> key_at t a = Some k'" if "a \<in> set (bs ! i)" for a
    using threadedD(3) [OF th i' that] by (auto simp: key_at_def)
  from find_loop_run [OF eq(1) threadedD(1) [OF th i'], of "Some k" None] show thesis
  proof (elim disjE exE conjE)
    fix xs a ys
    assume a: "bs ! i = xs @ a # ys" "eq (Some k) (key_at t a)"
      "find_loop t (Some k) None (bucketArray t ! i) = Some (Inr (if xs = [] then None else Some (last xs), Some a))"
    with key [of a] obtain pr k' where "pairs t a = Some pr" "pair_key pr = Some k'" "key_at t a = Some k'" by auto
    with a eq(2) show thesis by (intro found [of xs a ys pr k']) (auto simp: find_pair_def)
  next
    fix q
    assume none: "\<forall>b \<in> set (bs ! i). \<not> eq (Some k) (key_at t b)"
      and run: "find_loop t (Some k) None (bucketArray t ! i) = Some (Inr (q, None))"
    show thesis
    proof (rule absent)
      fix a pr k'
      assume a: "pairs t a = Some pr" "pair_key pr = Some k'"
      show "\<not> same k k'"
      proof
        assume s: "same k k'"
        from ht_pairE [OF inv a(1)] a(2) have "a \<in> set (bs ! (unat (hf k') mod numOfBuckets t))" by auto
        with s i key_contractD(4) [OF kc] have "a \<in> set (bs ! i)" by metis
        with none a eq(2) s show False by (auto simp: key_at_def)
      qed
    qed (simp add: find_pair_def run)
  qed
qed

section \<open>Changing one pair\<close>

lemma deref_pair_run [simp]: "pairs t a = Some pr \<Longrightarrow> deref_pair (Some a) t = Done pr t"
  by (simp add: deref_pair_def)

lemma assign_pair_run [simp]:
  "pairs t a = Some pr \<Longrightarrow> assign_pair (Some a) f t = Done () (t\<lparr>pairs := (pairs t)(a \<mapsto> f pr)\<rparr>)"
  by (simp add: assign_pair_def)

text \<open>The parts of a table that no operation on pairs touches.\<close>

definition same_setup :: "('k, 'v) wHashTable \<Rightarrow> ('k, 'v) wHashTable \<Rightarrow> bool" where
  "same_setup t t' \<longleftrightarrow> ht_hash t' = ht_hash t \<and> ht_key t' = ht_key t \<and> ht_value t' = ht_value t \<and>
     idealRatio t' = idealRatio t \<and> upperRehashThreshold t' = upperRehashThreshold t \<and>
     lowerRehashThreshold t' = lowerRehashThreshold t \<and> foreachRecursionLevel t' = foreachRecursionLevel t"

lemma same_setup_refl [simp]: "same_setup t t"
  by (simp add: same_setup_def)

lemma same_setup_trans: "same_setup t t1 \<Longrightarrow> same_setup t1 t2 \<Longrightarrow> same_setup t t2"
  by (auto simp: same_setup_def)

lemma live_upd: "live (h(a \<mapsto> pr)) = (if markedForRemove pr then live h - {a} else insert a (live h))"
  by (auto simp: live_def)

lemma doomed_upd: "doomed (h(a \<mapsto> pr)) = (if markedForRemove pr then insert a (doomed h) else doomed h - {a})"
  by (auto simp: doomed_def)

lemma live_del: "live (h(a := None)) = live h - {a}" and doomed_del: "doomed (h(a := None)) = doomed h - {a}"
  by (auto simp: live_def doomed_def)

lemma live_in_dom: "live h \<subseteq> dom h" and doomed_in_dom: "doomed h \<subseteq> dom h"
  by (auto simp: live_def doomed_def)

lemma dom_live_doomed: "dom h = live h \<union> doomed h"
  by (auto simp: live_def doomed_def)

lemma live_iff [simp]: "h a = Some pr \<Longrightarrow> a \<in> live h \<longleftrightarrow> \<not> markedForRemove pr"
  and doomed_iff [simp]: "h a = Some pr \<Longrightarrow> a \<in> doomed h \<longleftrightarrow> markedForRemove pr"
  by (auto simp: live_def doomed_def)

lemma counts_finite:
  assumes "ht_counts t"
  shows "finite (live (pairs t))" "finite (doomed (pairs t))" "card (live (pairs t)) < 2 ^ 32"
    "card (doomed (pairs t)) < 2 ^ 32"
proof -
  have d: "finite (dom (pairs t))" "card (dom (pairs t)) < 2 ^ 32" using assms by (auto simp: ht_counts_def)
  show "finite (live (pairs t))" "finite (doomed (pairs t))"
    using d(1) live_in_dom doomed_in_dom finite_subset by metis+
  show "card (live (pairs t)) < 2 ^ 32" "card (doomed (pairs t)) < 2 ^ 32"
    using d card_mono [OF d(1) live_in_dom [of "pairs t"]] card_mono [OF d(1) doomed_in_dom [of "pairs t"]] by linarith+
qed

text \<open>Replacing a pair by one with an equal key and the same successor keeps the lists.\<close>

lemma inv_replace:
  assumes inv: "ht_inv same hf t bs" and a: "pairs t a = Some pr" "pair_key pr = Some k"
    and pr': "pair_key pr' = Some k'" "same k k'" "pair_next pr' = pair_next pr"
    and t': "pairs t' = (pairs t)(a \<mapsto> pr')" "bucketArray t' = bucketArray t" "numOfBuckets t' = numOfBuckets t"
      "same_setup t t'" "ht_counts t'"
  shows "ht_inv same hf t' bs"
proof -
  have kc: "key_contract same hf (ht_key t)" using inv by (simp add: ht_inv_def)
  have hash: "hf k' = hf k" using key_contractD(4) [OF kc pr'(2)] by simp
  have th: "threaded hf (numOfBuckets t) (pairs t) (bucketArray t) bs" using inv by (simp add: ht_inv_def)
  have "threaded hf (numOfBuckets t) ((pairs t)(a \<mapsto> pr')) (bucketArray t) bs"
    unfolding threaded_def
  proof (intro conjI allI impI ballI)
    fix i
    assume i: "i < numOfBuckets t"
    show "chain ((pairs t)(a \<mapsto> pr')) (bucketArray t ! i) (bs ! i)"
      using threadedD(1) [OF th i] chain_same_next [of "pairs t" a pr pr'] a(1) pr'(3) by blast
    show "distinct (bs ! i)" by (rule threadedD(2) [OF th i])
    fix b
    assume "b \<in> set (bs ! i)"
    from threadedD(3) [OF th i this] show "\<exists>pr k. ((pairs t)(a \<mapsto> pr')) b = Some pr \<and> pair_key pr = Some k \<and>
        unat (hf k) mod numOfBuckets t = i"
      using a pr'(1) hash by (cases "b = a") auto
  qed (use th in \<open>auto simp: threaded_def\<close>)
  moreover have "unique_keys same ((pairs t)(a \<mapsto> pr'))"
    unfolding unique_keys_def
  proof (intro allI impI, elim conjE)
    fix c d pc pd kc' kd'
    assume *: "((pairs t)(a \<mapsto> pr')) c = Some pc" "((pairs t)(a \<mapsto> pr')) d = Some pd"
      "pair_key pc = Some kc'" "pair_key pd = Some kd'" "same kc' kd'"
    have uk: "unique_keys same (pairs t)" using inv by (simp add: ht_inv_def)
    have old: "\<exists>q x. pairs t e = Some q \<and> pair_key q = Some x \<and> same x ke"
      if "((pairs t)(a \<mapsto> pr')) e = Some pe" "pair_key pe = Some ke" for e pe ke
      using that a pr'(1,2) key_contractD(1) [OF kc] by (cases "e = a") auto
    obtain q x where x: "pairs t c = Some q" "pair_key q = Some x" "same x kc'" using old [OF *(1,3)] by blast
    obtain r y where y: "pairs t d = Some r" "pair_key r = Some y" "same y kd'" using old [OF *(2,4)] by blast
    have "same x kd'" by (rule key_contractD(3) [OF kc x(3) *(5)])
    then have "same x y" by (rule key_contractD(3) [OF kc]) (rule key_contractD(2) [OF kc y(3)])
    then show "c = d" using uk x y unfolding unique_keys_def by blast
  qed
  moreover have "dom ((pairs t)(a \<mapsto> pr')) = dom (pairs t)" using a(1) by auto
  ultimately show ?thesis
    using inv t' unfolding ht_inv_def same_setup_def by auto
qed

text \<open>What changes in the map: the bindings from other pairs, and the binding from this one.\<close>

definition binds_elsewhere :: "('k \<Rightarrow> 'k \<Rightarrow> bool) \<Rightarrow> ('k, 'v) store \<Rightarrow> nat \<Rightarrow> 'k \<Rightarrow> 'v pointer \<Rightarrow> bool" where
  "binds_elsewhere same h a x v \<longleftrightarrow> (\<exists>b. b \<noteq> a \<and> binds_there same (h b) x v)"

lemma binds_split: "binds same h x v \<longleftrightarrow> binds_there same (h a) x v \<or> binds_elsewhere same h a x v"
  unfolding binds_def binds_elsewhere_def by metis

lemma elsewhere_upd [simp]: "binds_elsewhere same (h(a := p)) a x v \<longleftrightarrow> binds_elsewhere same h a x v"
  unfolding binds_elsewhere_def by auto

lemma binds_at:
  "binds same (h(a \<mapsto> pr)) x v \<longleftrightarrow> binds_elsewhere same h a x v \<or>
     \<not> markedForRemove pr \<and> (\<exists>k. pair_key pr = Some k \<and> same x k) \<and> pair_value pr = v"
  unfolding binds_split [of same "h(a \<mapsto> pr)" x v a] by (auto simp: binds_there_def)

lemma binds_gone: "binds same (h(a := None)) x v \<longleftrightarrow> binds_elsewhere same h a x v"
  unfolding binds_split [of same "h(a := None)" x v a] by (auto simp: binds_there_def)

lemma elsewhere_same:
  assumes kc: "key_contract same hf ob" and uk: "unique_keys same h" and a: "h a = Some pr" "pair_key pr = Some k"
  shows "binds_elsewhere same h a x v \<longleftrightarrow> \<not> same k x \<and> binds same h x v"
proof -
  note same = key_contractD(1-3) [OF kc]
  have h: "h(a \<mapsto> pr) = h" using a(1) by (rule fun_upd_idem)
  have "\<not> binds_elsewhere same h a x v" if x: "same k x"
  proof
    assume "binds_elsewhere same h a x v"
    then obtain b q y where "b \<noteq> a" "h b = Some q" "pair_key q = Some y" "same x y"
      unfolding binds_elsewhere_def binds_there_def by auto
    moreover from this x have "same k y" using same(3) by blast
    ultimately show False using uk a unfolding unique_keys_def by blast
  qed
  moreover have "binds same h x v \<longleftrightarrow> binds_elsewhere same h a x v" if "\<not> same k x"
  proof -
    have "\<not> same x k" using that same(2) by blast
    then show ?thesis using binds_at [of same h a pr x v, unfolded h] a(2) by simp
  qed
  ultimately show ?thesis by blast
qed

lemma binds_replace:
  assumes kc: "key_contract same hf ob" and uk: "unique_keys same h" and a: "h a = Some pr" "pair_key pr = Some k"
    and pr': "pair_key pr' = Some k'" "same k k'" "\<not> markedForRemove pr'"
  shows "binds same (h(a \<mapsto> pr')) x v \<longleftrightarrow> (if same k x then v = pair_value pr' else binds same h x v)"
proof -
  note same = key_contractD(1-3) [OF kc]
  have "same x k' \<longleftrightarrow> same k x" by (rule same_class(2) [OF kc pr'(2)])
  then show ?thesis unfolding binds_at elsewhere_same [OF kc uk a] using pr' by auto
qed

lemma binds_doom:
  assumes kc: "key_contract same hf ob" and uk: "unique_keys same h" and a: "h a = Some pr" "pair_key pr = Some k"
  shows "binds same (h(a := None)) x v \<longleftrightarrow> \<not> same k x \<and> binds same h x v"
    and "markedForRemove pr' \<Longrightarrow> binds same (h(a \<mapsto> pr')) x v \<longleftrightarrow> \<not> same k x \<and> binds same h x v"
  unfolding binds_gone binds_at elsewhere_same [OF kc uk a] by simp_all

section \<open>Inserting\<close>

definition upd :: "('k \<Rightarrow> 'k \<Rightarrow> bool) \<Rightarrow> ('k \<Rightarrow> 'w option) \<Rightarrow> 'k \<Rightarrow> 'w \<Rightarrow> 'k \<Rightarrow> 'w option" where
  "upd same m k v = (\<lambda>x. if same k x then Some v else m x)"

definition del :: "('k \<Rightarrow> 'k \<Rightarrow> bool) \<Rightarrow> ('k \<Rightarrow> 'w option) \<Rightarrow> 'k \<Rightarrow> 'k \<Rightarrow> 'w option" where
  "del same m k = (\<lambda>x. if same k x then None else m x)"

text \<open>Setting a field of a pair changes nothing else but the record of what was freed.\<close>

definition only_pairs :: "('k, 'v) wHashTable \<Rightarrow> ('k, 'v) wHashTable \<Rightarrow> bool" where
  "only_pairs t t' \<longleftrightarrow> same_setup t t' \<and> bucketArray t' = bucketArray t \<and> numOfBuckets t' = numOfBuckets t \<and>
     next_pair t' = next_pair t \<and> numOfElements t' = numOfElements t \<and> pendingRemoves t' = pendingRemoves t"

lemma only_pairs_refl: "only_pairs t t"
  by (simp add: only_pairs_def)

lemma only_pairs_trans: "only_pairs t t1 \<Longrightarrow> only_pairs t1 t2 \<Longrightarrow> only_pairs t t2"
  by (auto simp: only_pairs_def elim: same_setup_trans)

lemma dispose_run:
  "\<exists>t'. disposeKey key t = Done () t' \<and> pairs t' = pairs t \<and> only_pairs t t'"
  "\<exists>t'. disposeValue val t = Done () t' \<and> pairs t' = pairs t \<and> only_pairs t t'"
  by (auto simp: disposeKey_def disposeValue_def only_pairs_def same_setup_def)

lemma setKey_run:
  assumes "pairs t a = Some pr"
  shows "\<exists>t'. setKey (Some a) key t = Done () t' \<and> only_pairs t t' \<and>
    pairs t' = (pairs t)(a \<mapsto> pr\<lparr>pair_key := new_object (ht_key t) key\<rparr>)"
proof -
  obtain t1 where t1: "disposeKey (pair_key pr) t = Done () t1" "pairs t1 = pairs t" "only_pairs t t1"
    using dispose_run(1) by blast
  have "ht_key t1 = ht_key t" using t1(3) by (simp add: only_pairs_def same_setup_def)
  then have "setKey (Some a) key t =
      Done () (t1\<lparr>pairs := (pairs t)(a \<mapsto> pr\<lparr>pair_key := new_object (ht_key t) key\<rparr>)\<rparr>)"
    using assms t1(1,2) by (simp add: setKey_def)
  moreover have "only_pairs t (t1\<lparr>pairs := h\<rparr>)" for h
    using t1(3) by (simp add: only_pairs_def same_setup_def)
  ultimately show ?thesis by simp
qed

lemma setValue_run:
  assumes "pairs t a = Some pr"
  shows "\<exists>t'. setValue (Some a) val t = Done () t' \<and> only_pairs t t' \<and>
    pairs t' = (pairs t)(a \<mapsto> pr\<lparr>pair_value := new_object (ht_value t) val\<rparr>)"
proof -
  obtain t1 where t1: "disposeValue (pair_value pr) t = Done () t1" "pairs t1 = pairs t" "only_pairs t t1"
    using dispose_run(2) by blast
  have "ht_value t1 = ht_value t" using t1(3) by (simp add: only_pairs_def same_setup_def)
  then have "setValue (Some a) val t =
      Done () (t1\<lparr>pairs := (pairs t)(a \<mapsto> pr\<lparr>pair_value := new_object (ht_value t) val\<rparr>)\<rparr>)"
    using assms t1(1,2) by (simp add: setValue_def)
  moreover have "only_pairs t (t1\<lparr>pairs := h\<rparr>)" for h
    using t1(3) by (simp add: only_pairs_def same_setup_def)
  ultimately show ?thesis by simp
qed

lemma update_pair_run:
  assumes "pairs t a = Some pr"
  shows "\<exists>t'. update_pair (Some a) key val t = Done () t' \<and>
    pairs t' = (pairs t)(a \<mapsto> pr\<lparr>pair_key := (if pair_key pr \<noteq> key then new_object (ht_key t) key else key),
      pair_value := (if pair_value pr \<noteq> val then new_object (ht_value t) val else val),
      markedForRemove := False\<rparr>) \<and>
    bucketArray t' = bucketArray t \<and> numOfBuckets t' = numOfBuckets t \<and> same_setup t t' \<and> next_pair t' = next_pair t \<and>
    numOfElements t' = (if markedForRemove pr then add64 (numOfElements t) 1 else numOfElements t) \<and>
    pendingRemoves t' = (if markedForRemove pr then pendingRemoves t - 1 else pendingRemoves t)"
proof -
  let ?revive = "if markedForRemove pr
      then seq (modify (\<lambda>t. t\<lparr>pendingRemoves := pendingRemoves t - 1\<rparr>))
          (seq (assign_pair (Some a) (\<lambda>pr. pr\<lparr>markedForRemove := False\<rparr>))
               (modify (\<lambda>t. t\<lparr>numOfElements := add64 (numOfElements t) 1\<rparr>)))
      else ret ()"
  let ?key = "if pair_key pr \<noteq> key then new_object (ht_key t) key else key"
  let ?val = "if pair_value pr \<noteq> val then new_object (ht_value t) val else val"
  define pr1 where "pr1 = pr\<lparr>markedForRemove := False\<rparr>"
  obtain t1 where t1: "?revive t = Done () t1" "pairs t1 = (pairs t)(a \<mapsto> pr1)" "same_setup t t1"
      "bucketArray t1 = bucketArray t" "numOfBuckets t1 = numOfBuckets t" "next_pair t1 = next_pair t"
      "numOfElements t1 = (if markedForRemove pr then add64 (numOfElements t) 1 else numOfElements t)"
      "pendingRemoves t1 = (if markedForRemove pr then pendingRemoves t - 1 else pendingRemoves t)"
    using assms by (cases "markedForRemove pr") (auto simp: same_setup_def pr1_def fun_upd_idem)
  have setup1: "ht_key t1 = ht_key t" "ht_value t1 = ht_value t" using t1(3) by (simp_all add: same_setup_def)
  have a1: "pairs t1 a = Some pr1" using t1(2) by simp
  obtain t2 where t2: "(if pair_key pr \<noteq> key then setKey (Some a) key else ret ()) t1 = Done () t2" "only_pairs t1 t2"
      "pairs t2 = (pairs t1)(a \<mapsto> pr1\<lparr>pair_key := ?key\<rparr>)"
    using setKey_run [OF a1, of key] only_pairs_refl [of t1] a1 setup1
    by (cases "pair_key pr \<noteq> key") (auto simp: pr1_def fun_upd_idem)
  have setup2: "ht_value t2 = ht_value t" using t2(2) setup1 by (simp add: only_pairs_def same_setup_def)
  have a2: "pairs t2 a = Some (pr1\<lparr>pair_key := ?key\<rparr>)" using t2(3) by simp
  obtain t3 where t3: "(if pair_value pr \<noteq> val then setValue (Some a) val else ret ()) t2 = Done () t3" "only_pairs t2 t3"
      "pairs t3 = (pairs t2)(a \<mapsto> pr1\<lparr>pair_key := ?key, pair_value := ?val\<rparr>)"
    using setValue_run [OF a2, of val] only_pairs_refl [of t2] a2 setup2
    by (cases "pair_value pr \<noteq> val") (auto simp: pr1_def fun_upd_idem)
  have "update_pair (Some a) key val t = Done () t3"
    using assms t1(1) t2(1) t3(1) unfolding update_pair_def by (simp add: seq_def bind_def)
  moreover have "pr1\<lparr>pair_key := x, pair_value := y\<rparr> = pr\<lparr>pair_key := x, pair_value := y, markedForRemove := False\<rparr>"
    for x y by (cases pr) (simp add: pr1_def)
  then have "pairs t3 = (pairs t)(a \<mapsto> pr\<lparr>pair_key := ?key, pair_value := ?val, markedForRemove := False\<rparr>)"
    unfolding t3(3) t2(3) t1(2) by simp
  moreover have o: "only_pairs t1 t3" by (rule only_pairs_trans [OF t2(2) t3(2)])
  then have "same_setup t t3" using t1(3) by (auto simp: only_pairs_def elim: same_setup_trans)
  ultimately show ?thesis
    using t1(4-8) o unfolding only_pairs_def by (intro exI [of _ t3]) simp
qed

lemma of_nat_pred: "0 < n \<Longrightarrow> of_nat n - 1 = (of_nat (n - 1) :: 'a :: len word)"
  by (cases n) simp_all

lemma counts_revive:
  assumes "ht_counts t" and "pairs t a = Some pr" and "\<not> markedForRemove pr'"
    and "pairs t' = (pairs t)(a \<mapsto> pr')" and "next_pair t' = next_pair t" and "same_setup t t'"
    and "numOfElements t' = (if markedForRemove pr then add64 (numOfElements t) 1 else numOfElements t)"
    and "pendingRemoves t' = (if markedForRemove pr then pendingRemoves t - 1 else pendingRemoves t)"
  shows "ht_counts t'"
proof -
  note fin = counts_finite [OF assms(1)]
  have dom: "dom (pairs t') = dom (pairs t)" using assms(2,4) by auto
  have l: "live (pairs t') = insert a (live (pairs t))" and d: "doomed (pairs t') = doomed (pairs t) - {a}"
    using assms(3,4) by (simp_all add: live_upd doomed_upd)
  have n: "numOfElements t = card (live (pairs t))" using assms(1) by (simp add: ht_counts_def)
  have "numOfElements t' = card (live (pairs t'))"
  proof (cases "markedForRemove pr")
    case True
    then have "a \<notin> live (pairs t)" using assms(2) by simp
    then have "card (live (pairs t')) = card (live (pairs t)) + 1" using fin(1) l by simp
    then show ?thesis using assms(7) True n fin(3) by (simp add: add64_def)
  next
    case False
    then have "a \<in> live (pairs t)" using assms(2) by simp
    then have "live (pairs t') = live (pairs t)" using l by (simp only: insert_absorb)
    then show ?thesis using assms(7) False n by simp
  qed
  moreover have "pendingRemoves t' = of_nat (card (doomed (pairs t')))"
  proof (cases "markedForRemove pr")
    case True
    then have "a \<in> doomed (pairs t)" using assms(2) by simp
    then have c: "0 < card (doomed (pairs t))" and c': "card (doomed (pairs t')) = card (doomed (pairs t)) - 1"
      using fin(2) unfolding d by (auto simp only: card_gt_0_iff card_Diff_singleton)
    have "pendingRemoves t' = of_nat (card (doomed (pairs t))) - 1"
      using assms(1,8) True by (simp add: ht_counts_def)
    also have "\<dots> = of_nat (card (doomed (pairs t'))) " unfolding c' by (rule of_nat_pred [OF c])
    finally show ?thesis .
  next
    case False
    then have "a \<notin> doomed (pairs t)" using assms(2) by simp
    then show ?thesis using assms(1,8) False d by (simp add: ht_counts_def)
  qed
  ultimately show ?thesis
    using assms(1,5,6) dom d by (auto simp: ht_counts_def same_setup_def)
qed

lemma insert_found:
  assumes rep: "ht_rep same hf t m" and inv: "ht_inv same hf t bs"
    and a: "pairs t a = Some pr" "pair_key pr = Some k'" "same k k'"
  shows "\<exists>t' v. update_pair (Some a) (Some k) val t = Done () t' \<and> (v = val \<or> v = new_object (ht_value t) val) \<and>
    same_setup t t' \<and> ht_rep same hf t' (upd same m k v) \<and> numOfElements t' \<le> numOfElements t + 1"
proof -
  let ?key = "if pair_key pr \<noteq> Some k then new_object (ht_key t) (Some k) else Some k"
  let ?v = "if pair_value pr \<noteq> val then new_object (ht_value t) val else val"
  let ?pr = "pr\<lparr>pair_key := ?key, pair_value := ?v, markedForRemove := False\<rparr>"
  have kc: "key_contract same hf (ht_key t)" and uk: "unique_keys same (pairs t)" and c: "ht_counts t"
    using inv by (simp_all add: ht_inv_def)
  note same = key_contractD [OF kc]
  from kc obtain y where y: "new_object (ht_key t) (Some k) = Some y" "same k y"
    unfolding key_contract_def by blast
  obtain k2 where k2: "?key = Some k2" "same k k2"
    by (rule that [of "if pair_key pr \<noteq> Some k then y else k"]) (use y same(1) in auto)
  note k' = same_class [OF kc a(3)]
  have kk: "same k' k2" using k'(1) k2(2) by simp
  from update_pair_run [OF a(1), of "Some k" val] obtain t' where t': "update_pair (Some a) (Some k) val t = Done () t'"
      "pairs t' = (pairs t)(a \<mapsto> ?pr)" "bucketArray t' = bucketArray t" "numOfBuckets t' = numOfBuckets t"
      "same_setup t t'" "next_pair t' = next_pair t"
      "numOfElements t' = (if markedForRemove pr then add64 (numOfElements t) 1 else numOfElements t)"
      "pendingRemoves t' = (if markedForRemove pr then pendingRemoves t - 1 else pendingRemoves t)"
    by blast
  have counts: "ht_counts t'" by (rule counts_revive [OF c a(1) _ t'(2,6,5,7,8)]) simp
  have "ht_inv same hf t' bs"
    by (rule inv_replace [OF inv a(1,2) _ kk _ t'(2-5) counts]) (use k2 in simp_all)
  moreover have "binds same (pairs t') x v \<longleftrightarrow> (if same k x then v = ?v else binds same (pairs t) x v)" for x v
    unfolding t'(2) using binds_replace [OF kc uk a(1,2) _ kk, of ?pr x v] k2(1) k'(1) by simp
  then have "\<forall>x v. upd same m k ?v x = Some v \<longleftrightarrow> binds same (pairs t') x v"
    using rep by (auto simp: ht_rep_def upd_def)
  ultimately have "ht_rep same hf t' (upd same m k ?v)" unfolding ht_rep_def by blast
  moreover have "numOfElements t' \<le> numOfElements t + 1" using t'(7) by (auto simp: add64_def)
  ultimately show ?thesis using t'(1,5) by (intro exI [of _ t'] exI [of _ ?v]) auto
qed

section \<open>Rehashing\<close>

text \<open>A pair without its link; the map and the counters depend on nothing else of a pair.\<close>

definition core :: "('k, 'v) wKeyValuePair \<Rightarrow> ('k, 'v) wKeyValuePair" where
  "core pr = pr\<lparr>pair_next := None\<rparr>"

definition same_core :: "('k, 'v) store \<Rightarrow> ('k, 'v) store \<Rightarrow> bool" where
  "same_core h h' \<longleftrightarrow> (\<forall>a. map_option core (h' a) = map_option core (h a))"

lemma core_fields: "core p = core q \<Longrightarrow> pair_key p = pair_key q \<and> pair_value p = pair_value q \<and>
    markedForRemove p = markedForRemove q"
  by (cases p, cases q) (simp add: core_def)

lemma same_core_Some:
  assumes "same_core h h'" and "h a = Some pr"
  obtains pr' where "h' a = Some pr'" "pair_key pr' = pair_key pr" "pair_value pr' = pair_value pr"
    "markedForRemove pr' = markedForRemove pr"
proof -
  have "map_option core (h' a) = Some (core pr)" using assms by (simp add: same_core_def)
  then obtain pr' where "h' a = Some pr'" "core pr' = core pr" by auto
  then show thesis using core_fields that by blast
qed

lemma same_core_refl [simp]: "same_core h h"
  by (simp add: same_core_def)

lemma same_core_sym: "same_core h h' \<Longrightarrow> same_core h' h"
  by (simp add: same_core_def)

lemma same_core_trans: "same_core h h1 \<Longrightarrow> same_core h1 h2 \<Longrightarrow> same_core h h2"
  by (simp add: same_core_def)

lemma same_core_link: "h a = Some pr \<Longrightarrow> same_core h (h(a \<mapsto> pr\<lparr>pair_next := q\<rparr>))"
  by (auto simp: same_core_def core_def)

lemma same_core_dom:
  assumes "same_core h h'"
  shows "dom h' = dom h"
proof -
  have "h' a = None \<longleftrightarrow> h a = None" for a
    using assms unfolding same_core_def by (cases "h a"; cases "h' a") (auto dest: spec [of _ a])
  then show ?thesis by (simp add: dom_def)
qed

lemma same_core_live:
  assumes "same_core h h'"
  shows "live h \<subseteq> live h'" and "doomed h \<subseteq> doomed h'"
proof -
  show "live h \<subseteq> live h'"
  proof
    fix a
    assume "a \<in> live h"
    then obtain pr where "h a = Some pr" "\<not> markedForRemove pr" by (auto simp: live_def)
    then show "a \<in> live h'" by (auto simp: live_def elim: same_core_Some [OF assms])
  qed
  show "doomed h \<subseteq> doomed h'"
  proof
    fix a
    assume "a \<in> doomed h"
    then obtain pr where "h a = Some pr" "markedForRemove pr" by (auto simp: doomed_def)
    then show "a \<in> doomed h'" by (auto simp: doomed_def elim: same_core_Some [OF assms])
  qed
qed

lemma same_core_sets:
  assumes "same_core h h'"
  shows "live h' = live h" and "doomed h' = doomed h"
  using same_core_live [OF assms] same_core_live [OF same_core_sym [OF assms]] by blast+

lemma same_core_there:
  assumes "same_core h h'" and "binds_there same (h a) x v"
  shows "binds_there same (h' a) x v"
proof -
  from assms(2) obtain pr k where pr: "h a = Some pr" "\<not> markedForRemove pr" "pair_key pr = Some k" "same x k"
      "pair_value pr = v"
    unfolding binds_there_def by auto
  from same_core_Some [OF assms(1) pr(1)] show ?thesis
    using pr(2-) unfolding binds_there_def by metis
qed

lemma same_core_binds:
  assumes "same_core h h'"
  shows "binds same h' x v \<longleftrightarrow> binds same h x v"
  using same_core_there [OF assms] same_core_there [OF same_core_sym [OF assms]] unfolding binds_def by blast

lemma same_core_unique:
  assumes "same_core h h'" and "unique_keys same h"
  shows "unique_keys same h'"
  unfolding unique_keys_def
proof (intro allI impI, elim conjE)
  fix a b pa pb ka kb
  assume *: "h' a = Some pa" "h' b = Some pb" "pair_key pa = Some ka" "pair_key pb = Some kb" "same ka kb"
  obtain qa where "h a = Some qa" "pair_key qa = Some ka"
    using same_core_Some [OF same_core_sym [OF assms(1)] *(1)] *(3) by metis
  moreover obtain qb where "h b = Some qb" "pair_key qb = Some kb"
    using same_core_Some [OF same_core_sym [OF assms(1)] *(2)] *(4) by metis
  ultimately show "a = b" using assms(2) *(5) unfolding unique_keys_def by blast
qed

lemma same_core_counts:
  assumes "ht_counts t" and "same_core (pairs t) (pairs t')" and "next_pair t' = next_pair t"
    and "numOfElements t' = numOfElements t" and "pendingRemoves t' = pendingRemoves t"
    and "foreachRecursionLevel t' = foreachRecursionLevel t"
  shows "ht_counts t'"
  using assms(1,3-) same_core_dom [OF assms(2)] same_core_sets [OF assms(2)] by (simp add: ht_counts_def)

text \<open>
  Half way through: the lists \<open>bs\<close> of the new array hold the pairs that were moved, \<open>rest\<close> are those
  still to come, and of the table only the links and the array have changed since \<open>t0\<close>.
\<close>

definition moving ::
    "('k \<Rightarrow> u32) \<Rightarrow> nat \<Rightarrow> ('k, 'v) wHashTable \<Rightarrow> nat list \<Rightarrow> ('k, 'v) wHashTable \<Rightarrow> nat list list \<Rightarrow> bool" where
  "moving hf n t0 rest t bs \<longleftrightarrow> threaded hf n (pairs t) (bucketArray t) bs \<and> same_core (pairs t0) (pairs t) \<and>
     t = t0\<lparr>pairs := pairs t, bucketArray := bucketArray t\<rparr> \<and>
     dom (pairs t0) = set (concat bs) \<union> set rest \<and> set (concat bs) \<inter> set rest = {} \<and> distinct rest"

lemma set_concat_upd:
  assumes "i < length bs"
  shows "set (concat (bs[i := a # bs ! i])) = insert a (set (concat bs))"
proof -
  obtain us vs where "bs = us @ bs ! i # vs" "length us = i" using id_take_nth_drop [OF assms] assms by force
  then have "bs[i := a # bs ! i] = us @ (a # bs ! i) # vs" by (metis list_update_length)
  then have "set (concat (bs[i := a # bs ! i])) = insert a (set (concat (us @ bs ! i # vs)))" by auto
  then show ?thesis using \<open>bs = us @ bs ! i # vs\<close> by simp
qed

lemma threaded_push:
  assumes th: "threaded hf n h arr bs" and i: "i < n" and a: "a \<notin> set (concat bs)"
    and pr: "pair_key pr = Some k" "unat (hf k) mod n = i" "pair_next pr = arr ! i"
  shows "threaded hf n (h(a \<mapsto> pr)) (arr[i := Some a]) (bs[i := a # bs ! i])"
  unfolding threaded_def
proof (intro conjI allI impI ballI)
  have len: "length arr = n" "length bs = n" using th by (simp_all add: threaded_def)
  have fresh: "a \<notin> set (bs ! j)" if "j < n" for j using a that len(2) by auto
  show "length (arr[i := Some a]) = n" "length (bs[i := a # bs ! i]) = n" using len by simp_all
  fix j
  assume j: "j < n"
  show "chain (h(a \<mapsto> pr)) (arr[i := Some a] ! j) (bs[i := a # bs ! i] ! j)"
  proof (cases "j = i")
    case True
    have "chain (h(a \<mapsto> pr)) (arr ! i) (bs ! i)" using threadedD(1) [OF th i] fresh [OF i] by simp
    then show ?thesis using True i len pr(3) by simp
  next
    case False
    then show ?thesis using threadedD(1) [OF th j] fresh [OF j] by simp
  qed
  show "distinct (bs[i := a # bs ! i] ! j)"
    using threadedD(2) [OF th j] fresh [OF i] i len by (cases "j = i") auto
  fix b
  assume b: "b \<in> set (bs[i := a # bs ! i] ! j)"
  show "\<exists>pr' k. (h(a \<mapsto> pr)) b = Some pr' \<and> pair_key pr' = Some k \<and> unat (hf k) mod n = j"
  proof (cases "b = a")
    case True
    then have "j = i" using b fresh [OF j] by (cases "j = i") auto
    then show ?thesis using True pr by simp
  next
    case False
    then have "b \<in> set (bs ! j)" using b i len by (cases "j = i") auto
    then show ?thesis using threadedD(3) [OF th j] False by simp
  qed
qed

lemma movingD:
  assumes "moving hf n t0 rest t bs"
  shows "threaded hf n (pairs t) (bucketArray t) bs" and "same_core (pairs t0) (pairs t)"
    and "t = t0\<lparr>pairs := pairs t, bucketArray := bucketArray t\<rparr>" and "dom (pairs t0) = set (concat bs) \<union> set rest"
    and "set (concat bs) \<inter> set rest = {}" and "distinct rest"
  by (insert assms, unfold moving_def, elim conjE, assumption)+

lemma rehash_pair_run:
  assumes mv: "moving hf n t0 (a # rest) t bs" and n: "0 < n" and hash: "ht_hash t0 = Some hf"
    and keys: "\<forall>a pr. pairs t0 a = Some pr \<longrightarrow> pair_key pr \<noteq> None" and pr: "pairs t a = Some pr"
  shows "\<exists>t' bs'. rehash_pair n a pr t = Done () t' \<and> moving hf n t0 rest t' bs' \<and> (\<forall>b. b \<noteq> a \<longrightarrow> pairs t' b = pairs t b)"
proof -
  note th = movingD(1) [OF mv] and sc = movingD(2) [OF mv] and tt = movingD(3) [OF mv]
    and dom = movingD(4) [OF mv] and dis = movingD(5,6) [OF mv]
  obtain pr0 where pr0: "pairs t0 a = Some pr0" "pair_key pr0 = pair_key pr"
    using same_core_Some [OF same_core_sym [OF sc] pr] by blast
  then obtain k where k: "pair_key pr = Some k" using keys by fastforce
  define i where "i = unat (hf k) mod n"
  have i: "i < n" using n by (simp add: i_def)
  have len: "length (bucketArray t) = n" "length bs = n" using th by (simp_all add: threaded_def)
  define pr' where "pr' = pr\<lparr>pair_next := bucketArray t ! i\<rparr>"
  have pr': "pair_key pr' = Some k" "pair_next pr' = bucketArray t ! i" by (simp_all add: pr'_def k)
  define t' where "t' = t\<lparr>pairs := (pairs t)(a \<mapsto> pr'), bucketArray := (bucketArray t)[i := Some a]\<rparr>"
  have "ht_hash t = Some hf" by (subst tt) (simp add: hash)
  then have run: "rehash_pair n a pr t = Done () t'"
    using k n i len pr
    by (simp add: rehash_pair_def bucket_index_def get_bucket_def set_bucket_def i_def [symmetric] t'_def pr'_def)
  have fresh: "a \<notin> set (concat bs)" using dis(1) by auto
  have "threaded hf n (pairs t') (bucketArray t') (bs[i := a # bs ! i])"
    using threaded_push [OF th i fresh pr'(1) i_def [symmetric] pr'(2)] by (simp add: t'_def)
  moreover have "same_core (pairs t0) (pairs t')"
    using same_core_trans [OF sc same_core_link [of "pairs t" a pr "bucketArray t ! i", OF pr]] by (simp add: t'_def pr'_def)
  moreover have "t' = t0\<lparr>pairs := pairs t', bucketArray := bucketArray t'\<rparr>"
    unfolding t'_def by (subst tt) simp
  moreover have "set (concat (bs[i := a # bs ! i])) = insert a (set (concat bs))"
    using i len by (intro set_concat_upd) simp
  moreover have "dom (pairs t0) = insert a (set (concat bs)) \<union> set rest" "insert a (set (concat bs)) \<inter> set rest = {}"
    using dom dis by auto
  ultimately have "moving hf n t0 rest t' (bs[i := a # bs ! i])"
    using dis(2) unfolding moving_def by (intro conjI) simp_all
  then show ?thesis using run by (intro exI [of _ t'] exI [of _ "bs[i := a # bs ! i]"]) (simp add: t'_def)
qed

lemma threaded_one_list:
  assumes th: "threaded hf n h arr bs" and "i < n" and "j < n" and "a \<in> set (bs ! i)" and "a \<in> set (bs ! j)"
  shows "i = j"
  using threadedD(3) [OF th assms(2,4)] threadedD(3) [OF th assms(3,5)] by auto

lemma threaded_distinct:
  assumes th: "threaded hf n h arr bs" and "distinct is" and "set is \<subseteq> {..<n}"
  shows "distinct (concat (map ((!) bs) is))"
  using assms(2,3)
proof (induction "is")
  case (Cons i "is")
  have "set (bs ! i) \<inter> set (concat (map ((!) bs) is)) = {}"
  proof (rule equals0I)
    fix a
    assume "a \<in> set (bs ! i) \<inter> set (concat (map ((!) bs) is))"
    then obtain j where "j \<in> set is" "a \<in> set (bs ! i)" "a \<in> set (bs ! j)" by auto
    moreover from this(1) have "j < n" "i < n" "j \<noteq> i" using Cons.prems by auto
    ultimately show False using threaded_one_list [OF th, of i j a] by simp
  qed
  then show ?case using Cons threadedD(2) [OF th, of i] by simp
qed simp

lemma bucket_lists: "length bs = n \<Longrightarrow> concat (map ((!) bs) [0..<n]) = concat bs"
  by (metis map_nth)

lemma threaded_concat_distinct:
  assumes th: "threaded hf n h arr bs"
  shows "distinct (concat bs)"
proof -
  have "distinct (concat (map ((!) bs) [0..<n]))" by (rule threaded_distinct [OF th]) auto
  moreover have "length bs = n" using th by (simp add: threaded_def)
  ultimately show ?thesis using bucket_lists by metis
qed

text \<open>The pairs still to be moved are as they were when the array was exchanged.\<close>

definition untouched :: "('k, 'v) wHashTable \<Rightarrow> nat list \<Rightarrow> ('k, 'v) wHashTable \<Rightarrow> bool" where
  "untouched t0 rest t \<longleftrightarrow> (\<forall>a \<in> set rest. pairs t a = pairs t0 a)"

lemma rehash_bucket_run:
  assumes mv: "moving hf n t0 (as @ later) t bs" and un: "untouched t0 (as @ later) t" and n: "0 < n"
    and hash: "ht_hash t0 = Some hf" and keys: "\<forall>a pr. pairs t0 a = Some pr \<longrightarrow> pair_key pr \<noteq> None"
    and ch: "chain (pairs t0) p as"
  shows "\<exists>t' bs'. for_chain (rehash_pair n) p t = Done () t' \<and> moving hf n t0 later t' bs' \<and> untouched t0 later t'"
proof -
  let ?P = "\<lambda>rest t. \<exists>bs. moving hf n t0 (rest @ later) t bs \<and> untouched t0 (rest @ later) t"
  have ch': "chain (pairs t) p as"
    using ch chain_cong [of as "pairs t" "pairs t0" p] un by (simp add: untouched_def)
  have "\<exists>t'. for_chain (rehash_pair n) p t = Done () t' \<and> ?P [] t'"
  proof (rule chain_loop_run [where P = ?P])
    show "?P as t" using mv un by blast
    show "chain (pairs t) p as" by (rule ch')
    fix a rest t pr
    assume P: "?P (a # rest) t" and pr: "pairs t a = Some pr" and chr: "chain (pairs t) (pair_next pr) rest"
    then obtain bs where mv: "moving hf n t0 (a # rest @ later) t bs" and un: "untouched t0 (a # rest @ later) t"
      by auto
    from rehash_pair_run [OF mv n hash keys pr] obtain t' bs' where t': "rehash_pair n a pr t = Done () t'"
        "moving hf n t0 (rest @ later) t' bs'" "\<forall>b. b \<noteq> a \<longrightarrow> pairs t' b = pairs t b"
      by (elim exE conjE)
    have fresh: "a \<notin> set (rest @ later)" using movingD(6) [OF mv] by simp
    have "untouched t0 (rest @ later) t'" using un t'(3) fresh unfolding untouched_def by auto
    moreover have eq: "map_option pair_next (pairs t' b) = map_option pair_next (pairs t b)" if "b \<in> set rest" for b
      using t'(3) fresh that by (cases "b = a") simp_all
    moreover have "chain (pairs t') (pair_next pr) rest"
      using chr chain_cong [of rest "pairs t'" "pairs t", OF eq] by simp
    ultimately show "\<exists>t'. rehash_pair n a pr t = Done () t' \<and> ?P rest t' \<and> chain (pairs t') (pair_next pr) rest"
      using t'(1,2) by blast
  qed
  then show ?thesis by auto
qed

lemma moving_start:
  assumes inv: "ht_inv same hf t bs"
  shows "moving hf n (t\<lparr>bucketArray := replicate n None\<rparr>) (concat (map ((!) bs) [0..<numOfBuckets t]))
    (t\<lparr>bucketArray := replicate n None\<rparr>) (replicate n [])"
proof -
  have th: "threaded hf (numOfBuckets t) (pairs t) (bucketArray t) bs" and dom: "dom (pairs t) = set (concat bs)"
    using inv by (simp_all add: ht_inv_def)
  have "length bs = numOfBuckets t" using th by (simp add: threaded_def)
  then have "concat (map ((!) bs) [0..<numOfBuckets t]) = concat bs" by (rule bucket_lists)
  then show ?thesis using dom threaded_concat_distinct [OF th] by (simp add: moving_def threaded_def)
qed

lemma rehash_loop_run:
  assumes inv: "ht_inv same hf t bs" and n: "0 < n"
  defines "t0 \<equiv> t\<lparr>bucketArray := replicate n None\<rparr>"
  shows "\<exists>t' bs'. for_buckets (\<lambda>i. if i < length (bucketArray t) then for_chain (rehash_pair n) (bucketArray t ! i)
      else fault OutOfBounds) [0..<numOfBuckets t] t0 = Done () t' \<and> moving hf n t0 [] t' bs'"
proof -
  have th: "threaded hf (numOfBuckets t) (pairs t) (bucketArray t) bs" and hash: "ht_hash t0 = Some hf"
    using inv by (simp_all add: ht_inv_def t0_def)
  have len: "length (bucketArray t) = numOfBuckets t" using th by (simp add: threaded_def)
  have keys: "\<forall>a pr. pairs t0 a = Some pr \<longrightarrow> pair_key pr \<noteq> None"
  proof (intro allI impI)
    fix a pr
    assume "pairs t0 a = Some pr"
    then have "pairs t a = Some pr" by (simp add: t0_def)
    then show "pair_key pr \<noteq> None" by (rule ht_pairE [OF inv]) simp
  qed
  let ?P = "\<lambda>is t'. set is \<subseteq> {..<numOfBuckets t} \<and> (\<exists>bs'. moving hf n t0 (concat (map ((!) bs) is)) t' bs' \<and>
    untouched t0 (concat (map ((!) bs) is)) t')"
  let ?body = "\<lambda>i. if i < length (bucketArray t) then for_chain (rehash_pair n) (bucketArray t ! i) else fault OutOfBounds"
  have "\<exists>t'. for_buckets ?body [0..<numOfBuckets t] t0 = Done () t' \<and> ?P [] t'"
  proof (rule for_buckets_run [where P = ?P])
    show "?P [0..<numOfBuckets t] t0"
      using moving_start [OF inv, of n] unfolding t0_def [symmetric] by (auto simp: untouched_def)
    fix i "is" s
    assume "?P (i # is) s"
    then obtain bs' where i: "i < numOfBuckets t" "set is \<subseteq> {..<numOfBuckets t}"
        and mv: "moving hf n t0 (bs ! i @ concat (map ((!) bs) is)) s bs'"
        and un: "untouched t0 (bs ! i @ concat (map ((!) bs) is)) s"
      by auto
    have ch: "chain (pairs t0) (bucketArray t ! i) (bs ! i)" using threadedD(1) [OF th i(1)] by (simp add: t0_def)
    from rehash_bucket_run [OF mv un n hash keys ch] obtain s' bs'' where
        "for_chain (rehash_pair n) (bucketArray t ! i) s = Done () s'"
        "moving hf n t0 (concat (map ((!) bs) is)) s' bs''" "untouched t0 (concat (map ((!) bs) is)) s'"
      by (elim exE conjE)
    then show "\<exists>s'. ?body i s = Done () s' \<and> ?P is s'" using i len by (intro exI [of _ s']) auto
  qed
  then show ?thesis by auto
qed

end
