(* ===== verification/HashTableMap.thy ===== *)
theory HashTableMap
  imports HashTableLists
begin

text \<open>
  The operations of a hash table on the map it represents: rehashing, inserting, looking up and
  removing, each with its effect on the invariant, for every recursion level of an iteration.
\<close>

text \<open>Rehashing keeps the map, whether or not the new array could be allocated.\<close>

lemma rehash_run:
  assumes inv: "ht_inv same hf t bs"
  shows "\<exists>t' bs'. HashTable_Rehash mok n0 t = Done () t' \<and> ht_inv same hf t' bs' \<and> same_core (pairs t) (pairs t') \<and>
    same_setup t t' \<and> numOfElements t' = numOfElements t \<and> freed_keys t' = freed_keys t \<and> freed_values t' = freed_values t"
proof -
  have counts: "ht_counts t" and ratio: "idealRatio t = 3" using inv by (simp_all add: ht_inv_def)
  then have "numOfElements t < 2 ^ 32" using counts_finite(3) [OF counts] by (simp add: ht_counts_def)
  with ideal_buckets_run [OF ratio] obtain n where n: "0 < n"
      "(if n0 = 0 then HashTable_CalculateIdealNumOfBuckets else ret n0) t = Done n t"
    by (cases "n0 = 0") fastforce+
  let ?body = "\<lambda>i. if i < length (bucketArray t) then for_chain (rehash_pair n) (bucketArray t ! i) else fault OutOfBounds"
  let ?t0 = "t\<lparr>bucketArray := replicate n None\<rparr>"
  show ?thesis
  proof (cases "n = numOfBuckets t \<or> \<not> mok (n * 8)")
    case True
    then have "HashTable_Rehash mok n0 t = Done () t" using n(2) by (auto simp: HashTable_Rehash_def bind_def gets_def)
    then show ?thesis using inv by auto
  next
    case False
    from rehash_loop_run [OF inv n(1)] obtain s bs' where
        s: "for_buckets ?body [0..<numOfBuckets t] ?t0 = Done () s" and mv: "moving hf n ?t0 [] s bs'"
      by (elim exE conjE)
    define t' where "t' = s\<lparr>numOfBuckets := n\<rparr>"
    have "HashTable_Rehash mok n0 t = Done () t'"
      using n(2) False s by (simp add: HashTable_Rehash_def bind_def gets_def seq_def modify_def t'_def)
    moreover have sc: "same_core (pairs t) (pairs t')" using movingD(2) [OF mv] by (simp add: t'_def)
    moreover have t': "t' = t\<lparr>numOfBuckets := n, pairs := pairs t', bucketArray := bucketArray t'\<rparr>"
      unfolding t'_def by (subst movingD(3) [OF mv]) simp
    have frame: "same_setup t t'" "numOfElements t' = numOfElements t" "pendingRemoves t' = pendingRemoves t"
        "next_pair t' = next_pair t" "freed_keys t' = freed_keys t" "freed_values t' = freed_values t" "numOfBuckets t' = n"
      by (subst t', simp add: same_setup_def)+
    moreover have "ht_counts t'"
      by (rule same_core_counts [OF counts sc]) (use frame in \<open>simp_all add: same_setup_def\<close>)
    moreover have "unique_keys same (pairs t')" by (rule same_core_unique [OF sc]) (use inv in \<open>simp add: ht_inv_def\<close>)
    moreover have "dom (pairs t') = set (concat bs')"
      using same_core_dom [OF sc] movingD(4) [OF mv] by (simp add: t'_def)
    moreover have "threaded hf n (pairs t') (bucketArray t') bs'" using movingD(1) [OF mv] by (simp add: t'_def)
    ultimately have "ht_inv same hf t' bs'" using inv n(1) by (simp add: ht_inv_def same_setup_def)
    then show ?thesis using \<open>HashTable_Rehash mok n0 t = Done () t'\<close> sc frame by blast
  qed
qed

lemma rep_same_core:
  "ht_rep same hf t m \<Longrightarrow> ht_inv same hf t' bs' \<Longrightarrow> same_core (pairs t) (pairs t') \<Longrightarrow> ht_rep same hf t' m"
  using same_core_binds [of "pairs t" "pairs t'" same] by (auto simp: ht_rep_def)

lemma rehash_rep:
  assumes "ht_rep same hf t m"
  shows "\<exists>t'. (if b then HashTable_Rehash mok n0 else ret ()) t = Done () t' \<and> ht_rep same hf t' m \<and> same_setup t t' \<and>
    numOfElements t' = numOfElements t"
proof -
  obtain bs where inv: "ht_inv same hf t bs" using assms by (auto simp: ht_rep_def)
  obtain t' bs' where t': "HashTable_Rehash mok n0 t = Done () t'" "ht_inv same hf t' bs'" "same_core (pairs t) (pairs t')"
      "same_setup t t'" "numOfElements t' = numOfElements t"
    using rehash_run [OF inv, of mok n0] by (elim exE conjE)
  show ?thesis
    using t'(1,4,5) rep_same_core [OF assms t'(2,3)] assms by (cases b) (auto intro: exI [of _ t] exI [of _ t'])
qed

lemma inv_push:
  assumes inv: "ht_inv same hf t bs" and room: "card (dom (pairs t)) + 1 < 2 ^ 32"
    and absent: "\<And>b pr k'. pairs t b = Some pr \<Longrightarrow> pair_key pr = Some k' \<Longrightarrow> \<not> same k k'"
    and i: "i = unat (hf k) mod numOfBuckets t"
    and pr: "pair_key pr = Some y" "same k y" "pair_next pr = bucketArray t ! i" "\<not> markedForRemove pr"
    and t': "pairs t' = (pairs t)(next_pair t \<mapsto> pr)" "bucketArray t' = (bucketArray t)[i := Some (next_pair t)]"
      "numOfBuckets t' = numOfBuckets t" "same_setup t t'" "next_pair t' = next_pair t + 1"
      "numOfElements t' = add64 (numOfElements t) 1" "pendingRemoves t' = pendingRemoves t"
  shows "ht_inv same hf t' (bs[i := next_pair t # bs ! i])"
proof -
  let ?a = "next_pair t"
  have kc: "key_contract same hf (ht_key t)" and th: "threaded hf (numOfBuckets t) (pairs t) (bucketArray t) bs"
    and c: "ht_counts t" and uk: "unique_keys same (pairs t)" and dom: "dom (pairs t) = set (concat bs)"
    using inv by (simp_all add: ht_inv_def)
  note fin = counts_finite [OF c]
  have fresh: "?a \<notin> dom (pairs t)" using c by (auto simp: ht_counts_def)
  have i': "i < numOfBuckets t" using bucket_index_run(3) [OF inv] i by simp
  have y: "unat (hf y) mod numOfBuckets t = i" using key_contractD(4) [OF kc pr(2)] i by simp
  have "threaded hf (numOfBuckets t) (pairs t') (bucketArray t') (bs[i := ?a # bs ! i])"
    using threaded_push [OF th i' _ pr(1) y pr(3)] fresh dom t' by simp
  moreover have "set (concat (bs[i := ?a # bs ! i])) = insert ?a (set (concat bs))"
    using i' th by (intro set_concat_upd) (simp add: threaded_def)
  then have "dom (pairs t') = set (concat (bs[i := ?a # bs ! i]))" using dom t' by simp
  moreover have "unique_keys same (pairs t')"
    unfolding unique_keys_def
  proof (intro allI impI, elim conjE)
    fix c d pc pd kc' kd
    assume *: "pairs t' c = Some pc" "pairs t' d = Some pd" "pair_key pc = Some kc'" "pair_key pd = Some kd" "same kc' kd"
    have new: "\<not> same y kd'" if "pairs t d' = Some q" "pair_key q = Some kd'" for d' q kd'
      using absent [OF that] same_class(1) [OF kc pr(2)] by simp
    show "c = d"
    proof (cases "c = ?a"; cases "d = ?a")
      assume "c = ?a" "d \<noteq> ?a"
      then show ?thesis using * new [of d pd kd] pr(1) t'(1) by simp
    next
      assume "c \<noteq> ?a" "d = ?a"
      then show ?thesis using * new [of c pc kc'] pr(1) t'(1) key_contractD(2) [OF kc, of kc' kd] by simp
    next
      assume "c \<noteq> ?a" "d \<noteq> ?a"
      then have "pairs t c = Some pc" "pairs t d = Some pd" using * t'(1) by simp_all
      then show ?thesis using uk *(3-5) unfolding unique_keys_def by blast
    qed simp
  qed
  moreover have "ht_counts t'"
  proof -
    have "card (dom (pairs t')) = card (dom (pairs t)) + 1" using fresh c t'(1) by (simp add: ht_counts_def)
    moreover have "live (pairs t') = insert ?a (live (pairs t))" "doomed (pairs t') = doomed (pairs t) - {?a}"
      using t'(1) pr(4) by (simp_all add: live_upd doomed_upd)
    moreover have "?a \<notin> live (pairs t)" "?a \<notin> doomed (pairs t)" using fresh live_in_dom doomed_in_dom by blast+
    moreover have "add64 (card (live (pairs t))) 1 = card (live (pairs t)) + 1" using fin(3) by (simp add: add64_def)
    moreover have "\<forall>b \<in> dom (pairs t'). b < next_pair t'" using c t' by (auto simp: ht_counts_def intro: less_SucI)
    moreover have "finite (dom (pairs t'))" using c t'(1) by (simp add: ht_counts_def)
    ultimately show ?thesis using c room fin(1) t'(4-7) by (auto simp: ht_counts_def same_setup_def)
  qed
  ultimately show ?thesis using inv t'(3,4) by (simp add: ht_inv_def same_setup_def)
qed

lemma add_pair_links:
  assumes inv: "ht_inv same hf t bs" and i: "i < numOfBuckets t"
  shows "\<exists>s. pairs s = (pairs t)(next_pair t \<mapsto> \<lparr>pair_key = new_object (ht_key t) key,
        pair_value = new_object (ht_value t) val, pair_next = bucketArray t ! i, markedForRemove = False\<rparr>) \<and>
      bucketArray s = (bucketArray t)[i := Some (next_pair t)] \<and> numOfBuckets s = numOfBuckets t \<and> same_setup t s \<and>
      next_pair s = next_pair t + 1 \<and> numOfElements s = add64 (numOfElements t) 1 \<and> pendingRemoves s = pendingRemoves t \<and>
      add_pair mok i key val t = (if foreachRecursionLevel s = 0 \<and> upperRehashThreshold s > idealRatio s \<and>
         fdiv (numOfElements s) (float32 (of_nat (numOfBuckets s))) > upperRehashThreshold s
       then HashTable_Rehash mok 0 else ret ()) s"
proof -
  let ?a = "next_pair t" and ?zero = "\<lparr>pair_key = None, pair_value = None, pair_next = None, markedForRemove = False\<rparr>"
  have len: "length (bucketArray t) = numOfBuckets t" using inv by (simp add: ht_inv_def threaded_def)
  define t1 where "t1 = t\<lparr>next_pair := ?a + 1, pairs := (pairs t)(?a \<mapsto> ?zero)\<rparr>"
  have c: "calloc_pair t = Done (Some ?a) t1" by (simp add: calloc_pair_def t1_def Let_def)
  have a1: "pairs t1 ?a = Some ?zero" by (simp add: t1_def)
  obtain t2 where t2: "setKey (Some ?a) key t1 = Done () t2" "only_pairs t1 t2"
      "pairs t2 = (pairs t1)(?a \<mapsto> ?zero\<lparr>pair_key := new_object (ht_key t1) key\<rparr>)"
    using setKey_run [OF a1, of key] by (elim exE conjE)
  have a2: "pairs t2 ?a = Some (?zero\<lparr>pair_key := new_object (ht_key t1) key\<rparr>)" using t2(3) by simp
  obtain t3 where t3: "setValue (Some ?a) val t2 = Done () t3" "only_pairs t2 t3"
      "pairs t3 = (pairs t2)(?a \<mapsto> ?zero\<lparr>pair_key := new_object (ht_key t1) key, pair_value := new_object (ht_value t2) val\<rparr>)"
    using setValue_run [OF a2, of val] by (elim exE conjE) simp
  have o: "only_pairs t1 t3" by (rule only_pairs_trans [OF t2(2) t3(2)])
  have obs: "ht_key t1 = ht_key t" "ht_value t2 = ht_value t"
    using t2(2) by (simp_all add: t1_def only_pairs_def same_setup_def)
  have arr: "bucketArray t3 = bucketArray t" "numOfBuckets t3 = numOfBuckets t" "next_pair t3 = ?a + 1"
      "numOfElements t3 = numOfElements t" "pendingRemoves t3 = pendingRemoves t" "same_setup t t3"
    using o by (simp_all add: t1_def only_pairs_def same_setup_def)
  define pr where "pr = \<lparr>pair_key = new_object (ht_key t) key, pair_value = new_object (ht_value t) val,
    pair_next = bucketArray t ! i, markedForRemove = False\<rparr>"
  have p3: "pairs t3 = (pairs t)(?a \<mapsto> pr\<lparr>pair_next := None\<rparr>)" using t3(3) t2(3) obs by (simp add: t1_def pr_def)
  define s where "s = t3\<lparr>pairs := (pairs t)(?a \<mapsto> pr), bucketArray := (bucketArray t)[i := Some ?a],
    numOfElements := add64 (numOfElements t) 1\<rparr>"
  have "add_pair mok i key val t = (if foreachRecursionLevel s = 0 \<and> upperRehashThreshold s > idealRatio s \<and>
         fdiv (numOfElements s) (float32 (of_nat (numOfBuckets s))) > upperRehashThreshold s
       then HashTable_Rehash mok 0 else ret ()) s"
    unfolding add_pair_def
    by (simp add: bind_def seq_def c t2(1) t3(1) get_bucket_def set_bucket_def gets_def modify_def arr len i p3 s_def pr_def)
  then show ?thesis using arr by (intro exI [of _ s]) (simp add: s_def pr_def same_setup_def)
qed

lemma insert_absent:
  assumes rep: "ht_rep same hf t m" and inv: "ht_inv same hf t bs" and room: "card (dom (pairs t)) + 1 < 2 ^ 32"
    and absent: "\<And>b pr k'. pairs t b = Some pr \<Longrightarrow> pair_key pr = Some k' \<Longrightarrow> \<not> same k k'"
  shows "\<exists>t'. add_pair mok (unat (hf k) mod numOfBuckets t) (Some k) val t = Done () t' \<and> same_setup t t' \<and>
    ht_rep same hf t' (upd same m k (new_object (ht_value t) val)) \<and> numOfElements t' \<le> numOfElements t + 1"
proof -
  let ?i = "unat (hf k) mod numOfBuckets t" and ?v = "new_object (ht_value t) val"
  have kc: "key_contract same hf (ht_key t)" and c: "ht_counts t" using inv by (simp_all add: ht_inv_def)
  from kc obtain y where y: "new_object (ht_key t) (Some k) = Some y" "same k y" unfolding key_contract_def by blast
  let ?pr = "\<lparr>pair_key = Some y, pair_value = ?v, pair_next = bucketArray t ! ?i, markedForRemove = False\<rparr>"
  from add_pair_links [OF inv bucket_index_run(3) [OF inv, of k], where key = "Some k" and val = val and mok = mok]
  obtain s b where s: "pairs s = (pairs t)(next_pair t \<mapsto> ?pr)" "bucketArray s = (bucketArray t)[?i := Some (next_pair t)]"
      "numOfBuckets s = numOfBuckets t" "same_setup t s" "next_pair s = next_pair t + 1"
      "numOfElements s = add64 (numOfElements t) 1" "pendingRemoves s = pendingRemoves t"
      and run: "add_pair mok ?i (Some k) val t = (if b then HashTable_Rehash mok 0 else ret ()) s"
    unfolding y(1) by (elim exE conjE)
  have "ht_inv same hf s (bs[?i := next_pair t # bs ! ?i])"
    by (rule inv_push [OF inv room absent refl _ y(2) _ _ s]) simp_all
  moreover have "binds same (pairs s) x v \<longleftrightarrow> upd same m k ?v x = Some v" for x v
  proof -
    have "next_pair t \<notin> dom (pairs t)" using c by (auto simp: ht_counts_def)
    then have "(pairs t)(next_pair t := None) = pairs t" by (intro fun_upd_idem) (simp add: domIff)
    then have other: "binds_elsewhere same (pairs t) (next_pair t) x v \<longleftrightarrow> binds same (pairs t) x v"
      using binds_gone [of same "pairs t" "next_pair t" x v] by simp
    have "\<not> binds same (pairs t) x v" if "same k x"
    proof
      assume "binds same (pairs t) x v"
      then obtain b pr k' where "pairs t b = Some pr" "pair_key pr = Some k'" "same x k'"
        unfolding binds_def binds_there_def by auto
      then show False using absent key_contractD(3) [OF kc that] by blast
    qed
    then show ?thesis
      unfolding s(1) binds_at other using rep same_class(2) [OF kc y(2)] by (auto simp: ht_rep_def upd_def)
  qed
  ultimately have "ht_rep same hf s (upd same m k ?v)" unfolding ht_rep_def by blast
  from rehash_rep [OF this, of b mok 0] obtain t' where "(if b then HashTable_Rehash mok 0 else ret ()) s = Done () t'"
      "ht_rep same hf t' (upd same m k ?v)" "same_setup s t'" "numOfElements t' = numOfElements s"
    by (elim exE conjE)
  moreover have "numOfElements s \<le> numOfElements t + 1" unfolding s(6) by (simp add: add64_def)
  ultimately show ?thesis using run same_setup_trans [OF s(4)] by (intro exI [of _ t']) simp
qed

lemma found_live:
  assumes rep: "ht_rep same hf t m" and inv: "ht_inv same hf t bs" and a: "pairs t a = Some pr" "pair_key pr = Some k'"
    and k: "same k k'"
  shows "m k = (if markedForRemove pr then None else Some (pair_value pr))"
proof -
  have kc: "key_contract same hf (ht_key t)" and uk: "unique_keys same (pairs t)" using inv by (simp_all add: ht_inv_def)
  have "(pairs t)(a \<mapsto> pr) = pairs t" using a(1) by (rule fun_upd_idem)
  then have "binds same (pairs t) k v \<longleftrightarrow> \<not> markedForRemove pr \<and> pair_value pr = v" for v
    using binds_at [of same "pairs t" a pr k v] elsewhere_same [OF kc uk a, of k v] a(2) k key_contractD(2) [OF kc k] by simp
  with rep have "m k = Some v \<longleftrightarrow> \<not> markedForRemove pr \<and> pair_value pr = v" for v by (simp add: ht_rep_def)
  then show ?thesis by (cases "m k") (auto split: if_splits)
qed

lemma absent_unbound:
  assumes rep: "ht_rep same hf t m" and absent: "\<And>b pr k'. pairs t b = Some pr \<Longrightarrow> pair_key pr = Some k' \<Longrightarrow> \<not> same k k'"
  shows "m k = None"
proof -
  have "\<not> binds same (pairs t) k v" for v using absent unfolding binds_def binds_there_def by blast
  then show ?thesis using rep unfolding ht_rep_def by (metis not_Some_eq)
qed

text \<open>Inserting, with the outcome for a key that is new when no pair can be allocated.\<close>

lemma insert_rep:
  assumes rep: "ht_rep same hf t m" and room: "card (dom (pairs t)) + 1 < 2 ^ 32" and val: "val \<noteq> None"
  shows "(\<exists>t' v. HashTable_Insert mok (Some k) val t = Done () t' \<and> (v = val \<or> v = new_object (ht_value t) val) \<and>
      same_setup t t' \<and> ht_rep same hf t' (upd same m k v) \<and> numOfElements t' \<le> numOfElements t + 1) \<or>
    HashTable_Insert mok (Some k) val t = Failed t \<and> m k = None \<and> \<not> mok 32"
proof -
  obtain bs where inv: "ht_inv same hf t bs" using rep by (auto simp: ht_rep_def)
  let ?i = "unat (hf k) mod numOfBuckets t"
  note step = bucket_index_run(1,2) [OF inv, of k]
  show ?thesis
  proof (cases rule: find_pair_cases [OF inv refl, of k, case_names found absent])
    case (found xs a ys pr k')
    then have "HashTable_Insert mok (Some k) val t = update_pair (Some a) (Some k) val t"
      using val by (auto simp: HashTable_Insert_def bind_def gets_def step)
    then show ?thesis using insert_found [OF rep inv found(2-4), of val] by simp
  next
    case (absent q)
    then have eq: "HashTable_Insert mok (Some k) val t = (if \<not> mok 32 then fail else add_pair mok ?i (Some k) val) t"
      using val by (auto simp: HashTable_Insert_def bind_def gets_def step)
    show ?thesis
    proof (cases "mok 32")
      case True
      have "\<exists>t'. add_pair mok ?i (Some k) val t = Done () t' \<and> same_setup t t' \<and>
          ht_rep same hf t' (upd same m k (new_object (ht_value t) val)) \<and> numOfElements t' \<le> numOfElements t + 1"
        by (rule insert_absent [OF rep inv room]) (rule absent(1))
      then show ?thesis using eq True by auto
    next
      case False
      have "m k = None" by (rule absent_unbound [OF rep]) (rule absent(1))
      with False show ?thesis using eq by (simp add: fail_def)
    qed
  qed
qed

text \<open>Looking up.\<close>

lemma lookup_rep:
  assumes rep: "ht_rep same hf t m"
  shows "HashTable_GetItemValue (Some k) t = Done (case m k of None \<Rightarrow> None | Some v \<Rightarrow> v) t"
    and "HashTable_Contains (Some k) t = Done (m k \<noteq> None) t"
proof -
  obtain bs where inv: "ht_inv same hf t bs" using rep by (auto simp: ht_rep_def)
  note step = bucket_index_run(1,2) [OF inv, of k]
  have "HashTable_GetItemValue (Some k) t = Done (case m k of None \<Rightarrow> None | Some v \<Rightarrow> v) t \<and>
      HashTable_Contains (Some k) t = Done (m k \<noteq> None) t"
  proof (cases rule: find_pair_cases [OF inv refl, of k, case_names found absent])
    case (found xs a ys pr k')
    have get: "HashTable_Get (Some k) t = Done (Some a) t"
      using found(5) by (simp add: HashTable_Get_def bind_def gets_def step ret_def)
    have "m k = (if markedForRemove pr then None else Some (pair_value pr))"
      by (rule found_live [OF rep inv found(2-4)])
    then show ?thesis
      using get found(2) by (simp add: HashTable_GetItemValue_def HashTable_Contains_def bind_def ret_def)
  next
    case (absent q)
    have get: "HashTable_Get (Some k) t = Done None t"
      using absent(2) by (simp add: HashTable_Get_def bind_def gets_def step ret_def)
    have "m k = None" by (rule absent_unbound [OF rep]) (rule absent(1))
    then show ?thesis using get by (simp add: HashTable_GetItemValue_def HashTable_Contains_def bind_def ret_def)
  qed
  then show "HashTable_GetItemValue (Some k) t = Done (case m k of None \<Rightarrow> None | Some v \<Rightarrow> v) t"
    "HashTable_Contains (Some k) t = Done (m k \<noteq> None) t" by simp_all
qed

section \<open>Removing\<close>

text \<open>Taking one pair out of its list and out of the store.\<close>

definition unlinked :: "('k, 'v) store \<Rightarrow> nat pointer list \<Rightarrow> nat \<Rightarrow> nat list \<Rightarrow> nat pointer \<Rightarrow>
    ('k, 'v) store \<Rightarrow> nat pointer list \<Rightarrow> bool" where
  "unlinked h arr i xs nx h' arr' \<longleftrightarrow>
     (if xs = [] then h' = h \<and> arr' = arr[i := nx]
      else (\<exists>q. h (last xs) = Some q \<and> h' = h(last xs \<mapsto> q\<lparr>pair_next := nx\<rparr>)) \<and> arr' = arr)"

lemma unlinked_core: "unlinked h arr i xs nx h' arr' \<Longrightarrow> same_core h h'"
  using same_core_link by (fastforce simp: unlinked_def split: if_splits)

lemma unlinked_frame:
  "unlinked h arr i xs nx h' arr' \<Longrightarrow> b \<notin> set xs \<Longrightarrow> h' b = h b"
  "unlinked h arr i xs nx h' arr' \<Longrightarrow> length arr' = length arr"
  "unlinked h arr i xs nx h' arr' \<Longrightarrow> j \<noteq> i \<Longrightarrow> arr' ! j = arr ! j"
  by (auto simp: unlinked_def split: if_splits)

lemma unlinked_chain:
  assumes ch: "chain h (arr ! i) (xs @ a # ys)" and d: "distinct (xs @ a # ys)" and i: "i < length arr"
    and a: "h a = Some pr" and un: "unlinked h arr i xs (pair_next pr) h' arr'"
  shows "chain h' (arr' ! i) (xs @ ys)"
proof (cases "xs = []")
  case True
  then show ?thesis using un ch a i by (auto simp: unlinked_def)
next
  case False
  then obtain q where "h (last xs) = Some q" "h' = h(last xs \<mapsto> q\<lparr>pair_next := pair_next pr\<rparr>)" "arr' = arr"
    using un by (auto simp: unlinked_def)
  then show ?thesis using chain_unlink [OF ch d a False] by simp
qed

lemma threaded_unlink:
  assumes th: "threaded hf n h arr bs" and i: "i < n" and bs: "bs ! i = xs @ a # ys" and a: "h a = Some pr"
    and un: "unlinked h arr i xs (pair_next pr) h' arr'"
  shows "threaded hf n (h'(a := None)) arr' (bs[i := xs @ ys])"
  unfolding threaded_def
proof (intro conjI allI impI ballI)
  have len: "length arr = n" "length bs = n" using th by (simp_all add: threaded_def)
  have d: "distinct (xs @ a # ys)" using threadedD(2) [OF th i] bs by simp
  have sub: "set (bs[i := xs @ ys] ! j) \<subseteq> set (bs ! j)" and na: "a \<notin> set (bs[i := xs @ ys] ! j)" if j: "j < n" for j
  proof -
    show "set (bs[i := xs @ ys] ! j) \<subseteq> set (bs ! j)" using bs i len by (cases "j = i") auto
    show "a \<notin> set (bs[i := xs @ ys] ! j)"
      using d bs i len threaded_one_list [OF th i j, of a] by (cases "j = i") auto
  qed
  show "length arr' = n" "length (bs[i := xs @ ys]) = n" using len unlinked_frame(2) [OF un] by simp_all
  fix j
  assume j: "j < n"
  have "chain h' (arr' ! j) (bs[i := xs @ ys] ! j)"
  proof (cases "j = i")
    case True
    then show ?thesis using unlinked_chain [OF _ d _ a un] threadedD(1) [OF th i] bs i len by simp
  next
    case False
    have "h' b = h b" if "b \<in> set (bs ! j)" for b
      using that False threaded_one_list [OF th i j, of b] bs by (intro unlinked_frame(1) [OF un]) auto
    then show ?thesis
      using threadedD(1) [OF th j] chain_cong [of "bs ! j" h' h] False unlinked_frame(3) [OF un False] by simp
  qed
  then show "chain (h'(a := None)) (arr' ! j) (bs[i := xs @ ys] ! j)" using na [OF j] by simp
  show "distinct (bs[i := xs @ ys] ! j)" using threadedD(2) [OF th j] d i len by (cases "j = i") auto
  fix b
  assume b: "b \<in> set (bs[i := xs @ ys] ! j)"
  with sub [OF j] obtain q k where "h b = Some q" "pair_key q = Some k" "unat (hf k) mod n = j"
    using threadedD(3) [OF th j, of b] by blast
  moreover have "b \<noteq> a" using b na [OF j] by auto
  ultimately show "\<exists>pr k. (h'(a := None)) b = Some pr \<and> pair_key pr = Some k \<and> unat (hf k) mod n = j"
    using same_core_Some [OF unlinked_core [OF un], of b q] by (metis fun_upd_other)
qed

lemma unlink_lists:
  assumes "distinct (concat bs)" and "i < length bs" and "bs ! i = xs @ a # ys"
  shows "set (concat (bs[i := xs @ ys])) = set (concat bs) - {a}"
proof -
  obtain us vs where bs: "bs = us @ (xs @ a # ys) # vs" "length us = i"
    using id_take_nth_drop [OF assms(2)] assms(2,3) by force
  then have "bs[i := xs @ ys] = us @ (xs @ ys) # vs" by (metis list_update_length)
  then show ?thesis using assms(1) bs(1) by auto
qed

lemma unique_del: "unique_keys same h \<Longrightarrow> unique_keys same (h(a := None))"
  unfolding unique_keys_def by (metis fun_upd_apply option.discI)

lemma counts_less:
  assumes c: "ht_counts t" and a: "pairs t a = Some pr" "\<not> markedForRemove pr"
  shows "sub64 (numOfElements t) 1 = card (live (pairs t) - {a})"
proof -
  have "a \<in> live (pairs t)" using a by simp
  then have "0 < card (live (pairs t))" using counts_finite(1) [OF c] card_gt_0_iff by blast
  moreover have "card (live (pairs t) - {a}) = card (live (pairs t)) - 1" using \<open>a \<in> live (pairs t)\<close> by (rule card_Diff_singleton)
  ultimately show ?thesis using c counts_finite(3) [OF c] by (auto simp: ht_counts_def)
qed

lemma inv_unlink:
  assumes inv: "ht_inv same hf t bs" and i: "i < numOfBuckets t" and bs: "bs ! i = xs @ a # ys"
    and a: "pairs t a = Some pr" "\<not> markedForRemove pr"
    and un: "unlinked (pairs t) (bucketArray t) i xs (pair_next pr) h' (bucketArray t')"
    and t': "pairs t' = h'(a := None)" "numOfBuckets t' = numOfBuckets t" "same_setup t t'" "next_pair t' = next_pair t"
      "numOfElements t' = sub64 (numOfElements t) 1" "pendingRemoves t' = pendingRemoves t"
  shows "ht_inv same hf t' (bs[i := xs @ ys])"
proof -
  have th: "threaded hf (numOfBuckets t) (pairs t) (bucketArray t) bs" and c: "ht_counts t"
    and uk: "unique_keys same (pairs t)" and dom: "dom (pairs t) = set (concat bs)"
    using inv by (simp_all add: ht_inv_def)
  have sc: "same_core (pairs t) h'" by (rule unlinked_core [OF un])
  have len: "length bs = numOfBuckets t" using th by (simp add: threaded_def)
  have lists: "set (concat (bs[i := xs @ ys])) = set (concat bs) - {a}"
    using threaded_concat_distinct [OF th] i len bs by (intro unlink_lists) simp_all
  have "threaded hf (numOfBuckets t) (pairs t') (bucketArray t') (bs[i := xs @ ys])"
    unfolding t'(1) by (rule threaded_unlink [OF th i bs a(1) un])
  moreover have dom': "dom (pairs t') = dom (pairs t) - {a}" using t'(1) same_core_dom [OF sc] by simp
  moreover have "unique_keys same (pairs t')" unfolding t'(1) by (rule unique_del [OF same_core_unique [OF sc uk]])
  moreover have "ht_counts t'"
  proof -
    have "live (pairs t') = live (pairs t) - {a}" "doomed (pairs t') = doomed (pairs t) - {a}"
      using same_core_sets [OF sc] t'(1) by (simp_all add: live_del doomed_del)
    moreover have "a \<notin> doomed (pairs t)" using a by simp
    moreover have "card (dom (pairs t')) \<le> card (dom (pairs t))"
      using c dom' by (intro card_mono) (auto simp: ht_counts_def)
    ultimately show ?thesis using c t'(3-6) dom' counts_less [OF c a] by (auto simp: ht_counts_def same_setup_def)
  qed
  ultimately show ?thesis using inv t'(2,3) dom lists by (simp add: ht_inv_def same_setup_def)
qed

text \<open>Marking a pair during an iteration.\<close>

lemma inv_mark:
  assumes inv: "ht_inv same hf t bs" and a: "pairs t a = Some pr" "\<not> markedForRemove pr"
    and level: "foreachRecursionLevel t \<noteq> 0"
    and t': "pairs t' = (pairs t)(a \<mapsto> pr\<lparr>markedForRemove := True\<rparr>)" "bucketArray t' = bucketArray t"
      "numOfBuckets t' = numOfBuckets t" "same_setup t t'" "next_pair t' = next_pair t"
      "numOfElements t' = sub64 (numOfElements t) 1" "pendingRemoves t' = pendingRemoves t + 1"
  shows "ht_inv same hf t' bs"
proof -
  have c: "ht_counts t" and kc: "key_contract same hf (ht_key t)" using inv by (simp_all add: ht_inv_def)
  obtain k where k: "pair_key pr = Some k" using ht_pairE [OF inv a(1)] by blast
  have "ht_counts t'"
  proof -
    have "live (pairs t') = live (pairs t) - {a}" "doomed (pairs t') = insert a (doomed (pairs t))"
      using t'(1) by (simp_all add: live_upd doomed_upd)
    moreover have "a \<notin> doomed (pairs t)" using a by simp
    moreover have "dom (pairs t') = dom (pairs t)" using t'(1) a(1) by auto
    ultimately show ?thesis
      using c t'(4-7) counts_less [OF c a] counts_finite(2) [OF c] level by (simp add: ht_counts_def same_setup_def)
  qed
  then show ?thesis
    using inv_replace [OF inv a(1) k _ _ _ t'(1-4)] k key_contractD(1) [OF kc] by simp
qed

lemma disposePair_run:
  assumes "pairs t a = Some pr"
  shows "\<exists>t'. disposePair (Some a) t = Done () t' \<and> pairs t' = (pairs t)(a := None) \<and> only_pairs t t'"
proof -
  obtain t1 where t1: "disposeKey (pair_key pr) t = Done () t1" "pairs t1 = pairs t" "only_pairs t t1"
    using dispose_run(1) by blast
  obtain t2 where t2: "disposeValue (pair_value pr) t1 = Done () t2" "pairs t2 = pairs t1" "only_pairs t1 t2"
    using dispose_run(2) by blast
  have "disposePair (Some a) t = Done () (t2\<lparr>pairs := (pairs t)(a := None)\<rparr>)"
    using assms t1(1,2) t2(1,2) by (simp add: disposePair_def bind_def seq_def modify_def)
  moreover have "only_pairs t (t2\<lparr>pairs := (pairs t)(a := None)\<rparr>)"
    using only_pairs_trans [OF t1(3) t2(3)] by (simp add: only_pairs_def same_setup_def)
  ultimately show ?thesis by simp
qed

text \<open>The two ways of taking a pair out of the list.\<close>

lemma unlink_run:
  assumes inv: "ht_inv same hf t bs" and i: "i < numOfBuckets t" and bs: "bs ! i = xs @ a # ys"
    and a: "pairs t a = Some pr"
  defines "prev \<equiv> if xs = [] then None else Some (last xs)"
  shows "\<exists>t'. (if prev \<noteq> None then assign_pair prev (\<lambda>q. q\<lparr>pair_next := pair_next pr\<rparr>)
      else set_bucket i (pair_next pr)) t = Done () t' \<and>
    unlinked (pairs t) (bucketArray t) i xs (pair_next pr) (pairs t') (bucketArray t') \<and> pairs t' a = Some pr \<and>
    t' = t\<lparr>pairs := pairs t', bucketArray := bucketArray t'\<rparr>"
proof -
  have th: "threaded hf (numOfBuckets t) (pairs t) (bucketArray t) bs" using inv by (simp add: ht_inv_def)
  have len: "length (bucketArray t) = numOfBuckets t" using th by (simp add: threaded_def)
  show ?thesis
  proof (cases "xs = []")
    case True
    then show ?thesis using i len a by (simp add: prev_def set_bucket_def unlinked_def)
  next
    case False
    then have "last xs \<in> set (bs ! i)" using bs by simp
    then obtain q where q: "pairs t (last xs) = Some q" using threadedD(3) [OF th i] by blast
    have "last xs \<noteq> a" using threadedD(2) [OF th i] bs False by auto
    then show ?thesis using False q a by (simp add: prev_def unlinked_def)
  qed
qed

lemma remove_unlinks:
  assumes inv: "ht_inv same hf t bs" and a: "pairs t a = Some pr" "\<not> markedForRemove pr"
    and level: "foreachRecursionLevel t = 0" and i: "i = unat (hf k) mod numOfBuckets t" and bs: "bs ! i = xs @ a # ys"
    and find: "find_pair (Some k) (bucketArray t ! i) t = Done (if xs = [] then None else Some (last xs), Some a) t"
  shows "\<exists>s h b. HashTable_Remove mok (Some k) t = (if b then HashTable_Rehash mok 0 else ret ()) s \<and>
    same_core (pairs t) h \<and> pairs s = h(a := None) \<and> ht_inv same hf s (bs[i := xs @ ys]) \<and> same_setup t s \<and>
    numOfElements s = sub64 (numOfElements t) 1"
proof -
  let ?prev = "if xs = [] then None else Some (last xs)"
  have i': "i < numOfBuckets t" using bucket_index_run(3) [OF inv] i by simp
  note step = bucket_index_run(1,2) [OF inv, of k, folded i]
  obtain t1 where t1: "(if ?prev \<noteq> None then assign_pair ?prev (\<lambda>q. q\<lparr>pair_next := pair_next pr\<rparr>)
      else set_bucket i (pair_next pr)) t = Done () t1"
      "unlinked (pairs t) (bucketArray t) i xs (pair_next pr) (pairs t1) (bucketArray t1)" "pairs t1 a = Some pr"
      "t1 = t\<lparr>pairs := pairs t1, bucketArray := bucketArray t1\<rparr>"
    using unlink_run [OF inv i' bs a(1)] by (elim exE conjE)
  obtain t2 where t2: "disposePair (Some a) t1 = Done () t2" "pairs t2 = (pairs t1)(a := None)" "only_pairs t1 t2"
    using disposePair_run [OF t1(3)] by (elim exE conjE)
  define s where "s = t2\<lparr>numOfElements := sub64 (numOfElements t2) 1\<rparr>"
  have f1: "numOfBuckets t1 = numOfBuckets t" "same_setup t t1" "next_pair t1 = next_pair t"
      "numOfElements t1 = numOfElements t" "pendingRemoves t1 = pendingRemoves t"
    by (subst t1(4), simp add: same_setup_def)+
  have fs: "pairs s = (pairs t1)(a := None)" "bucketArray s = bucketArray t1" "numOfBuckets s = numOfBuckets t"
      "same_setup t s" "next_pair s = next_pair t" "numOfElements s = sub64 (numOfElements t) 1"
      "pendingRemoves s = pendingRemoves t"
    using t2(2,3) f1 by (simp_all add: s_def only_pairs_def same_setup_def)
  let ?b = "lowerRehashThreshold s > 0 \<and> fdiv (numOfElements s) (float32 (of_nat (numOfBuckets s))) < lowerRehashThreshold s"
  have "HashTable_Remove mok (Some k) t = (if ?b then HashTable_Rehash mok 0 else ret ()) s"
    unfolding HashTable_Remove_def using level a(1) t1(1) t2(1)
    by (simp add: bind_def seq_def gets_def step find modify_def s_def split del: if_split)
  moreover have "ht_inv same hf s (bs[i := xs @ ys])"
    by (rule inv_unlink [OF inv i' bs a _ fs(1,3-7)]) (use t1(2) fs(2) in simp)
  ultimately show ?thesis using unlinked_core [OF t1(2)] fs by blast
qed

lemma doomed_none: "ht_inv same hf t bs \<Longrightarrow> foreachRecursionLevel t = 0 \<Longrightarrow> pairs t a = Some pr \<Longrightarrow> \<not> markedForRemove pr"
  using doomed_iff [of "pairs t" a pr] by (auto simp: ht_inv_def ht_counts_def)

lemma remove_marks:
  assumes inv: "ht_inv same hf t bs" and a: "pairs t a = Some pr" "pair_key pr = Some k'" "same k k'"
      "\<not> markedForRemove pr"
    and level: "foreachRecursionLevel t \<noteq> 0"
  shows "\<exists>t'. HashTable_Remove mok (Some k) t = Done () t' \<and> ht_inv same hf t' bs \<and> same_setup t t' \<and>
    pairs t' = (pairs t)(a \<mapsto> pr\<lparr>markedForRemove := True\<rparr>) \<and> numOfBuckets t' = numOfBuckets t \<and> numOfElements t' = sub64 (numOfElements t) 1"
proof -
  have kc: "key_contract same hf (ht_key t)" and uk: "unique_keys same (pairs t)" using inv by (simp_all add: ht_inv_def)
  note step = bucket_index_run(1,2) [OF inv, of k]
  show ?thesis
  proof (cases rule: find_pair_cases [OF inv refl, of k, case_names found absent])
    case (found xs b ys q k2)
    then have "same k' k2" using same_class(1) [OF kc a(3)] by simp
    then have "a = b" using uk a(1,2) found(2,3) unfolding unique_keys_def by blast
    define t' where "t' = t\<lparr>pairs := (pairs t)(a \<mapsto> pr\<lparr>markedForRemove := True\<rparr>), pendingRemoves := pendingRemoves t + 1,
      numOfElements := sub64 (numOfElements t) 1\<rparr>"
    have "HashTable_Remove mok (Some k) t = Done () t'"
      unfolding HashTable_Remove_def using level a(1) \<open>a = b\<close>
      by (simp add: bind_def seq_def gets_def step found(5) modify_def t'_def)
    moreover have "ht_inv same hf t' bs"
      by (rule inv_mark [OF inv a(1,4) level]) (simp_all add: t'_def same_setup_def)
    ultimately show ?thesis by (intro exI [of _ t']) (simp add: t'_def same_setup_def)
  next
    case (absent q)
    then show ?thesis using absent(1) [OF a(1,2)] a(3) by simp
  qed
qed

text \<open>
  Removing a bound key takes it out of the map, outside of an iteration and within one. Outside of an
  iteration, removing an unbound key is reported.
\<close>

lemma remove_bound:
  assumes rep: "ht_rep same hf t m" and k: "m k \<noteq> None"
  shows "\<exists>t'. HashTable_Remove mok (Some k) t = Done () t' \<and> same_setup t t' \<and> ht_rep same hf t' (del same m k) \<and>
    numOfElements t' = numOfElements t - 1"
proof -
  obtain bs where inv: "ht_inv same hf t bs" using rep by (auto simp: ht_rep_def)
  let ?i = "unat (hf k) mod numOfBuckets t"
  have kc: "key_contract same hf (ht_key t)" and uk: "unique_keys same (pairs t)" and c: "ht_counts t"
    using inv by (simp_all add: ht_inv_def)
  note step = bucket_index_run(1,2) [OF inv, of k]
  show ?thesis
  proof (cases rule: find_pair_cases [OF inv refl, of k, case_names found absent])
    case (found xs a ys pr k')
    then have alive: "\<not> markedForRemove pr" using found_live [OF rep inv found(2-4)] k by auto
    have gone: "\<not> same k' x \<and> binds same (pairs t) x v \<longleftrightarrow> del same m k x = Some v" for x v
      using rep same_class(1) [OF kc found(4)] by (simp add: ht_rep_def del_def)
    have n: "sub64 (numOfElements t) 1 = numOfElements t - 1"
      using counts_less [OF c found(2) alive] found(2) alive c counts_finite(1) [OF c] by (simp add: ht_counts_def)
    show ?thesis
    proof (cases "foreachRecursionLevel t = 0")
      case True
      obtain s h b where s: "HashTable_Remove mok (Some k) t = (if b then HashTable_Rehash mok 0 else ret ()) s"
          "same_core (pairs t) h" "pairs s = h(a := None)" "ht_inv same hf s (bs[?i := xs @ ys])" "same_setup t s"
          "numOfElements s = sub64 (numOfElements t) 1"
        using remove_unlinks [where mok = mok, OF inv found(2) alive True refl found(1,5)] by (elim exE conjE)
      obtain pr' where pr': "h a = Some pr'" "pair_key pr' = Some k'" using same_core_Some [OF s(2) found(2)] found(3) by metis
      have "binds same (pairs s) x v \<longleftrightarrow> del same m k x = Some v" for x v
        unfolding s(3) binds_doom(1) [OF kc same_core_unique [OF s(2) uk] pr'] same_core_binds [OF s(2)] by (rule gone)
      then have "ht_rep same hf s (del same m k)" using s(4) unfolding ht_rep_def by blast
      from rehash_rep [OF this, of b mok 0] show ?thesis using s(1,6) n same_setup_trans [OF s(5)] by fastforce
    next
      case False
      obtain t' where t': "HashTable_Remove mok (Some k) t = Done () t'" "ht_inv same hf t' bs" "same_setup t t'"
          "pairs t' = (pairs t)(a \<mapsto> pr\<lparr>markedForRemove := True\<rparr>)" "numOfElements t' = sub64 (numOfElements t) 1"
        using remove_marks [where mok = mok, OF inv found(2-4) alive False] by (elim exE conjE)
      have "binds same (pairs t') x v \<longleftrightarrow> del same m k x = Some v" for x v
        using binds_doom(2) [OF kc uk found(2,3), of "pr\<lparr>markedForRemove := True\<rparr>" x v] gone t'(4) by simp
      with t'(2) have "ht_rep same hf t' (del same m k)" unfolding ht_rep_def by blast
      then show ?thesis using t'(1,3,5) n by auto
    qed
  next
    case (absent q)
    have "m k = None" by (rule absent_unbound [OF rep]) (rule absent(1))
    then show ?thesis using k by simp
  qed
qed

lemma remove_unbound:
  assumes rep: "ht_rep same hf t m" and k: "m k = None" and level: "foreachRecursionLevel t = 0"
  shows "HashTable_Remove mok (Some k) t = Failed t"
proof -
  obtain bs where inv: "ht_inv same hf t bs" using rep by (auto simp: ht_rep_def)
  note step = bucket_index_run(1,2) [OF inv, of k]
  show ?thesis
  proof (cases rule: find_pair_cases [OF inv refl, of k, case_names found absent])
    case (found xs a ys pr k')
    then show ?thesis using found_live [OF rep inv found(2-4)] doomed_none [OF inv level found(2)] k by simp
  next
    case (absent q)
    then show ?thesis unfolding HashTable_Remove_def by (simp add: bind_def gets_def step fail_def)
  qed
qed

end
