(* ===== verification/HashTableForeach.thy ===== *)
theory HashTableForeach
  imports HashTableMap
begin

text \<open>
  Iterating over a hash table: a rule for \<^verbatim>\<open>HashTable_Foreach\<close>, the sweep that frees marked pairs after
  the outermost iteration, callbacks that remove the pair they are called on, and callbacks that search.
\<close>

section \<open>Iterating\<close>

text \<open>
  The rule for an iteration. \<open>P rest st\<close> holds before each round, with \<open>rest\<close> the pairs still to come
  in the order of the buckets; it implies that the lists are those of the start, so a callback may mark
  pairs and set values but not add pairs.
\<close>

definition keeps_lists :: "('k \<Rightarrow> u32) \<Rightarrow> nat \<Rightarrow> nat list list \<Rightarrow>
    (nat list \<Rightarrow> ('k, 'v) wHashTable \<times> 'c \<Rightarrow> bool) \<Rightarrow> bool" where
  "keeps_lists hf n bs P \<longleftrightarrow> (\<forall>rest st. P rest st \<longrightarrow>
     threaded hf n (pairs (fst st)) (bucketArray (fst st)) bs \<and> numOfBuckets (fst st) = n)"

lemma keeps_listsD:
  assumes "keeps_lists hf n bs P" and "P rest st"
  shows "threaded hf n (pairs (fst st)) (bucketArray (fst st)) bs" and "numOfBuckets (fst st) = n" and "length bs = n"
proof -
  have "threaded hf n (pairs (fst st)) (bucketArray (fst st)) bs \<and> numOfBuckets (fst st) = n"
    using assms unfolding keeps_lists_def by blast
  then show "threaded hf n (pairs (fst st)) (bucketArray (fst st)) bs" "numOfBuckets (fst st) = n" "length bs = n"
    by (simp_all add: threaded_def)
qed

definition foreach_step :: "('k, 'v, 'c) foreach_fn \<Rightarrow> (nat list \<Rightarrow> ('k, 'v) wHashTable \<times> 'c \<Rightarrow> bool) \<Rightarrow> bool" where
  "foreach_step fn P \<longleftrightarrow> (\<forall>a rest st pr. P (a # rest) st \<and> pairs (fst st) a = Some pr \<longrightarrow>
     (if markedForRemove pr then P rest st
      else \<exists>st'. fn (pair_key pr) (pair_value pr) st = Done True st' \<and> P rest st'))"

lemma foreach_stepD:
  assumes "foreach_step fn P" and "P (a # rest) st" and "pairs (fst st) a = Some pr"
  shows "markedForRemove pr \<Longrightarrow> P rest st"
    and "\<not> markedForRemove pr \<Longrightarrow> \<exists>st'. fn (pair_key pr) (pair_value pr) st = Done True st' \<and> P rest st'"
  using assms unfolding foreach_step_def by presburger+

lemma foreach_pairs_run:
  assumes lists: "keeps_lists hf n bs P" and step: "foreach_step fn P" and i: "i < n"
  shows "bs ! i = before @ as \<Longrightarrow> P (as @ later) st \<Longrightarrow> chain (pairs (fst st)) p as \<Longrightarrow>
    \<exists>st'. foreach_pairs fn p st = Some (Done True st') \<and> P later st'"
proof (induction as arbitrary: before p st)
  case Nil
  then show ?case by (subst foreach_pairs.simps) simp
next
  case (Cons a as)
  from Cons.prems(3) obtain pr where pr: "p = Some a" "pairs (fst st) a = Some pr" "chain (pairs (fst st)) (pair_next pr) as"
    by auto
  have P: "P (a # as @ later) st" using Cons.prems(2) by simp
  have bs: "bs ! i = (before @ [a]) @ as" using Cons.prems(1) by simp
  show ?case
  proof (cases "markedForRemove pr")
    case True
    then have "foreach_pairs fn p st = foreach_pairs fn (pair_next pr) st" using pr by (subst foreach_pairs.simps) simp
    then show ?thesis using Cons.IH [OF bs foreach_stepD(1) [OF step P pr(2) True] pr(3)] by simp
  next
    case False
    with foreach_stepD(2) [OF step P pr(2)] obtain st' where st': "fn (pair_key pr) (pair_value pr) st = Done True st'"
        "P (as @ later) st'"
      by blast
    note th = keeps_listsD(1) [OF lists st'(2)]
    have "a \<in> set (bs ! i)" using bs by simp
    then obtain pr' where pr': "pairs (fst st') a = Some pr'" using threadedD(3) [OF th i] by blast
    have "chain (pairs (fst st')) (pair_next pr') as"
      using chain_next [of "pairs (fst st')" "bucketArray (fst st') ! i" before a as pr'] threadedD(1) [OF th i] bs pr' by simp
    moreover have "foreach_pairs fn p st = foreach_pairs fn (pair_next pr') st'"
      using pr st'(1) False pr' by (subst foreach_pairs.simps) simp
    ultimately show ?thesis using Cons.IH [OF bs st'(2)] by simp
  qed
qed

lemma foreach_buckets_run:
  assumes lists: "keeps_lists hf n bs P" and step: "foreach_step fn P"
  shows "i \<le> n \<Longrightarrow> P (concat (drop i bs)) st \<Longrightarrow>
    \<exists>st'. foreach_buckets fn i st = Some (Done True st') \<and> P [] st'"
proof (induction "n - i" arbitrary: i st)
  case 0
  then show ?case using keeps_listsD(2,3) [OF lists 0(3)] by (subst foreach_buckets.simps) simp
next
  case (Suc x)
  then have i: "i < n" by simp
  note th = keeps_listsD(1) [OF lists Suc.prems(2)] and n = keeps_listsD(2) [OF lists Suc.prems(2)]
  have len: "length bs = n" "length (bucketArray (fst st)) = n" using th by (simp_all add: threaded_def)
  have "drop i bs = bs ! i # drop (Suc i) bs" using i len by (simp add: Cons_nth_drop_Suc)
  then have "P (bs ! i @ concat (drop (Suc i) bs)) st" using Suc.prems(2) by simp
  from foreach_pairs_run [OF lists step i _ this threadedD(1) [OF th i], of "[]"] obtain st' where
      st': "foreach_pairs fn (bucketArray (fst st) ! i) st = Some (Done True st')" "P (concat (drop (Suc i) bs)) st'"
    by auto
  have "foreach_buckets fn i st = foreach_buckets fn (Suc i) st'"
    using st'(1) n len i by (subst foreach_buckets.simps) simp
  moreover have "x = n - Suc i" "Suc i \<le> n" using Suc.hyps(2) i by linarith+
  ultimately show ?case using Suc.hyps(1) [of "Suc i" st'] st'(2) by simp
qed

subsection \<open>The sweep\<close>

text \<open>Marked pairs may be gone, the others are as before up to their links.\<close>

definition pruned :: "('k, 'v) store \<Rightarrow> ('k, 'v) store \<Rightarrow> bool" where
  "pruned h h' \<longleftrightarrow> (\<forall>a. h' a = None \<and> a \<notin> live h \<or> map_option core (h' a) = map_option core (h a))"

lemma core_live: "map_option core (h' a) = map_option core (h a) \<Longrightarrow> a \<in> live h' \<longleftrightarrow> a \<in> live h"
  by (cases "h a"; cases "h' a") (auto simp: live_def dest: core_fields)

lemma prunedE:
  assumes "pruned h h'"
  obtains "h' a = None" "a \<notin> live h" | "map_option core (h' a) = map_option core (h a)"
  using spec [OF assms [unfolded pruned_def], of a] by (elim disjE conjE)

lemma pruned_live:
  assumes "pruned h h'"
  shows "live h' = live h"
proof (intro set_eqI)
  fix a
  show "a \<in> live h' \<longleftrightarrow> a \<in> live h" by (rule prunedE [OF assms, of a]) (auto simp: live_def dest: core_live)
qed

lemma pruned_refl: "pruned h h"
  by (simp add: pruned_def)

lemma pruned_trans:
  assumes "pruned h h1" and "pruned h1 h2"
  shows "pruned h h2"
  unfolding pruned_def
proof
  fix a
  show "h2 a = None \<and> a \<notin> live h \<or> map_option core (h2 a) = map_option core (h a)"
    by (rule prunedE [OF assms(1), of a]; rule prunedE [OF assms(2), of a]) (use pruned_live [OF assms(1)] in auto)
qed

lemma pruned_core: "same_core h h' \<Longrightarrow> pruned h h'"
  by (simp add: pruned_def same_core_def)

lemma pruned_del: "a \<notin> live h \<Longrightarrow> pruned h (h(a := None))"
  by (simp add: pruned_def)

lemma pruned_Some:
  assumes "pruned h h'" and "h' a = Some pr'"
  obtains pr where "h a = Some pr" "pair_key pr = pair_key pr'" "pair_value pr = pair_value pr'"
    "markedForRemove pr = markedForRemove pr'"
proof -
  have "map_option core (h a) = Some (core pr')" by (rule prunedE [OF assms(1), of a]) (use assms(2) in simp_all)
  then obtain pr where pr: "h a = Some pr" "core pr = core pr'" by auto
  from core_fields [OF pr(2)] pr(1) show thesis by (intro that [of pr]) simp_all
qed

lemma pruned_binds:
  assumes "pruned h h'"
  shows "binds same h' x v \<longleftrightarrow> binds same h x v"
proof -
  have "binds_there same (h' a) x v \<longleftrightarrow> binds_there same (h a) x v" for a
  proof (cases "h' a")
    case None
    then have "a \<notin> live h'" by (simp add: live_def)
    then have "a \<notin> live h" using pruned_live [OF assms] by simp
    then show ?thesis using None by (auto simp: binds_there_def live_def)
  next
    case (Some pr')
    from pruned_Some [OF assms Some] obtain pr where "h a = Some pr" "pair_key pr = pair_key pr'"
        "pair_value pr = pair_value pr'" "markedForRemove pr = markedForRemove pr'" .
    then show ?thesis using Some by (simp add: binds_there_def)
  qed
  then show ?thesis by (simp add: binds_def)
qed

lemma pruned_unique:
  assumes "pruned h h'" and "unique_keys same h"
  shows "unique_keys same h'"
  unfolding unique_keys_def
proof (intro allI impI, elim conjE)
  fix a b pa pb ka kb
  assume *: "h' a = Some pa" "h' b = Some pb" "pair_key pa = Some ka" "pair_key pb = Some kb" "same ka kb"
  obtain qa where "h a = Some qa" "pair_key qa = Some ka" using pruned_Some [OF assms(1) *(1)] *(3) by metis
  moreover obtain qb where "h b = Some qb" "pair_key qb = Some kb" using pruned_Some [OF assms(1) *(2)] *(4) by metis
  ultimately show "a = b" using assms(2) *(5) unfolding unique_keys_def by blast
qed

definition same_frame :: "('k, 'v) wHashTable \<Rightarrow> ('k, 'v) wHashTable \<Rightarrow> bool" where
  "same_frame t t' \<longleftrightarrow> same_setup t t' \<and> numOfBuckets t' = numOfBuckets t \<and> next_pair t' = next_pair t \<and>
     numOfElements t' = numOfElements t \<and> pendingRemoves t' = pendingRemoves t"

lemma same_frame_refl: "same_frame t t"
  by (simp add: same_frame_def)

lemma same_frame_trans: "same_frame t t1 \<Longrightarrow> same_frame t1 t2 \<Longrightarrow> same_frame t t2"
  by (auto simp: same_frame_def elim: same_setup_trans)

definition sweeping :: "('k \<Rightarrow> u32) \<Rightarrow> ('k, 'v) wHashTable \<Rightarrow> ('k, 'v) wHashTable \<Rightarrow> nat list list \<Rightarrow> bool" where
  "sweeping hf t0 t bs \<longleftrightarrow> threaded hf (numOfBuckets t0) (pairs t) (bucketArray t) bs \<and> dom (pairs t) = set (concat bs) \<and>
     pruned (pairs t0) (pairs t) \<and> same_frame t0 t"

lemma sweep_step:
  assumes sw: "sweeping hf t0 t bs" and i: "i < numOfBuckets t0" and bs: "bs ! i = xs @ a # ys"
    and pr: "pairs t a = Some pr" "markedForRemove pr"
  defines "prev \<equiv> if xs = [] then None else Some (last xs)"
  shows "\<exists>t'. seq (disposePair (Some a)) (relink i prev (pair_next pr)) t = Done () t' \<and>
    sweeping hf t0 t' (bs[i := xs @ ys]) \<and> chain (pairs t') (pair_next pr) ys"
proof -
  have th: "threaded hf (numOfBuckets t0) (pairs t) (bucketArray t) bs" and dom: "dom (pairs t) = set (concat bs)"
    and pn: "pruned (pairs t0) (pairs t)" and fr: "same_frame t0 t" using sw by (simp_all add: sweeping_def)
  have len: "length bs = numOfBuckets t0" "length (bucketArray t) = numOfBuckets t0" using th by (simp_all add: threaded_def)
  have d: "distinct (xs @ a # ys)" using threadedD(2) [OF th i] bs by simp
  obtain t1 where t1: "disposePair (Some a) t = Done () t1" "pairs t1 = (pairs t)(a := None)" "only_pairs t t1"
    using disposePair_run [OF pr(1)] by (elim exE conjE)
  have arr1: "bucketArray t1 = bucketArray t" "same_frame t t1" using t1(3) by (simp_all add: only_pairs_def same_frame_def)
  have "\<exists>t' h'. relink i prev (pair_next pr) t1 = Done () t' \<and> pairs t' = h'(a := None) \<and>
      unlinked (pairs t) (bucketArray t) i xs (pair_next pr) h' (bucketArray t') \<and> same_frame t1 t'"
  proof (cases "xs = []")
    case True
    then show ?thesis
      using i len arr1 t1(2) by (intro exI [of _ "t1\<lparr>bucketArray := (bucketArray t)[i := pair_next pr]\<rparr>"] exI [of _ "pairs t"])
        (simp add: prev_def relink_def set_bucket_def unlinked_def same_frame_def same_setup_def)
  next
    case False
    then have "last xs \<in> set (bs ! i)" using bs by simp
    then obtain q where q: "pairs t (last xs) = Some q" using threadedD(3) [OF th i] by blast
    have ne: "last xs \<noteq> a" using d False by auto
    let ?h = "(pairs t)(last xs \<mapsto> q\<lparr>pair_next := pair_next pr\<rparr>)"
    have "((pairs t)(a := None))(last xs \<mapsto> q\<lparr>pair_next := pair_next pr\<rparr>) = ?h(a := None)"
      using ne by (simp add: fun_upd_twist)
    then show ?thesis
      using False q ne arr1 t1(2) by (intro exI [of _ "t1\<lparr>pairs := ?h(a := None)\<rparr>"] exI [of _ ?h])
        (simp add: prev_def relink_def unlinked_def same_frame_def same_setup_def)
  qed
  then obtain t' h' where t': "relink i prev (pair_next pr) t1 = Done () t'" "pairs t' = h'(a := None)"
      "unlinked (pairs t) (bucketArray t) i xs (pair_next pr) h' (bucketArray t')" "same_frame t1 t'"
    by (elim exE conjE)
  have th': "threaded hf (numOfBuckets t0) (pairs t') (bucketArray t') (bs[i := xs @ ys])"
    unfolding t'(2) by (rule threaded_unlink [OF th i bs pr(1) t'(3)])
  have sc: "same_core (pairs t) h'" by (rule unlinked_core [OF t'(3)])
  have "set (concat (bs[i := xs @ ys])) = set (concat bs) - {a}"
    using threaded_concat_distinct [OF th] i len bs by (intro unlink_lists) simp_all
  then have "dom (pairs t') = set (concat (bs[i := xs @ ys]))" using t'(2) same_core_dom [OF sc] dom by simp
  moreover have "a \<notin> live h'" using same_core_sets(1) [OF sc] pr by simp
  then have "pruned (pairs t0) (pairs t')"
    using pruned_trans [OF pn pruned_trans [OF pruned_core [OF sc] pruned_del]] t'(2) by simp
  moreover have "same_frame t0 t'" using same_frame_trans [OF fr same_frame_trans [OF arr1(2) t'(4)]] .
  ultimately have sw': "sweeping hf t0 t' (bs[i := xs @ ys])" using th' by (simp add: sweeping_def)
  have "chain (pairs t) (pair_next pr) ys"
    using chain_next [of "pairs t" "bucketArray t ! i" xs a ys pr] threadedD(1) [OF th i] bs pr(1) by simp
  moreover have "map_option pair_next (pairs t' b) = map_option pair_next (pairs t b)" if "b \<in> set ys" for b
  proof -
    have "b \<notin> set xs" "b \<noteq> a" using that d by auto
    then show ?thesis using unlinked_frame(1) [OF t'(3), of b] t'(2) by simp
  qed
  ultimately have "chain (pairs t') (pair_next pr) ys" using chain_cong [of ys "pairs t'" "pairs t"] by simp
  then show ?thesis using sw' t1(1) t'(1) by (intro exI [of _ t']) (simp add: seq_def bind_def)
qed

lemma sweep_loop_run:
  assumes "sweeping hf t0 t bs" and "i < numOfBuckets t0" and "bs ! i = xs @ as" and "set xs \<subseteq> live (pairs t0)"
    and "chain (pairs t) p as"
  shows "\<exists>t' zs. sweep_loop i (if xs = [] then None else Some (last xs)) p t = Some (Done () t') \<and>
    sweeping hf t0 t' (bs[i := zs]) \<and> set zs \<subseteq> live (pairs t0)"
  using assms
proof (induction as arbitrary: t bs xs p)
  case Nil
  then have "bs[i := xs] = bs" by (metis append_Nil2 list_update_id)
  then show ?case using Nil by (subst sweep_loop.simps) (auto intro: exI [of _ xs])
next
  case (Cons a as)
  let ?prev = "if xs = [] then None else Some (last xs)"
  from Cons.prems(5) obtain pr where pr: "p = Some a" "pairs t a = Some pr" "chain (pairs t) (pair_next pr) as" by auto
  have live: "live (pairs t) = live (pairs t0)" using Cons.prems(1) pruned_live unfolding sweeping_def by blast
  show ?case
  proof (cases "markedForRemove pr")
    case False
    then have "set (xs @ [a]) \<subseteq> live (pairs t0)" using Cons.prems(4) live pr(2) live_iff [of "pairs t" a pr] by simp
    moreover have "sweep_loop i ?prev p t = sweep_loop i (Some a) (pair_next pr) t"
      using False pr by (subst sweep_loop.simps) simp
    ultimately show ?thesis using Cons.IH [OF Cons.prems(1,2), of "xs @ [a]" "pair_next pr"] Cons.prems(3) pr(3) by simp
  next
    case True
    from sweep_step [OF Cons.prems(1,2,3) pr(2) True] obtain t' where
        t': "seq (disposePair (Some a)) (relink i ?prev (pair_next pr)) t = Done () t'"
        "sweeping hf t0 t' (bs[i := xs @ as])" "chain (pairs t') (pair_next pr) as"
      by (elim exE conjE)
    have "i < length bs" using Cons.prems(1,2) by (simp add: sweeping_def threaded_def)
    then have "bs[i := xs @ as] ! i = xs @ as" "(bs[i := xs @ as])[i := zs] = bs[i := zs]" for zs by simp_all
    moreover have "sweep_loop i ?prev p t = sweep_loop i ?prev (pair_next pr) t'"
      using True pr t'(1) by (subst sweep_loop.simps) (simp split del: if_split)
    ultimately show ?thesis using Cons.IH [OF t'(2) Cons.prems(2) _ Cons.prems(4) t'(3)] by simp
  qed
qed

lemma sweep_buckets_run:
  assumes "sweeping hf t t bs"
  shows "\<exists>t' bs'. for_buckets sweep_bucket [0..<numOfBuckets t] t = Done () t' \<and> sweeping hf t t' bs' \<and>
    dom (pairs t') = live (pairs t)"
proof -
  let ?P = "\<lambda>is t'. set is \<subseteq> {..<numOfBuckets t} \<and> (\<exists>bs'. sweeping hf t t' bs' \<and>
    (\<forall>j < numOfBuckets t. j \<notin> set is \<longrightarrow> set (bs' ! j) \<subseteq> live (pairs t)))"
  have "\<exists>t'. for_buckets sweep_bucket [0..<numOfBuckets t] t = Done () t' \<and> ?P [] t'"
  proof (rule for_buckets_run [where P = ?P])
    show "?P [0..<numOfBuckets t] t" using assms by auto
    fix i "is" s
    assume "?P (i # is) s"
    then obtain bs' where i: "i < numOfBuckets t" "set is \<subseteq> {..<numOfBuckets t}" and sw: "sweeping hf t s bs'"
        and clean: "\<forall>j < numOfBuckets t. j \<notin> set (i # is) \<longrightarrow> set (bs' ! j) \<subseteq> live (pairs t)"
      by auto
    have th: "threaded hf (numOfBuckets t) (pairs s) (bucketArray s) bs'" using sw by (simp add: sweeping_def)
    have len: "length bs' = numOfBuckets t" "length (bucketArray s) = numOfBuckets t" using th by (simp_all add: threaded_def)
    from sweep_loop_run [OF sw i(1), of "[]" "bs' ! i" "bucketArray s ! i"] threadedD(1) [OF th i(1)]
    obtain s' zs where s': "sweep_loop i None (bucketArray s ! i) s = Some (Done () s')" "sweeping hf t s' (bs'[i := zs])"
        "set zs \<subseteq> live (pairs t)"
      by auto
    have "sweep_bucket i s = Done () s'" using s'(1) i len by (simp add: sweep_bucket_def get_bucket_def bind_def)
    moreover have "\<forall>j < numOfBuckets t. j \<notin> set is \<longrightarrow> set (bs'[i := zs] ! j) \<subseteq> live (pairs t)"
    proof (intro allI impI)
      fix j
      assume "j < numOfBuckets t" "j \<notin> set is"
      then show "set (bs'[i := zs] ! j) \<subseteq> live (pairs t)" using clean s'(3) i(1) len by (cases "j = i") simp_all
    qed
    ultimately show "\<exists>s'. sweep_bucket i s = Done () s' \<and> ?P is s'" using s'(2) i(2) by blast
  qed
  then obtain t' bs' where t': "for_buckets sweep_bucket [0..<numOfBuckets t] t = Done () t'" "sweeping hf t t' bs'"
      "\<forall>j < numOfBuckets t. set (bs' ! j) \<subseteq> live (pairs t)"
    by auto
  have lists: "length bs' = numOfBuckets t" "dom (pairs t') = set (concat bs')"
    using t'(2) by (simp_all add: sweeping_def threaded_def)
  then have "\<forall>b \<in> set bs'. set b \<subseteq> live (pairs t)" using t'(3) by (metis in_set_conv_nth)
  then have "dom (pairs t') \<subseteq> live (pairs t)" using lists(2) by auto
  moreover have "live (pairs t) \<subseteq> dom (pairs t')"
    using live_in_dom [of "pairs t'"] pruned_live t'(2) unfolding sweeping_def by blast
  ultimately show ?thesis using t'(1,2) by blast
qed

lemma inv_raise: "ht_inv same hf t bs \<Longrightarrow> l \<noteq> 0 \<Longrightarrow> ht_inv same hf (t\<lparr>foreachRecursionLevel := l\<rparr>) bs"
  unfolding ht_inv_def by (elim conjE, intro conjI) (simp_all add: ht_counts_def)

text \<open>The end of the outermost iteration: the table represents the same map and has no marked pair.\<close>

lemma foreach_cleanup_run:
  assumes rep: "ht_rep same hf t m" and level: "foreachRecursionLevel t = 1"
  shows "\<exists>t'. foreach_cleanup t = Done () t' \<and> ht_rep same hf t' m \<and> foreachRecursionLevel t' = 0 \<and>
    dom (pairs t') = live (pairs t) \<and> ht_value t' = ht_value t"
proof -
  obtain bs where inv: "ht_inv same hf t bs" using rep by (auto simp: ht_rep_def)
  have c: "ht_counts t" using inv by (simp add: ht_inv_def)
  define t1 where "t1 = t\<lparr>foreachRecursionLevel := 0\<rparr>"
  have dec: "t\<lparr>foreachRecursionLevel := foreachRecursionLevel t - 1\<rparr> = t1" by (simp add: t1_def level)
  note dom = dom_live_doomed [of "pairs t"]
  show ?thesis
  proof (cases "pendingRemoves t = 0")
    case True
    then have "card (doomed (pairs t)) = 0"
      using c counts_finite(4) [OF c] by (auto simp: ht_counts_def word_of_nat_eq_0_iff dest: dvd_imp_le)
    then have none: "doomed (pairs t) = {}" using counts_finite(2) [OF c] by simp
    have "foreach_cleanup t = Done () t1"
      using True dec by (simp add: foreach_cleanup_def bind_def seq_def gets_def modify_def ret_def t1_def)
    moreover have "ht_counts t1" using c none by (simp add: t1_def ht_counts_def)
    then have "ht_inv same hf t1 bs" using inv by (simp add: t1_def ht_inv_def)
    then have "ht_rep same hf t1 m" using rep by (auto simp: ht_rep_def t1_def)
    ultimately show ?thesis using dom none by (intro exI [of _ t1]) (simp add: t1_def)
  next
    case False
    have "sweeping hf t1 t1 bs"
      using inv by (simp add: sweeping_def t1_def ht_inv_def pruned_refl same_frame_refl)
    from sweep_buckets_run [OF this] obtain s bs' where s: "for_buckets sweep_bucket [0..<numOfBuckets t1] t1 = Done () s"
        "sweeping hf t1 s bs'" "dom (pairs s) = live (pairs t1)"
      by (elim exE conjE)
    define t' where "t' = s\<lparr>pendingRemoves := 0\<rparr>"
    have pn: "pruned (pairs t) (pairs s)" and fr: "same_frame t1 s" using s(2) by (simp_all add: sweeping_def t1_def)
    have "foreach_cleanup t = Done () t'"
      using False dec s(1) by (simp add: foreach_cleanup_def bind_def seq_def gets_def modify_def ret_def t1_def t'_def)
    moreover have "ht_inv same hf t' bs'"
    proof -
      have l: "live (pairs s) = live (pairs t)" by (rule pruned_live [OF pn])
      have ds: "dom (pairs s) = live (pairs t)" using s(3) by (simp add: t1_def)
      have none: "doomed (pairs s) = {}"
        using l ds unfolding live_def doomed_def by (auto simp: set_eq_iff) (metis domI option.inject)
      have "card (dom (pairs s)) \<le> card (dom (pairs t))"
        using c ds live_in_dom [of "pairs t"] by (intro card_mono) (auto simp: ht_counts_def)
      then have "ht_counts t'"
        using c l ds none fr counts_finite(1) [OF c] live_in_dom [of "pairs t"]
        by (auto simp: ht_counts_def t'_def t1_def same_frame_def same_setup_def)
      then show ?thesis
        using inv s(2) fr pruned_unique [OF pn, of same]
        by (simp add: ht_inv_def sweeping_def t'_def t1_def same_frame_def same_setup_def)
    qed
    then have "ht_rep same hf t' m" using rep pruned_binds [OF pn, of same] by (auto simp: ht_rep_def t'_def)
    ultimately show ?thesis
      using s(3) fr by (intro exI [of _ t']) (simp add: t'_def t1_def same_frame_def same_setup_def)
  qed
qed

lemma foreach_run:
  assumes level: "foreachRecursionLevel t = 0" and lists: "keeps_lists hf n bs P" and step: "foreach_step fn P"
    and start: "P (concat bs) (t\<lparr>foreachRecursionLevel := 1\<rparr>, c)"
    and rep: "\<forall>s c'. P [] (s, c') \<longrightarrow> ht_rep same hf s m \<and> foreachRecursionLevel s = 1"
  shows "\<exists>t' s c'. HashTable_Foreach fn (t, c) = Done True (t', c') \<and> P [] (s, c') \<and> ht_rep same hf t' m \<and>
    foreachRecursionLevel t' = 0 \<and> dom (pairs t') = live (pairs s)"
proof -
  from foreach_buckets_run [OF lists step, of 0 "(t\<lparr>foreachRecursionLevel := 1\<rparr>, c)"] start
  obtain s c' where s: "foreach_buckets fn 0 (t\<lparr>foreachRecursionLevel := 1\<rparr>, c) = Some (Done True (s, c'))" "P [] (s, c')"
    by auto
  from foreach_cleanup_run [of same hf s m] rep [rule_format, OF s(2)] obtain t' where "foreach_cleanup s = Done () t'" "ht_rep same hf t' m"
      "foreachRecursionLevel t' = 0" "dom (pairs t') = live (pairs s)"
    by auto
  then show ?thesis using s level by (intro exI [of _ t'] exI [of _ s] exI [of _ c']) (simp add: HashTable_Foreach_def)
qed

subsection \<open>Callbacks that remove the pair they see\<close>

text \<open>
  A callback of this kind updates its own state by \<open>g\<close> and removes the pair it is called on if \<open>sel\<close>
  chooses it.
\<close>

definition visits :: "(nat \<Rightarrow> bool) \<Rightarrow> ('k pointer \<Rightarrow> 'v pointer \<Rightarrow> bool) \<Rightarrow>
    ('k pointer \<Rightarrow> 'v pointer \<Rightarrow> 'c \<Rightarrow> 'c) \<Rightarrow> ('c \<Rightarrow> bool) \<Rightarrow> ('k, 'v, 'c) foreach_fn \<Rightarrow> bool" where
  "visits mok sel g I fn \<longleftrightarrow> (\<forall>k v t c. I c \<longrightarrow> I (g k v c) \<and>
     fn k v (t, c) =
       (if sel k v
        then (case HashTable_Remove mok k t of
                Fault e \<Rightarrow> Fault e
              | Failed t' \<Rightarrow> Done True (t', g k v c)
              | Done _ t' \<Rightarrow> Done True (t', g k v c))
        else Done True (t, g k v c)))"

definition restrict :: "('k pointer \<Rightarrow> 'v pointer \<Rightarrow> bool) \<Rightarrow> ('k \<Rightarrow> 'v pointer option) \<Rightarrow> 'k \<Rightarrow> 'v pointer option" where
  "restrict sel m x = (case m x of None \<Rightarrow> None | Some v \<Rightarrow> if sel (Some x) v then None else Some v)"

text \<open>The store when the pairs in \<open>rest\<close> are still to come.\<close>

definition marking :: "('k pointer \<Rightarrow> 'v pointer \<Rightarrow> bool) \<Rightarrow> ('k, 'v) store \<Rightarrow> nat list \<Rightarrow> ('k, 'v) store" where
  "marking sel h rest = (\<lambda>a. map_option (\<lambda>pr.
     if a \<notin> set rest \<and> sel (pair_key pr) (pair_value pr) then pr\<lparr>markedForRemove := True\<rparr> else pr) (h a))"

lemma marking_all: "dom h \<subseteq> set rest \<Longrightarrow> marking sel h rest = h"
proof (rule ext)
  fix a
  assume "dom h \<subseteq> set rest"
  then show "marking sel h rest a = h a" by (cases "h a") (auto simp: marking_def)
qed

lemma marking_step:
  assumes "h a = Some pr" and "a \<notin> set rest"
  shows "marking sel h rest = (if sel (pair_key pr) (pair_value pr)
    then (marking sel h (a # rest))(a \<mapsto> pr\<lparr>markedForRemove := True\<rparr>) else marking sel h (a # rest))"
proof (rule ext)
  fix b
  show "marking sel h rest b = (if sel (pair_key pr) (pair_value pr)
      then (marking sel h (a # rest))(a \<mapsto> pr\<lparr>markedForRemove := True\<rparr>) else marking sel h (a # rest)) b"
    using assms by (cases "b = a"; cases "h b") (auto simp: marking_def)
qed

text \<open>The invariant of the iteration, with \<open>t0\<close> and \<open>c0\<close> the state before it.\<close>

definition effect :: "('k, 'v) store \<Rightarrow> ('k pointer \<Rightarrow> 'v pointer \<Rightarrow> 'c \<Rightarrow> 'c) \<Rightarrow> nat \<Rightarrow> 'c \<Rightarrow> 'c" where
  "effect h g a c = (case h a of None \<Rightarrow> c | Some pr \<Rightarrow> g (pair_key pr) (pair_value pr) c)"

definition visiting ::
    "('k \<Rightarrow> 'k \<Rightarrow> bool) \<Rightarrow> ('k \<Rightarrow> u32) \<Rightarrow> nat list list \<Rightarrow> ('k pointer \<Rightarrow> 'v pointer \<Rightarrow> bool) \<Rightarrow>
     ('k pointer \<Rightarrow> 'v pointer \<Rightarrow> 'c \<Rightarrow> 'c) \<Rightarrow> ('c \<Rightarrow> bool) \<Rightarrow> ('k, 'v) wHashTable \<Rightarrow> 'c \<Rightarrow>
     nat list \<Rightarrow> ('k, 'v) wHashTable \<times> 'c \<Rightarrow> bool" where
  "visiting same hf bs sel g I t0 c0 rest st \<longleftrightarrow>
     ht_inv same hf (fst st) bs \<and> numOfBuckets (fst st) = numOfBuckets t0 \<and> foreachRecursionLevel (fst st) = 1 \<and>
     pairs (fst st) = marking sel (pairs t0) rest \<and> I (snd st) \<and>
     (\<exists>seen. concat bs = seen @ rest \<and> snd st = fold (effect (pairs t0) g) seen c0)"

lemma visiting_lists: "keeps_lists hf (numOfBuckets t0) bs (visiting same hf bs sel g I t0 c0)"
  by (auto simp: keeps_lists_def visiting_def ht_inv_def)

lemma visiting_step:
  assumes "visits mok sel g I fn" and level: "doomed (pairs t0) = {}"
  shows "foreach_step fn (visiting same hf bs sel g I t0 c0)"
  unfolding foreach_step_def
proof (intro allI impI, elim conjE)
  fix a rest st pr
  assume v: "visiting same hf bs sel g I t0 c0 (a # rest) st" and a: "pairs (fst st) a = Some pr"
  obtain s c where st: "st = (s, c)" by (cases st)
  from v obtain seen where inv: "ht_inv same hf s bs" and n: "numOfBuckets s = numOfBuckets t0"
      and lv: "foreachRecursionLevel s = 1" and h: "pairs s = marking sel (pairs t0) (a # rest)" and I: "I c"
      and seen: "concat bs = seen @ a # rest" and c: "c = fold (effect (pairs t0) g) seen c0"
    unfolding visiting_def st by auto
  have th: "threaded hf (numOfBuckets s) (pairs s) (bucketArray s) bs" using inv by (simp add: ht_inv_def)
  have fresh: "a \<notin> set rest" using threaded_concat_distinct [OF th] seen by simp
  have a0: "pairs t0 a = Some pr" using a h st by (cases "pairs t0 a") (auto simp: marking_def)
  then have alive: "\<not> markedForRemove pr" using level doomed_iff [of "pairs t0" a pr] by blast
  obtain k where k: "pair_key pr = Some k" by (rule ht_pairE [OF inv a [unfolded st fst_conv]])
  define c' where "c' = g (pair_key pr) (pair_value pr) c"
  have seen': "concat bs = (seen @ [a]) @ rest" "c' = fold (effect (pairs t0) g) (seen @ [a]) c0"
    using seen c a0 by (simp_all add: c'_def effect_def)
  note mk = marking_step [of "pairs t0" a pr rest sel, OF a0 fresh]
  have fn: "I c' \<and> fn (pair_key pr) (pair_value pr) (s, c) =
       (if sel (pair_key pr) (pair_value pr)
        then (case HashTable_Remove mok (pair_key pr) s of
                Fault e \<Rightarrow> Fault e
              | Failed t' \<Rightarrow> Done True (t', c')
              | Done _ t' \<Rightarrow> Done True (t', c'))
        else Done True (s, c'))"
    using assms(1) I unfolding visits_def c'_def by blast
  have "\<exists>s'. fn (pair_key pr) (pair_value pr) (s, c) = Done True (s', c') \<and> ht_inv same hf s' bs \<and>
      numOfBuckets s' = numOfBuckets t0 \<and> foreachRecursionLevel s' = 1 \<and> pairs s' = marking sel (pairs t0) rest"
  proof (cases "sel (pair_key pr) (pair_value pr)")
    case True
    have "foreachRecursionLevel s \<noteq> 0" "pairs s a = Some pr" using lv a st by simp_all
    moreover have "same k k" using inv key_contractD(1) by (auto simp: ht_inv_def)
    ultimately obtain s' where "HashTable_Remove mok (Some k) s = Done () s'" "ht_inv same hf s' bs" "same_setup s s'"
        "pairs s' = (pairs s)(a \<mapsto> pr\<lparr>markedForRemove := True\<rparr>)" "numOfBuckets s' = numOfBuckets s"
      using remove_marks [where mok = mok and k = k, OF inv _ k _ alive] by auto
    then show ?thesis using fn True k n lv h mk by (auto simp: same_setup_def)
  next
    case False
    then show ?thesis using fn inv n lv h mk by auto
  qed
  then obtain s' where s': "fn (pair_key pr) (pair_value pr) (s, c) = Done True (s', c')" "ht_inv same hf s' bs"
      "numOfBuckets s' = numOfBuckets t0" "foreachRecursionLevel s' = 1" "pairs s' = marking sel (pairs t0) rest"
    by (elim exE conjE)
  then have "visiting same hf bs sel g I t0 c0 rest (s', c')"
    unfolding visiting_def using fn seen' by (intro conjI exI [of _ "seen @ [a]"]) simp_all
  then show "if markedForRemove pr then visiting same hf bs sel g I t0 c0 rest st
      else \<exists>st'. fn (pair_key pr) (pair_value pr) st = Done True st' \<and> visiting same hf bs sel g I t0 c0 rest st'"
    using alive s'(1) unfolding st by auto
qed

lemma marking_there:
  assumes resp: "\<forall>x y v. same x y \<longrightarrow> sel (Some x) v = sel (Some y) v"
  shows "binds_there same (marking sel h [] a) x v \<longleftrightarrow> binds_there same (h a) x v \<and> \<not> sel (Some x) v"
proof (cases "h a")
  case None
  then show ?thesis by (simp add: marking_def binds_there_def)
next
  case (Some pr)
  show ?thesis
  proof (cases "\<exists>k. pair_key pr = Some k \<and> same x k")
    case True
    then obtain k where k: "pair_key pr = Some k" "same x k" by blast
    then have "sel (Some x) (pair_value pr) = sel (Some k) (pair_value pr)" using resp by blast
    then show ?thesis using Some k by (auto simp: marking_def binds_there_def)
  next
    case False
    then show ?thesis using Some by (auto simp: marking_def binds_there_def)
  qed
qed

lemma marking_binds:
  assumes "\<forall>x y v. same x y \<longrightarrow> sel (Some x) v = sel (Some y) v"
  shows "binds same (marking sel h []) x v \<longleftrightarrow> binds same h x v \<and> \<not> sel (Some x) v"
  unfolding binds_def marking_there [OF assms] by blast

text \<open>
  The whole iteration: every live pair is visited once, and what is left are the pairs that were not
  chosen.
\<close>

lemma foreach_visits:
  assumes rep: "ht_rep same hf t m" and level: "foreachRecursionLevel t = 0" and vis: "visits mok sel g I fn" and I: "I c"
    and resp: "\<forall>x y v. same x y \<longrightarrow> sel (Some x) v = sel (Some y) v"
  shows "\<exists>as t'. distinct as \<and> set as = live (pairs t) \<and>
    HashTable_Foreach fn (t, c) = Done True (t', fold (effect (pairs t) g) as c) \<and>
    ht_rep same hf t' (restrict sel m) \<and> foreachRecursionLevel t' = 0"
proof -
  obtain bs where inv: "ht_inv same hf t bs" and m: "\<And>k v. m k = Some v \<longleftrightarrow> binds same (pairs t) k v"
    using rep by (auto simp: ht_rep_def)
  have th: "threaded hf (numOfBuckets t) (pairs t) (bucketArray t) bs" and c: "ht_counts t"
    and dom: "dom (pairs t) = set (concat bs)" using inv by (simp_all add: ht_inv_def)
  have none: "doomed (pairs t) = {}" using c level by (simp add: ht_counts_def)
  have live: "live (pairs t) = set (concat bs)" using dom none dom_live_doomed [of "pairs t"] by simp
  let ?t = "t\<lparr>foreachRecursionLevel := 1\<rparr>" and ?P = "visiting same hf bs sel g I t c"
  have "ht_inv same hf ?t bs" by (rule inv_raise [OF inv]) simp
  then have start: "?P (concat bs) (?t, c)" using I marking_all [of "pairs t" "concat bs" sel] dom by (simp add: visiting_def)
  have "\<forall>s c'. ?P [] (s, c') \<longrightarrow> ht_rep same hf s (restrict sel m) \<and> foreachRecursionLevel s = 1"
  proof (intro allI impI)
    fix s c'
    assume that: "?P [] (s, c')"
    have s: "ht_inv same hf s bs" "pairs s = marking sel (pairs t) []" "foreachRecursionLevel s = 1"
      using that by (simp_all add: visiting_def)
    have "restrict sel m x = Some v \<longleftrightarrow> binds same (pairs s) x v" for x v
      unfolding s(2) marking_binds [OF resp] m [symmetric] by (auto simp: restrict_def split: option.splits if_splits)
    then show "ht_rep same hf s (restrict sel m) \<and> foreachRecursionLevel s = 1" using s unfolding ht_rep_def by blast
  qed
  from foreach_run [where P = ?P, OF level visiting_lists visiting_step [OF vis none] start this]
  obtain t' s c' where t': "HashTable_Foreach fn (t, c) = Done True (t', c')" "?P [] (s, c')"
      "ht_rep same hf t' (restrict sel m)" "foreachRecursionLevel t' = 0"
    by (elim exE conjE)
  have "c' = fold (effect (pairs t) g) (concat bs) c" using t'(2) by (auto simp: visiting_def)
  then show ?thesis using t' threaded_concat_distinct [OF th] live by (intro exI [of _ "concat bs"] exI [of _ t']) simp
qed

subsection \<open>Callbacks that search\<close>

text \<open>
  A callback that changes nothing and returns \<^verbatim>\<open>FALSE\<close> on the pair it looks for. The iteration then
  ends without leaving: the level stays raised.
\<close>

definition search_fn :: "('k pointer \<Rightarrow> 'v pointer \<Rightarrow> bool) \<Rightarrow> ('k, 'v, 'c) foreach_fn" where
  "search_fn hit k v st = Done (\<not> hit k v) st"

definition hits :: "('k pointer \<Rightarrow> 'v pointer \<Rightarrow> bool) \<Rightarrow> ('k, 'v) store \<Rightarrow> nat \<Rightarrow> bool" where
  "hits hit h a \<longleftrightarrow> (\<exists>pr. h a = Some pr \<and> \<not> markedForRemove pr \<and> hit (pair_key pr) (pair_value pr))"

lemma search_loop_run:
  "chain (pairs (fst st)) p as \<Longrightarrow>
    foreach_pairs (search_fn hit) p st = Some (Done (\<not> (\<exists>a \<in> set as. hits hit (pairs (fst st)) a)) st)"
proof (induction as arbitrary: p)
  case Nil
  then show ?case by (subst foreach_pairs.simps) simp
next
  case (Cons a as)
  then obtain pr where pr: "p = Some a" "pairs (fst st) a = Some pr" "chain (pairs (fst st)) (pair_next pr) as" by auto
  have "search_fn hit (pair_key pr) (pair_value pr) st = Done (\<not> hit (pair_key pr) (pair_value pr)) st"
    by (simp add: search_fn_def)
  moreover have "hits hit (pairs (fst st)) a \<longleftrightarrow> \<not> markedForRemove pr \<and> hit (pair_key pr) (pair_value pr)"
    using pr(2) by (simp add: hits_def)
  ultimately show ?case using pr Cons.IH [OF pr(3)] by (subst foreach_pairs.simps) simp
qed

lemma search_buckets_run:
  assumes th: "threaded hf (numOfBuckets (fst st)) (pairs (fst st)) (bucketArray (fst st)) bs"
  shows "i \<le> numOfBuckets (fst st) \<Longrightarrow> foreach_buckets (search_fn hit) i st =
    Some (Done (\<not> (\<exists>a \<in> set (concat (drop i bs)). hits hit (pairs (fst st)) a)) st)"
proof (induction "numOfBuckets (fst st) - i" arbitrary: i)
  case 0
  have "length bs = numOfBuckets (fst st)" using th by (simp add: threaded_def)
  then show ?case using 0 by (subst foreach_buckets.simps) simp
next
  case (Suc x)
  have len: "length bs = numOfBuckets (fst st)" "length (bucketArray (fst st)) = numOfBuckets (fst st)"
    using th by (simp_all add: threaded_def)
  have i: "i < numOfBuckets (fst st)" "x = numOfBuckets (fst st) - Suc i" using Suc.hyps(2) by simp_all
  then have "drop i bs = bs ! i # drop (Suc i) bs" using len by (simp add: Cons_nth_drop_Suc)
  then show ?case
    using Suc.hyps(1) [OF i(2)] i(1) len search_loop_run [OF threadedD(1) [OF th i(1)], of hit]
    by (subst foreach_buckets.simps) auto
qed

lemma foreach_search:
  assumes inv: "ht_inv same hf t bs" and level: "foreachRecursionLevel t = 0"
  shows "HashTable_Foreach (search_fn hit) (t, c) =
    (if \<exists>a. hits hit (pairs t) a then Done False (t\<lparr>foreachRecursionLevel := 1\<rparr>, c) else Done True (t, c))"
proof -
  let ?st = "(t\<lparr>foreachRecursionLevel := 1\<rparr>, c)"
  have th: "threaded hf (numOfBuckets t) (pairs t) (bucketArray t) bs" and dom: "dom (pairs t) = set (concat bs)"
    and c: "ht_counts t" using inv by (simp_all add: ht_inv_def)
  have "(\<exists>a \<in> set (concat bs). hits hit (pairs t) a) \<longleftrightarrow> (\<exists>a. hits hit (pairs t) a)"
    unfolding dom [symmetric] hits_def by auto
  then have run: "foreach_buckets (search_fn hit) 0 ?st = Some (Done (\<not> (\<exists>a. hits hit (pairs t) a)) ?st)"
    using search_buckets_run [of hf ?st bs 0 hit] th by simp
  have "pendingRemoves t = 0" using c level by (simp add: ht_counts_def)
  moreover have "t\<lparr>foreachRecursionLevel := 0\<rparr> = t" using level by simp
  ultimately have "foreach_cleanup (t\<lparr>foreachRecursionLevel := 1\<rparr>) = Done () t"
    by (simp add: foreach_cleanup_def seq_def bind_def gets_def modify_def ret_def)
  then show ?thesis using run level by (simp add: HashTable_Foreach_def)
qed

text \<open>Clearing a table during an iteration never ends: the loop stays at the first pair.\<close>

lemma clear_pairs_diverges:
  assumes "foreachRecursionLevel t \<noteq> 0" and "pairs t a \<noteq> None"
  shows "clear_pairs (Some a) t = None"
proof (rule ccontr)
  assume "clear_pairs (Some a) t \<noteq> None"
  then obtain r where r: "clear_pairs (Some a) t = Some r" by auto
  let ?P = "\<lambda>p t _. foreachRecursionLevel t = 0 \<or> p \<noteq> Some a \<or> pairs t a = None"
  have "?P (Some a) t r"
    by (rule clear_pairs.raw_induct [where P = ?P, OF _ r])
      (rule ccontr, fastforce split: option.splits if_splits)
  then show False using assms by simp
qed

end
