(* ===== verification/HashTableSpec.thy ===== *)
theory HashTableSpec
  imports HashTableForeach
begin

text \<open>
  Hash tables as dictionaries: listing the keys, assigning and clearing, the contract of a dictionary
  as a locale with its interpretation on hash tables, and the properties of the component.
\<close>

section \<open>Listing the keys\<close>

lemma keys_loop_run:
  assumes "chain (pairs t) p as" and "i + length (filter (\<lambda>a. a \<in> live (pairs t)) as) \<le> length ks"
  shows "keys_loop t p (ks, i) = Some (Inr
    (take i ks @ map (key_at t) (filter (\<lambda>a. a \<in> live (pairs t)) as) @
       drop (i + length (filter (\<lambda>a. a \<in> live (pairs t)) as)) ks,
     i + length (filter (\<lambda>a. a \<in> live (pairs t)) as)))"
  using assms
proof (induction as arbitrary: p ks i)
  case Nil
  then show ?case by (subst keys_loop.simps) simp
next
  case (Cons a as)
  from Cons.prems(1) obtain pr where pr: "p = Some a" "pairs t a = Some pr" "chain (pairs t) (pair_next pr) as" by auto
  show ?case
  proof (cases "markedForRemove pr")
    case True
    then have "keys_loop t p (ks, i) = keys_loop t (pair_next pr) (ks, i)" using pr by (subst keys_loop.simps) simp
    then show ?thesis using Cons.IH [OF pr(3)] Cons.prems(2) pr(2) True by simp
  next
    case False
    then have i: "Suc i + length (filter (\<lambda>a. a \<in> live (pairs t)) as) \<le> length (ks[i := pair_key pr])" "i < length ks"
      using Cons.prems(2) pr(2) by simp_all
    have "keys_loop t p (ks, i) = keys_loop t (pair_next pr) (ks[i := pair_key pr], Suc i)"
      using pr False i(2) by (subst keys_loop.simps) simp
    then show ?thesis using Cons.IH [OF pr(3) i(1)] pr(2) False i(2) by (simp add: take_Suc_conv_app_nth key_at_def)
  qed
qed

lemma keys_buckets_run:
  assumes th: "threaded hf n (pairs t) (bucketArray t) bs" and "set is \<subseteq> {..<n}"
    and "i + length (filter (\<lambda>a. a \<in> live (pairs t)) (concat (map ((!) bs) is))) \<le> length ks"
  shows "keys_buckets t is (ks, i) = Some (Inr
    (take i ks @ map (key_at t) (filter (\<lambda>a. a \<in> live (pairs t)) (concat (map ((!) bs) is))) @
       drop (i + length (filter (\<lambda>a. a \<in> live (pairs t)) (concat (map ((!) bs) is)))) ks,
     i + length (filter (\<lambda>a. a \<in> live (pairs t)) (concat (map ((!) bs) is)))))"
  using assms(2,3)
proof (induction "is" arbitrary: ks i)
  case (Cons j js)
  have j: "j < n" "j < length (bucketArray t)" using Cons.prems(1) th by (simp_all add: threaded_def)
  define L where "L = filter (\<lambda>a. a \<in> live (pairs t)) (bs ! j)"
  define M where "M = filter (\<lambda>a. a \<in> live (pairs t)) (concat (map ((!) bs) js))"
  define ks' where "ks' = take i ks @ map (key_at t) L @ drop (i + length L) ks"
  have room: "i + length L + length M \<le> length ks" using Cons.prems(2) by (simp add: L_def M_def)
  then have len: "length ks' = length ks" by (simp add: ks'_def)
  have "keys_loop t (bucketArray t ! j) (ks, i) = Some (Inr (ks', i + length L))"
    using keys_loop_run [OF threadedD(1) [OF th j(1)], of i ks] room by (simp add: L_def ks'_def)
  moreover have "keys_buckets t js (ks', i + length L) =
      Some (Inr (take (i + length L) ks' @ map (key_at t) M @ drop (i + length L + length M) ks', i + length L + length M))"
    using Cons.IH [of "i + length L" ks'] Cons.prems(1) room len by (simp add: M_def)
  moreover have "take (i + length L) ks' = take i ks @ map (key_at t) L"
    "drop (i + length L + length M) ks' = drop (i + length L + length M) ks"
    using room by (simp_all add: ks'_def add.commute)
  ultimately show ?case using j(2) by (simp add: L_def [symmetric] M_def [symmetric] add.assoc)
qed simp

lemma getkeys_run:
  assumes inv: "ht_inv same hf t bs" and "mok (numOfElements t * 8)"
  shows "HashTable_GetKeys mok t = Done (map (key_at t) (filter (\<lambda>a. a \<in> live (pairs t)) (concat bs))) t"
    and "length (filter (\<lambda>a. a \<in> live (pairs t)) (concat bs)) = numOfElements t"
proof -
  let ?L = "filter (\<lambda>a. a \<in> live (pairs t)) (concat bs)"
  have th: "threaded hf (numOfBuckets t) (pairs t) (bucketArray t) bs" and c: "ht_counts t"
    and dom: "dom (pairs t) = set (concat bs)" using inv by (simp_all add: ht_inv_def)
  have "set ?L = live (pairs t)" using dom live_in_dom [of "pairs t"] by auto
  moreover have "distinct ?L" using threaded_concat_distinct [OF th] by simp
  ultimately show len: "length ?L = numOfElements t" using distinct_card [of ?L] c by (simp add: ht_counts_def)
  have "length bs = numOfBuckets t" using th by (simp add: threaded_def)
  then have lists: "concat (map ((!) bs) [0..<numOfBuckets t]) = concat bs" by (rule bucket_lists)
  show "HashTable_GetKeys mok t = Done (map (key_at t) ?L) t"
  proof (cases "numOfElements t < 1")
    case True
    then have "?L = []" using len by simp
    then show ?thesis using True by (simp add: HashTable_GetKeys_def)
  next
    case False
    have "set [0..<numOfBuckets t] \<subseteq> {..<numOfBuckets t}" by auto
    with False show ?thesis
      using keys_buckets_run [OF th, of "[0..<numOfBuckets t]" 0 "replicate (numOfElements t) None", unfolded lists len] assms(2)
      by (auto simp: HashTable_GetKeys_def)
  qed
qed

lemma getkeys_rep:
  assumes rep: "ht_rep same hf t m" and mok: "mok (numOfElements t * 8)"
  shows "\<exists>ks. HashTable_GetKeys mok t = Done (map Some ks) t \<and> length ks = numOfElements t \<and>
    (\<forall>x. m x \<noteq> None \<longleftrightarrow> (\<exists>k \<in> set ks. same x k)) \<and>
    (\<forall>i < length ks. \<forall>j < length ks. same (ks ! i) (ks ! j) \<longrightarrow> i = j)"
proof -
  obtain bs where inv: "ht_inv same hf t bs" using rep by (auto simp: ht_rep_def)
  let ?L = "filter (\<lambda>a. a \<in> live (pairs t)) (concat bs)"
  have th: "threaded hf (numOfBuckets t) (pairs t) (bucketArray t) bs" and uk: "unique_keys same (pairs t)"
    and dom: "dom (pairs t) = set (concat bs)" using inv by (simp_all add: ht_inv_def)
  have L: "set ?L = live (pairs t)" "distinct ?L" using dom live_in_dom [of "pairs t"] threaded_concat_distinct [OF th] by auto
  have key: "\<exists>pr k. pairs t a = Some pr \<and> pair_key pr = Some k \<and> key_at t a = Some k" if "a \<in> live (pairs t)" for a
  proof -
    obtain pr where pr: "pairs t a = Some pr" using \<open>a \<in> live (pairs t)\<close> by (auto simp: live_def)
    obtain k where "pair_key pr = Some k" by (rule ht_pairE [OF inv pr])
    then show ?thesis using pr by (simp add: key_at_def)
  qed
  define ks where "ks = map (\<lambda>a. the (key_at t a)) ?L"
  have ks: "map (key_at t) ?L = map Some ks" unfolding ks_def using key by fastforce
  have bound: "m x \<noteq> None \<longleftrightarrow> (\<exists>k \<in> set ks. same x k)" for x
  proof -
    have "m x \<noteq> None \<longleftrightarrow> (\<exists>v. binds same (pairs t) x v)" using rep by (auto simp: ht_rep_def)
    also have "\<dots> \<longleftrightarrow> (\<exists>a \<in> live (pairs t). \<exists>k. key_at t a = Some k \<and> same x k)"
      by (auto simp: binds_def binds_there_def live_def key_at_def) metis
    also have "\<dots> \<longleftrightarrow> (\<exists>k \<in> set ks. same x k)" unfolding ks_def using L(1) key by fastforce
    finally show ?thesis .
  qed
  have "i = j" if ij: "i < length ks" "j < length ks" "same (ks ! i) (ks ! j)" for i j
  proof -
    have len: "i < length ?L" "j < length ?L" using ij(1,2) unfolding ks_def length_map by blast+
    then have mem: "?L ! i \<in> live (pairs t)" "?L ! j \<in> live (pairs t)" using L(1) nth_mem by blast+
    obtain p x where p: "pairs t (?L ! i) = Some p" "pair_key p = Some x" "key_at t (?L ! i) = Some x" using key [OF mem(1)] by blast
    obtain q y where q: "pairs t (?L ! j) = Some q" "pair_key q = Some y" "key_at t (?L ! j) = Some y" using key [OF mem(2)] by blast
    have "ks ! i = x" "ks ! j = y" using len p(3) q(3) by (simp_all add: ks_def)
    then have "?L ! i = ?L ! j" using ij(3) p q uk unfolding unique_keys_def by blast
    then show "i = j" using L(2) len nth_eq_iff_index_eq by blast
  qed
  then show ?thesis using getkeys_run [where mok = mok, OF inv mok] ks bound by (intro exI [of _ ks]) (simp add: ks_def)
qed

section \<open>The other operations\<close>

lemma setitem_rep:
  assumes rep: "ht_rep same hf t m"
  shows "m k \<noteq> None \<Longrightarrow> \<exists>t'. HashTable_SetItemValue (Some k) val t = Done () t' \<and> same_setup t t' \<and>
      ht_rep same hf t' (upd same m k (new_object (ht_value t) val)) \<and> card (dom (pairs t')) = card (dom (pairs t))"
    and "m k = None \<Longrightarrow> HashTable_SetItemValue (Some k) val t = Failed t"
proof -
  obtain bs where inv: "ht_inv same hf t bs" using rep by (auto simp: ht_rep_def)
  have kc: "key_contract same hf (ht_key t)" and uk: "unique_keys same (pairs t)" and c: "ht_counts t"
    using inv by (simp_all add: ht_inv_def)
  note step = bucket_index_run(1,2) [OF inv, of k]
  let ?v = "new_object (ht_value t) val"
  have "(m k \<noteq> None \<longrightarrow> (\<exists>t'. HashTable_SetItemValue (Some k) val t = Done () t' \<and> same_setup t t' \<and>
      ht_rep same hf t' (upd same m k ?v) \<and> card (dom (pairs t')) = card (dom (pairs t)))) \<and>
    (m k = None \<longrightarrow> HashTable_SetItemValue (Some k) val t = Failed t)"
  proof (cases rule: find_pair_cases [OF inv refl, of k, case_names found absent])
    case (found xs a ys pr k')
    have get: "HashTable_Get (Some k) t = Done (Some a) t"
      using found(5) by (simp add: HashTable_Get_def bind_def gets_def step ret_def)
    have mk: "m k = (if markedForRemove pr then None else Some (pair_value pr))" by (rule found_live [OF rep inv found(2-4)])
    show ?thesis
    proof (cases "markedForRemove pr")
      case True
      then show ?thesis using mk get found(2) by (simp add: HashTable_SetItemValue_def bind_def fail_def)
    next
      case False
      let ?pr = "pr\<lparr>pair_value := ?v\<rparr>"
      obtain t' where t': "setValue (Some a) val t = Done () t'" "only_pairs t t'" "pairs t' = (pairs t)(a \<mapsto> ?pr)"
        using setValue_run [OF found(2), of val] by (elim exE conjE)
      have fr: "same_setup t t'" "bucketArray t' = bucketArray t" "numOfBuckets t' = numOfBuckets t"
        "next_pair t' = next_pair t" "numOfElements t' = numOfElements t" "pendingRemoves t' = pendingRemoves t"
        using t'(2) by (simp_all add: only_pairs_def)
      have counts: "ht_counts t'"
        by (rule counts_revive [OF c found(2) _ t'(3) fr(4,1)]) (use fr False in simp_all)
      have kk: "same k' k'" by (rule key_contractD(1) [OF kc])
      have "ht_inv same hf t' bs"
        by (rule inv_replace [OF inv found(2,3) _ kk _ t'(3) fr(2,3,1) counts]) (use found(3) in simp_all)
      moreover have "binds same (pairs t') x v \<longleftrightarrow> upd same m k ?v x = Some v" for x v
        using binds_replace [OF kc uk found(2,3) _ kk, of ?pr x v] found(3) False rep same_class(1) [OF kc found(4), of x] t'(3)
        by (auto simp: ht_rep_def upd_def)
      ultimately have "ht_rep same hf t' (upd same m k ?v)" unfolding ht_rep_def by blast
      moreover have "HashTable_SetItemValue (Some k) val t = Done () t'"
        using get found(2) False t'(1) by (simp add: HashTable_SetItemValue_def bind_def)
      moreover have "dom (pairs t') = dom (pairs t)" using t'(3) found(2) by auto
      ultimately show ?thesis using mk False fr(1) by auto
    qed
  next
    case (absent q)
    have get: "HashTable_Get (Some k) t = Done None t"
      using absent(2) by (simp add: HashTable_Get_def bind_def gets_def step ret_def)
    have "m k = None" by (rule absent_unbound [OF rep]) (rule absent(1))
    then show ?thesis using get by (simp add: HashTable_SetItemValue_def bind_def fail_def)
  qed
  then show "m k \<noteq> None \<Longrightarrow> \<exists>t'. HashTable_SetItemValue (Some k) val t = Done () t' \<and> same_setup t t' \<and>
      ht_rep same hf t' (upd same m k ?v) \<and> card (dom (pairs t')) = card (dom (pairs t))"
    "m k = None \<Longrightarrow> HashTable_SetItemValue (Some k) val t = Failed t"
    by blast+
qed

lemma clear_pairs_run:
  assumes "foreachRecursionLevel t = 0" and "chain (pairs t) p as" and "distinct as"
  shows "\<exists>t'. clear_pairs p t = Some (Done () t') \<and> pairs t' = (pairs t) |` (- set as) \<and> only_pairs t t'"
  using assms
proof (induction as arbitrary: p t)
  case Nil
  then show ?case by (subst clear_pairs.simps) (simp add: only_pairs_refl restrict_map_def)
next
  case (Cons a as)
  from Cons.prems(2) obtain pr where pr: "p = Some a" "pairs t a = Some pr" "chain (pairs t) (pair_next pr) as" by auto
  obtain t1 where t1: "disposePair (Some a) t = Done () t1" "pairs t1 = (pairs t)(a := None)" "only_pairs t t1"
    using disposePair_run [OF pr(2)] by (elim exE conjE)
  have "foreachRecursionLevel t1 = 0" using t1(3) Cons.prems(1) by (simp add: only_pairs_def same_setup_def)
  moreover have "chain (pairs t1) (pair_next pr) as" using t1(2) pr(3) Cons.prems(3) by simp
  ultimately obtain t' where t': "clear_pairs (pair_next pr) t1 = Some (Done () t')" "pairs t' = (pairs t1) |` (- set as)"
      "only_pairs t1 t'"
    using Cons.IH [of t1 "pair_next pr"] Cons.prems(3) by auto
  have "clear_pairs p t = Some (Done () t')" using pr t1(1) t'(1) Cons.prems(1) by (subst clear_pairs.simps) simp
  moreover have "pairs t' = (pairs t) |` (- set (a # as))" using t'(2) t1(2) by (auto simp: restrict_map_def)
  ultimately show ?case using only_pairs_trans [OF t1(3) t'(3)] by blast
qed

text \<open>Half way through clearing: the buckets in \<open>is\<close> are as they were, the others are empty.\<close>

definition clearing :: "nat list list \<Rightarrow> ('k, 'v) wHashTable \<Rightarrow> nat list \<Rightarrow> ('k, 'v) wHashTable \<Rightarrow> bool" where
  "clearing bs t0 is t \<longleftrightarrow> distinct is \<and> set is \<subseteq> {..<numOfBuckets t0} \<and>
     pairs t = pairs t0 |` set (concat (map ((!) bs) is)) \<and> same_frame t0 t \<and>
     length (bucketArray t) = numOfBuckets t0 \<and>
     (\<forall>j < numOfBuckets t0. bucketArray t ! j = (if j \<in> set is then bucketArray t0 ! j else None))"

lemma clear_bucket_run:
  assumes inv: "ht_inv same hf t0 bs" and level: "foreachRecursionLevel t0 = 0" and cl: "clearing bs t0 (i # is) t"
  shows "\<exists>t'. clear_bucket i t = Done () t' \<and> clearing bs t0 is t'"
proof -
  have th: "threaded hf (numOfBuckets t0) (pairs t0) (bucketArray t0) bs" using inv by (simp add: ht_inv_def)
  have i: "i < numOfBuckets t0" "i \<notin> set is" "distinct is" "set is \<subseteq> {..<numOfBuckets t0}"
    and h: "pairs t = pairs t0 |` set (concat (map ((!) bs) (i # is)))" and fr: "same_frame t0 t"
    and arr: "length (bucketArray t) = numOfBuckets t0" "bucketArray t ! i = bucketArray t0 ! i"
    and slots: "\<forall>j < numOfBuckets t0. bucketArray t ! j = (if j \<in> set (i # is) then bucketArray t0 ! j else None)"
    using cl by (auto simp: clearing_def)
  have "chain (pairs t) (bucketArray t0 ! i) (bs ! i)"
    using threadedD(1) [OF th i(1)] chain_cong [of "bs ! i" "pairs t" "pairs t0"] h by simp
  moreover have "foreachRecursionLevel t = 0" using fr level by (simp add: same_frame_def same_setup_def)
  ultimately obtain s where s: "clear_pairs (bucketArray t0 ! i) t = Some (Done () s)"
      "pairs s = (pairs t) |` (- set (bs ! i))" "only_pairs t s"
    using clear_pairs_run [of t "bucketArray t0 ! i" "bs ! i"] threadedD(2) [OF th i(1)] by auto
  define t' where "t' = s\<lparr>bucketArray := (bucketArray t)[i := None]\<rparr>"
  have fs: "bucketArray s = bucketArray t" "same_frame t t'"
    using s(3) by (simp_all add: only_pairs_def same_frame_def same_setup_def t'_def)
  have "clear_bucket i t = Done () t'"
    using arr s(1) fs i(1) by (simp add: clear_bucket_def bind_def seq_def get_bucket_def set_bucket_def t'_def)
  moreover have "set (bs ! i) \<inter> set (concat (map ((!) bs) is)) = {}"
    using threaded_distinct [OF th, of "i # is"] i by simp
  then have "pairs t' = pairs t0 |` set (concat (map ((!) bs) is))"
    unfolding t'_def using s(2) h by (auto simp: restrict_map_def fun_eq_iff)
  moreover have "\<forall>j < numOfBuckets t0. bucketArray t' ! j = (if j \<in> set is then bucketArray t0 ! j else None)"
  proof (intro allI impI)
    fix j
    assume "j < numOfBuckets t0"
    then show "bucketArray t' ! j = (if j \<in> set is then bucketArray t0 ! j else None)"
      using slots arr(1) i(1,2) by (cases "j = i") (simp_all add: t'_def)
  qed
  ultimately show ?thesis
    using i fr fs(2) arr(1) by (intro exI [of _ t']) (auto simp: clearing_def t'_def elim: same_frame_trans)
qed

lemma clear_rep:
  assumes rep: "ht_rep same hf t m" and level: "foreachRecursionLevel t = 0"
  shows "\<exists>t'. HashTable_Clear mok t = Done () t' \<and> same_setup t t' \<and> ht_rep same hf t' (\<lambda>_. None) \<and>
    numOfElements t' = 0"
proof -
  obtain bs where inv: "ht_inv same hf t bs" using rep by (auto simp: ht_rep_def)
  have th: "threaded hf (numOfBuckets t) (pairs t) (bucketArray t) bs" and c: "ht_counts t"
    and dom: "dom (pairs t) = set (concat bs)" using inv by (simp_all add: ht_inv_def)
  have len: "length bs = numOfBuckets t" "length (bucketArray t) = numOfBuckets t" using th by (simp_all add: threaded_def)
  have "pairs t |` set (concat (map ((!) bs) [0..<numOfBuckets t])) = pairs t"
    unfolding bucket_lists [OF len(1)] dom [symmetric] by (auto simp: restrict_map_def fun_eq_iff domIff)
  then have "clearing bs t [0..<numOfBuckets t] t" using len(2) by (auto simp: clearing_def same_frame_refl)
  then obtain s where s: "for_buckets clear_bucket [0..<numOfBuckets t] t = Done () s" "clearing bs t [] s"
    using for_buckets_run [where P = "clearing bs t", of "[0..<numOfBuckets t]" t clear_bucket]
      clear_bucket_run [OF inv level] by (auto simp del: for_buckets.simps)
  define t1 where "t1 = s\<lparr>numOfElements := 0\<rparr>"
  have fr: "pairs t1 = Map.empty" "length (bucketArray t1) = numOfBuckets t" "\<forall>j < numOfBuckets t. bucketArray t1 ! j = None"
      "same_setup t t1" "numOfBuckets t1 = numOfBuckets t" "next_pair t1 = next_pair t" "pendingRemoves t1 = pendingRemoves t"
      "numOfElements t1 = 0"
    using s(2) by (auto simp: clearing_def t1_def same_frame_def same_setup_def restrict_map_def)
  have "threaded hf (numOfBuckets t1) (pairs t1) (bucketArray t1) (replicate (numOfBuckets t) [])"
    using fr by (simp add: threaded_def)
  moreover have none: "live (pairs t1) = {}" "doomed (pairs t1) = {}" using fr(1) by (simp_all add: live_def doomed_def)
  moreover have "doomed (pairs t) = {}" using c level by (simp add: ht_counts_def)
  then have "ht_counts t1" using c fr none by (simp add: ht_counts_def)
  moreover have "unique_keys same (pairs t1)" using fr(1) by (simp add: unique_keys_def)
  ultimately have "ht_inv same hf t1 (replicate (numOfBuckets t) [])"
    using inv fr by (simp add: ht_inv_def same_setup_def)
  then have "ht_rep same hf t1 (\<lambda>_. None)" using fr(1) by (auto simp: ht_rep_def binds_def binds_there_def)
  from rehash_rep [OF this, of True mok 5] obtain t' where t': "HashTable_Rehash mok 5 t1 = Done () t'"
      "ht_rep same hf t' (\<lambda>_. None)" "same_setup t1 t'" "numOfElements t' = numOfElements t1"
    by auto
  have "foreachRecursionLevel t1 = 0" using fr(4) level by (simp add: same_setup_def)
  then have "HashTable_Clear mok t = Done () t'"
    using s(1) t'(1) by (simp add: HashTable_Clear_def bind_def seq_def gets_def modify_def t1_def)
  then show ?thesis using t' fr(4,8) same_setup_trans [OF fr(4) t'(3)] by auto
qed

text \<open>A new table compares addresses and is empty.\<close>

definition same_address :: "('k \<Rightarrow> u64) \<Rightarrow> 'k \<Rightarrow> 'k \<Rightarrow> bool" where
  "same_address addr x y \<longleftrightarrow> addr x = addr y"

lemma pointer_contract: "key_contract (same_address addr) (\<lambda>k. HashTable_PointerHash (addr k)) (pointer_object addr)"
  by (auto simp: key_contract_def same_address_def pointer_object_def HashTable_PointerCompare_def new_object_def
      intro!: equivpI reflpI sympI transpI)

lemma new_rep:
  assumes "HashTable_New mok addr_k addr_v = Some t"
  shows "ht_rep (same_address addr_k) (\<lambda>k. HashTable_PointerHash (addr_k k)) t (\<lambda>_. None)"
    and "foreachRecursionLevel t = 0" and "dom (pairs t) = {}" and "ht_value t = pointer_object addr_v"
proof -
  have t: "pairs t = Map.empty" "bucketArray t = replicate 64 None" "numOfBuckets t = 64" "numOfElements t = 0"
      "idealRatio t = 3" "pendingRemoves t = 0" "ht_hash t = Some (\<lambda>k. HashTable_PointerHash (addr_k k))"
      "ht_key t = pointer_object addr_k" "ht_value t = pointer_object addr_v" "foreachRecursionLevel t = 0"
    using assms unfolding HashTable_New_def by (simp_all split: if_splits) (auto)
  have "ht_inv (same_address addr_k) (\<lambda>k. HashTable_PointerHash (addr_k k)) t (replicate 64 [])"
    using t pointer_contract [of addr_k]
    by (simp add: ht_inv_def threaded_def unique_keys_def ht_counts_def live_def doomed_def)
  then show "ht_rep (same_address addr_k) (\<lambda>k. HashTable_PointerHash (addr_k k)) t (\<lambda>_. None)"
    using t(1) by (auto simp: ht_rep_def binds_def binds_there_def)
  show "foreachRecursionLevel t = 0" "dom (pairs t) = {}" "ht_value t = pointer_object addr_v" using t by simp_all
qed

section \<open>Tables as dictionaries\<close>

text \<open>
  The contract a client of a table relies on, for tables that hold the values themselves: each
  operation does what it says to the map, and \<open>weight\<close>, which insertions raise by one, stays small.
\<close>

datatype ('k, 'w) command = Put 'k 'w | Assign 'k 'w | Drop 'k | Reset

fun meaning :: "('k \<Rightarrow> 'k \<Rightarrow> bool) \<Rightarrow> ('k, 'w) command \<Rightarrow> ('k \<Rightarrow> 'w option) \<Rightarrow> 'k \<Rightarrow> 'w option" where
  "meaning same (Put k v) m = upd same m k v"
| "meaning same (Assign k v) m = (if m k = None then m else upd same m k v)"
| "meaning same (Drop k) m = (if m k = None then m else del same m k)"
| "meaning same Reset m = (\<lambda>_. None)"

text \<open>
  What an operation returns: assigning and removing succeed exactly on keys that are bound. \<open>answers\<close> are
  the results of a sequence of operations on a map, \<open>calls\<close> runs a sequence of calls and collects theirs.
\<close>

fun answer :: "('k, 'w) command \<Rightarrow> ('k \<Rightarrow> 'w option) \<Rightarrow> bool" where
  "answer (Put k v) m = True"
| "answer (Assign k v) m = (m k \<noteq> None)"
| "answer (Drop k) m = (m k \<noteq> None)"
| "answer Reset m = True"

fun answers :: "('k \<Rightarrow> 'k \<Rightarrow> bool) \<Rightarrow> ('k, 'w) command list \<Rightarrow> ('k \<Rightarrow> 'w option) \<Rightarrow> bool list" where
  "answers same [] m = []"
| "answers same (c # cs) m = answer c m # answers same cs (meaning same c m)"

fun calls :: "('c \<Rightarrow> ('t, unit) prog) \<Rightarrow> 'c list \<Rightarrow> ('t, bool list) prog" where
  "calls exec [] t = Done [] t"
| "calls exec (c # cs) t =
     (case exec c t of
        Fault e \<Rightarrow> Fault e
      | Failed t' \<Rightarrow> bind (calls exec cs) (\<lambda>rs. ret (False # rs)) t'
      | Done _ t' \<Rightarrow> bind (calls exec cs) (\<lambda>rs. ret (True # rs)) t')"

locale dictionary =
  fixes rep :: "'t \<Rightarrow> ('k \<Rightarrow> 'w option) \<Rightarrow> bool"
    and weight :: "'t \<Rightarrow> nat"
    and limit :: nat
    and same :: "'k \<Rightarrow> 'k \<Rightarrow> bool"
    and exec :: "('k, 'w) command \<Rightarrow> ('t, unit) prog"
  assumes step: "rep t m \<Longrightarrow> weight t + 1 < limit \<Longrightarrow>
    \<exists>t'. exec c t = (if answer c m then Done () t' else Failed t') \<and> rep t' (meaning same c m) \<and> weight t' \<le> weight t + 1"
begin

lemma sequence:
  assumes "rep t m" and "weight t + length cs < limit"
  shows "\<exists>t'. calls exec cs t = Done (answers same cs m) t' \<and> rep t' (fold (meaning same) cs m) \<and> weight t' \<le> weight t + length cs"
  using assms
proof (induction cs arbitrary: t m)
  case (Cons c cs)
  from step [OF Cons.prems(1), of c] Cons.prems(2) obtain t1 where
      t1: "exec c t = (if answer c m then Done () t1 else Failed t1)" "rep t1 (meaning same c m)" "weight t1 \<le> weight t + 1"
    by auto
  from Cons.IH [OF t1(2)] t1(3) Cons.prems(2) obtain t' where
      t': "calls exec cs t1 = Done (answers same cs (meaning same c m)) t'" "rep t' (fold (meaning same) cs (meaning same c m))" "weight t' \<le> weight t1 + length cs"
    by auto
  then show ?case using t1(1,3) by auto
qed simp

end

fun ht_exec :: "(nat \<Rightarrow> bool) \<Rightarrow> ('k, 'v pointer) command \<Rightarrow> ('k, 'v, unit) htprog" where
  "ht_exec mok (Put k v) = HashTable_Insert mok (Some k) v"
| "ht_exec mok (Assign k v) = HashTable_SetItemValue (Some k) v"
| "ht_exec mok (Drop k) = HashTable_Remove mok (Some k)"
| "ht_exec mok Reset = HashTable_Clear mok"

text \<open>
  Outside of an iteration, with values that are not copied. Inserting \<^verbatim>\<open>NULL\<close> is refused by the code,
  so such a call is not one of the commands.
\<close>

definition plain_table :: "('k \<Rightarrow> 'k \<Rightarrow> bool) \<Rightarrow> ('k \<Rightarrow> u32) \<Rightarrow> ('k, 'v) wHashTable \<Rightarrow> ('k \<Rightarrow> 'v option) \<Rightarrow> bool" where
  "plain_table same hf t m \<longleftrightarrow> ht_rep same hf t (\<lambda>k. map_option Some (m k)) \<and> foreachRecursionLevel t = 0 \<and>
     fnObjectNew (ht_value t) = None"

definition ht_call :: "(nat \<Rightarrow> bool) \<Rightarrow> ('k, 'v) command \<Rightarrow> ('k, 'v, unit) htprog" where
  "ht_call mok c = ht_exec mok (map_command id Some c)"

lemma rep_card: "ht_rep same hf t m \<Longrightarrow> foreachRecursionLevel t = 0 \<Longrightarrow> card (dom (pairs t)) = numOfElements t"
  using dom_live_doomed [of "pairs t"] by (auto simp: ht_rep_def ht_inv_def ht_counts_def)

lemma plain_rep: "plain_table same hf t m \<Longrightarrow> ht_rep same hf t' M \<Longrightarrow> same_setup t t' \<Longrightarrow> M = (\<lambda>k. map_option Some (m' k)) \<Longrightarrow>
    plain_table same hf t' m'"
  by (simp add: plain_table_def same_setup_def)

lemma lifted: "upd same (\<lambda>k. map_option Some (m k)) k (Some v) = (\<lambda>x. map_option Some (upd same m k v x))"
  "del same (\<lambda>k. map_option Some (m k)) k = (\<lambda>x. map_option Some (del same m k x))"
  by (auto simp: upd_def del_def)

lemma ht_step:
  assumes "mok 32" and pt: "plain_table same hf t m" and room: "numOfElements t + 1 < 2 ^ 32"
  shows "\<exists>t'. ht_call mok c t = (if answer c m then Done () t' else Failed t') \<and> plain_table same hf t' (meaning same c m) \<and>
    numOfElements t' \<le> numOfElements t + 1"
proof -
  let ?m = "\<lambda>k. map_option Some (m k)"
  have rep: "ht_rep same hf t ?m" and level: "foreachRecursionLevel t = 0" and plain: "new_object (ht_value t) x = x" for x
    using pt by (simp_all add: plain_table_def new_object_def)
  show ?thesis
  proof (cases c)
    case (Put k v)
    have "card (dom (pairs t)) + 1 < 2 ^ 32" using rep_card [OF rep level] room by simp
    from insert_rep [OF rep this, of "Some v" mok k] obtain t' where
        "HashTable_Insert mok (Some k) (Some v) t = Done () t'" "same_setup t t'" "ht_rep same hf t' (upd same ?m k (Some v))"
        "numOfElements t' \<le> numOfElements t + 1"
      using \<open>mok 32\<close> plain by auto
    then show ?thesis using Put plain_rep [OF pt] by (auto simp: ht_call_def lifted)
  next
    case (Assign k v)
    show ?thesis
    proof (cases "m k = None")
      case True
      then show ?thesis using setitem_rep(2) [OF rep, of k "Some v"] Assign pt by (auto simp: ht_call_def)
    next
      case False
      then obtain t' where t': "HashTable_SetItemValue (Some k) (Some v) t = Done () t'" "same_setup t t'"
          "ht_rep same hf t' (upd same ?m k (Some v))" "card (dom (pairs t')) = card (dom (pairs t))"
        using setitem_rep(1) [OF rep, of k "Some v"] plain by auto
      then have "numOfElements t' = numOfElements t"
        using rep_card [OF rep level] rep_card [OF t'(3)] level by (simp add: same_setup_def)
      then show ?thesis using t' Assign False plain_rep [OF pt t'(3,2)] by (auto simp: ht_call_def lifted)
    qed
  next
    case (Drop k)
    show ?thesis
    proof (cases "m k = None")
      case True
      then show ?thesis using remove_unbound [OF rep _ level, of k mok] Drop pt by (auto simp: ht_call_def)
    next
      case False
      then obtain t' where t': "HashTable_Remove mok (Some k) t = Done () t'" "same_setup t t'"
          "ht_rep same hf t' (del same ?m k)" "numOfElements t' = numOfElements t - 1"
        using remove_bound [OF rep, of k mok] by auto
      then show ?thesis using Drop False plain_rep [OF pt t'(3,2)] by (auto simp: ht_call_def lifted)
    qed
  next
    case Reset
    obtain t' where t': "HashTable_Clear mok t = Done () t'" "same_setup t t'" "ht_rep same hf t' (\<lambda>_. None)" "numOfElements t' = 0"
      using clear_rep [OF rep level, of mok] by auto
    then show ?thesis using Reset plain_rep [OF pt t'(3,2), of "\<lambda>_. None"] by (auto simp: ht_call_def)
  qed
qed

interpretation ht: dictionary "plain_table same hf" numOfElements "2 ^ 32" same "ht_call (\<lambda>n. n = 32 \<or> mok n)" for same hf mok
  by unfold_locales (rule ht_step, simp_all)

definition same_content :: "cstring \<Rightarrow> cstring \<Rightarrow> bool" where
  "same_content x y \<longleftrightarrow> snd x = snd y"

lemma string_contract:
  assumes "\<forall>s. place s \<noteq> None"
  shows "key_contract same_content HashTable_StringHash (string_object place)"
proof -
  have "\<exists>y. new_object (string_object place) (Some x) = Some y \<and> same_content x y" for x
  proof -
    obtain a where "place (snd x) = Some a" using assms by blast
    then show ?thesis by (cases x) (simp add: new_object_def string_object_def HashTable_StringClone_def same_content_def)
  qed
  moreover have "equivp same_content" by (auto simp: same_content_def intro!: equivpI reflpI sympI transpI)
  ultimately show ?thesis
    by (auto simp: key_contract_def string_object_def same_content_def HashTable_StringHash_def)
qed

section \<open>Correctness\<close>

text \<open>
  C18. A table as \<^verbatim>\<open>HashTable_New\<close> makes it is well-formed and empty, comparing addresses; after
  \<^verbatim>\<open>HashTable_SetupForStringData\<close> it is well-formed and empty comparing the contents of strings, provided
  keys can be copied, and values are copied as strings exactly if that was asked for.
\<close>

theorem hashtable_new_well_formed:
  assumes "HashTable_New mok addr_k addr_v = Some t" and "\<forall>s. place s \<noteq> None"
  shows "plain_table (same_address addr_k) (\<lambda>k. HashTable_PointerHash (addr_k k)) t (\<lambda>_. None) \<and>
    (\<exists>t'. HashTable_SetupForStringData place stringValues t = Done () t' \<and>
      ht_rep same_content HashTable_StringHash t' (\<lambda>_. None) \<and> foreachRecursionLevel t' = 0 \<and>
      (if stringValues then ht_value t' = string_object place
       else plain_table same_content HashTable_StringHash t' (\<lambda>_. None)))"
proof
  note new = new_rep [OF assms(1)]
  show "plain_table (same_address addr_k) (\<lambda>k. HashTable_PointerHash (addr_k k)) t (\<lambda>_. None)"
    using new by (simp add: plain_table_def pointer_object_def)
  define t' where "t' = t\<lparr>ht_hash := Some HashTable_StringHash, ht_key := string_object place,
    ht_value := (if stringValues then string_object place else ht_value t)\<rparr>"
  obtain bs where inv: "ht_inv (same_address addr_k) (\<lambda>k. HashTable_PointerHash (addr_k k)) t bs"
    using new(1) by (auto simp: ht_rep_def)
  have empty: "concat bs = []" "pairs t = Map.empty" using inv new(3) by (auto simp: ht_inv_def)
  have "ht_inv same_content HashTable_StringHash t' bs"
    using inv empty string_contract [OF assms(2)]
    by (auto simp: ht_inv_def t'_def threaded_def unique_keys_def ht_counts_def)
  then have rep: "ht_rep same_content HashTable_StringHash t' (\<lambda>_. None)"
    using empty(2) by (auto simp: ht_rep_def binds_def binds_there_def t'_def)
  moreover have level: "foreachRecursionLevel t' = 0" using new(2,4) by (simp add: t'_def)
  moreover have "ht_value t' = (if stringValues then string_object place else pointer_object addr_v)"
    using new(2,4) by (simp add: t'_def)
  then have "if stringValues then ht_value t' = string_object place
      else plain_table same_content HashTable_StringHash t' (\<lambda>_. None)"
    using rep level by (simp add: plain_table_def pointer_object_def)
  moreover have "HashTable_SetupForStringData place stringValues t = Done () t'"
    by (simp add: HashTable_SetupForStringData_def HashTable_SetHashFunction_def seq_def bind_def modify_def require_def
        ret_def t'_def)
  ultimately show "\<exists>t'. HashTable_SetupForStringData place stringValues t = Done () t' \<and>
      ht_rep same_content HashTable_StringHash t' (\<lambda>_. None) \<and> foreachRecursionLevel t' = 0 \<and>
      (if stringValues then ht_value t' = string_object place
       else plain_table same_content HashTable_StringHash t' (\<lambda>_. None))" by blast
qed

theorem hashtable_new_well_formed_witness:
  "\<exists>t t'. HashTable_New (\<lambda>_. True) fst fst = Some t \<and>
    plain_table (same_address fst) (\<lambda>k. HashTable_PointerHash (fst k)) t (\<lambda>_. None) \<and>
    HashTable_SetupForStringData (\<lambda>s. Some (of_nat (length s))) False t = Done () t' \<and>
    plain_table same_content HashTable_StringHash t' (\<lambda>_. None)"
proof -
  obtain t where t: "HashTable_New (\<lambda>_. True) fst fst = Some (t :: (cstring, cstring) wHashTable)"
    by (auto simp: HashTable_New_def)
  from hashtable_new_well_formed [OF t, of "\<lambda>s. Some (of_nat (length s))" False] t show ?thesis by auto
qed

text \<open>
  C5. A hash table implements a map. Whatever the sequence of insertions, assignments, removals and
  clearings, with rehashing wherever the code rehashes and whether or not the arrays for it can be
  allocated, every call returns, with success for insertions and clearings and for assignments and
  removals exactly of keys that are bound, and a lookup afterwards gives what the same sequence of
  operations on a map gives, for all keys.
\<close>

theorem hashtable_refines_map:
  assumes "plain_table same hf t m" and "mok 32" and "numOfElements t + length cs < 2 ^ 32"
  shows "\<exists>t'. calls (ht_call mok) cs t = Done (answers same cs m) t' \<and> plain_table same hf t' (fold (meaning same) cs m) \<and>
    (\<forall>k. HashTable_GetItemValue (Some k) t' = Done (fold (meaning same) cs m k) t' \<and>
         HashTable_Contains (Some k) t' = Done (fold (meaning same) cs m k \<noteq> None) t')"
proof -
  have mok: "(\<lambda>n. n = 32 \<or> mok n) = mok" using assms(2) by auto
  obtain t' where t': "calls (ht_call mok) cs t = Done (answers same cs m) t'" "plain_table same hf t' (fold (meaning same) cs m)"
    using ht.sequence [OF assms(1,3), of mok] unfolding mok by auto
  moreover have "HashTable_GetItemValue (Some k) t' = Done (fold (meaning same) cs m k) t' \<and>
      HashTable_Contains (Some k) t' = Done (fold (meaning same) cs m k \<noteq> None) t'" for k
    using lookup_rep [where k = k, of same hf t' "\<lambda>k. map_option Some (fold (meaning same) cs m k)"] t'(2)
    by (cases "fold (meaning same) cs m k") (simp_all add: plain_table_def)
  ultimately show ?thesis by blast
qed

theorem hashtable_refines_map_witness:
  "\<exists>t t'. HashTable_New (\<lambda>_. True) id id = Some (t :: (u64, u64) wHashTable) \<and>
    calls (ht_call (\<lambda>_. True)) [Put 16 1, Put 32 2, Put 16 3, Drop 32, Assign 16 4, Drop 32] t =
      Done [True, True, True, True, True, False] t' \<and>
    HashTable_GetItemValue (Some 16) t' = Done (Some 4) t' \<and> HashTable_Contains (Some 32) t' = Done False t'"
proof -
  obtain t where t: "HashTable_New (\<lambda>_. True) id id = Some (t :: (u64, u64) wHashTable)" by (auto simp: HashTable_New_def)
  have "numOfElements t = 0" using t by (auto simp: HashTable_New_def)
  moreover have "plain_table (same_address id) (\<lambda>k. HashTable_PointerHash (id k)) t (\<lambda>_. None)"
    using new_rep [OF t] by (simp add: plain_table_def pointer_object_def)
  ultimately show ?thesis
    using hashtable_refines_map [of "same_address id" "\<lambda>k. HashTable_PointerHash (id k)" t "\<lambda>_. None" "\<lambda>_. True"
        "[Put 16 1, Put 32 2, Put 16 3, Drop 32, Assign 16 4, Drop 32]"] t
    by (auto simp: same_address_def upd_def del_def split: if_splits)
qed

text \<open>A table with two pairs in two buckets, for the examples.\<close>

definition demo_table :: "(u64, u64) wHashTable" where
  "demo_table =
     \<lparr>numOfBuckets = 2, numOfElements = 2, idealRatio = 3, lowerRehashThreshold = 0, upperRehashThreshold = 15,
      bucketArray = [Some 1, Some 0], ht_hash = Some (\<lambda>k. HashTable_PointerHash (id k)), ht_key = pointer_object id,
      ht_value = pointer_object id, foreachRecursionLevel = 0, pendingRemoves = 0,
      pairs = [0 \<mapsto> \<lparr>pair_key = Some 16, pair_value = Some 1, pair_next = None, markedForRemove = False\<rparr>,
               1 \<mapsto> \<lparr>pair_key = Some 32, pair_value = Some 2, pair_next = None, markedForRemove = False\<rparr>],
      next_pair = 2, freed_keys = [], freed_values = []\<rparr>"

definition demo_map :: "u64 \<Rightarrow> u64 pointer option" where
  "demo_map k = (if k = 16 then Some (Some 1) else if k = 32 then Some (Some 2) else None)"

lemma demo_rep: "ht_rep (same_address id) (\<lambda>k. HashTable_PointerHash (id k)) demo_table demo_map"
proof -
  have hash: "HashTable_PointerHash 16 = 1" "HashTable_PointerHash 32 = 2"
    by (simp_all add: HashTable_PointerHash_def)
  have "live (pairs demo_table) = {0, 1}" "doomed (pairs demo_table) = {}"
    by (auto simp: live_def doomed_def demo_table_def split: if_splits)
  then have "ht_inv (same_address id) (\<lambda>k. HashTable_PointerHash (id k)) demo_table [[1], [0]]"
    using pointer_contract [of id]
    by (auto simp: demo_table_def ht_inv_def ht_counts_def threaded_def unique_keys_def same_address_def hash less_2_cases_iff
        split: if_splits)
  then show ?thesis
    by (auto simp: demo_table_def demo_map_def ht_rep_def binds_def binds_there_def same_address_def split: if_splits)
qed

text \<open>
  C13. The lookup through one bucket is equivalent to a search through all keys: \<^verbatim>\<open>HashTable_GetKeys\<close>
  lists as many keys as \<^verbatim>\<open>HashTable_Count\<close> says, no two of them equal, and \<^verbatim>\<open>HashTable_Contains\<close> answers for
  every key whether an equal one is in this list.
\<close>

theorem hashtable_contains_equivalent:
  assumes "ht_rep same hf t m" and "mok (numOfElements t * 8)"
  shows "\<exists>ks. HashTable_GetKeys mok t = Done (map Some ks) t \<and> HashTable_Count t = Done (length ks) t \<and>
    (\<forall>i < length ks. \<forall>j < length ks. same (ks ! i) (ks ! j) \<longrightarrow> i = j) \<and>
    (\<forall>k. HashTable_Contains (Some k) t = Done (list_ex (same k) ks) t)"
proof -
  obtain ks where ks: "HashTable_GetKeys mok t = Done (map Some ks) t" "length ks = numOfElements t"
      "\<forall>x. m x \<noteq> None \<longleftrightarrow> (\<exists>k \<in> set ks. same x k)" "\<forall>i < length ks. \<forall>j < length ks. same (ks ! i) (ks ! j) \<longrightarrow> i = j"
    using getkeys_rep [OF assms(1), of mok, OF assms(2)] by (elim exE conjE)
  have "HashTable_Contains (Some k) t = Done (list_ex (same k) ks) t" for k
    unfolding lookup_rep(2) [OF assms(1)] ks(3) [rule_format] by (simp add: list_ex_iff)
  then show ?thesis using ks(1,2,4) by (intro exI [of _ ks]) (simp add: HashTable_Count_def gets_def)
qed

theorem hashtable_contains_equivalent_witness:
  "\<exists>ks. HashTable_GetKeys (\<lambda>_. True) demo_table = Done (map Some ks) demo_table \<and> length ks = 2 \<and>
    list_ex (same_address id 16) ks \<and> \<not> list_ex (same_address id 48) ks"
proof -
  from hashtable_contains_equivalent [OF demo_rep, of "\<lambda>_. True", OF TrueI] obtain ks where
      ks: "HashTable_GetKeys (\<lambda>_. True) demo_table = Done (map Some ks) demo_table" "HashTable_Count demo_table = Done (length ks) demo_table"
      "\<forall>k. HashTable_Contains (Some k) demo_table = Done (list_ex (same_address id k) ks) demo_table"
    by (elim exE conjE)
  have "list_ex (same_address id 16) ks" "\<not> list_ex (same_address id 48) ks"
    using ks(3) lookup_rep(2) [OF demo_rep, of 16] lookup_rep(2) [OF demo_rep, of 48] by (simp_all add: demo_map_def)
  moreover have "length ks = 2" using ks(2) by (simp add: HashTable_Count_def gets_def demo_table_def)
  ultimately show ?thesis using ks(1) by blast
qed

text \<open>
  C35. A search that ends early leaves its table in iteration. With a callback that returns \<^verbatim>\<open>FALSE\<close> on
  the pair it looks for, \<^verbatim>\<open>HashTable_Foreach\<close> returns \<^verbatim>\<open>FALSE\<close> exactly if there is such a pair, and then the
  recursion level stays raised: every later removal only marks its pair, which is never freed.
\<close>

theorem foreach_search_keeps_level:
  assumes "ht_rep same hf t m" and "foreachRecursionLevel t = 0"
  shows "if \<exists>a. hits hit (pairs t) a
    then (\<exists>t'. HashTable_Foreach (search_fn hit) (t, c) = Done False (t', c) \<and> foreachRecursionLevel t' = 1 \<and>
      (\<forall>k. m k \<noteq> None \<longrightarrow> (\<exists>t''. HashTable_Remove mok (Some k) t' = Done () t'' \<and> foreachRecursionLevel t'' = 1 \<and>
         ht_rep same hf t'' (del same m k) \<and> dom (pairs t'') = dom (pairs t))))
    else HashTable_Foreach (search_fn hit) (t, c) = Done True (t, c)"
proof -
  obtain bs where inv: "ht_inv same hf t bs" using assms(1) by (auto simp: ht_rep_def)
  define t' where "t' = t\<lparr>foreachRecursionLevel := 1\<rparr>"
  have lv: "foreachRecursionLevel t' \<noteq> 0" "pairs t' = pairs t" by (simp_all add: t'_def)
  have inv': "ht_inv same hf t' bs" unfolding t'_def by (rule inv_raise [OF inv]) simp
  then have rep': "ht_rep same hf t' m" using assms(1) by (auto simp: ht_rep_def lv(2))
  have "\<exists>t''. HashTable_Remove mok (Some k) t' = Done () t'' \<and> foreachRecursionLevel t'' = 1 \<and>
      ht_rep same hf t'' (del same m k) \<and> dom (pairs t'') = dom (pairs t)" if "m k \<noteq> None" for k
  proof -
    from \<open>m k \<noteq> None\<close> rep' obtain v where "binds same (pairs t') k v" by (auto simp: ht_rep_def)
    then obtain a pr k' where a: "pairs t' a = Some pr" "pair_key pr = Some k'" "same k k'" "\<not> markedForRemove pr"
      unfolding binds_def binds_there_def by auto
    obtain t'' where t'': "HashTable_Remove mok (Some k) t' = Done () t''"
        "pairs t'' = (pairs t')(a \<mapsto> pr\<lparr>markedForRemove := True\<rparr>)"
      using remove_marks [where mok = mok, OF inv' a lv(1)] by (elim exE conjE)
    moreover have "ht_rep same hf t'' (del same m k)" "same_setup t' t''"
      using remove_bound [OF rep' \<open>m k \<noteq> None\<close>, of mok] t''(1) by auto
    moreover have "dom (pairs t'') = dom (pairs t)" using t''(2) a(1) lv(2) by auto
    ultimately show ?thesis by (simp add: same_setup_def t'_def)
  qed
  then show ?thesis using foreach_search [OF inv assms(2), of hit c] by (auto simp: t'_def)
qed

theorem foreach_search_keeps_level_witness:
  "\<exists>t'. HashTable_Foreach (search_fn (\<lambda>k v. v = Some 2)) (demo_table, ()) = Done False (t', ()) \<and>
    foreachRecursionLevel t' = 1"
proof -
  have "\<exists>a. hits (\<lambda>k v. v = Some 2) (pairs demo_table) a" by (rule exI [of _ 1]) (simp add: hits_def demo_table_def)
  then show ?thesis
    using foreach_search_keeps_level [OF demo_rep, of "\<lambda>k v. v = Some 2" "()" "\<lambda>_. True"] by (auto simp: demo_table_def)
qed

text \<open>
  Two more effects of an iteration. Clearing the table within one never ends, and removing a key a
  second time within one counts it twice.
\<close>

lemma clear_buckets_diverge:
  assumes "\<exists>i \<in> set is. bucketArray t ! i \<noteq> None" and "\<forall>i \<in> set is. i < length (bucketArray t)"
    and "\<forall>i \<in> set is. \<forall>a. bucketArray t ! i = Some a \<longrightarrow> pairs t a \<noteq> None" and "foreachRecursionLevel t \<noteq> 0"
  shows "for_buckets clear_bucket is t = Fault NonTermination"
  using assms(1-3)
proof (induction "is")
  case (Cons i "is")
  then have i: "get_bucket i t = Done (bucketArray t ! i) t" by (simp add: get_bucket_def)
  show ?case
  proof (cases "bucketArray t ! i")
    case None
    have "(bucketArray t)[i := None] = bucketArray t" using None by (metis list_update_id)
    then have "clear_bucket i t = Done () t"
      using i None Cons.prems(2) by (simp add: clear_bucket_def bind_def seq_def set_bucket_def clear_pairs.simps [of None])
    then show ?thesis using Cons None by (simp add: seq_def bind_def)
  next
    case (Some a)
    then have "clear_bucket i t = Fault NonTermination"
      using i Cons.prems(3) clear_pairs_diverges [OF assms(4), of a] by (simp add: clear_bucket_def bind_def seq_def)
    then show ?thesis by (simp add: seq_def bind_def)
  qed
qed simp

lemma clear_in_foreach_diverges:
  assumes inv: "ht_inv same hf t bs" and "foreachRecursionLevel t \<noteq> 0" and "dom (pairs t) \<noteq> {}"
  shows "HashTable_Clear mok t = Fault NonTermination"
proof -
  have th: "threaded hf (numOfBuckets t) (pairs t) (bucketArray t) bs" using inv by (simp add: ht_inv_def)
  obtain a where "a \<in> dom (pairs t)" using assms(3) by (meson ex_in_conv)
  then obtain pr where "pairs t a = Some pr" by blast
  then obtain k where k: "a \<in> set (bs ! (unat (hf k) mod numOfBuckets t))" by (rule ht_pairE [OF inv])
  let ?i = "unat (hf k) mod numOfBuckets t"
  have i: "?i < numOfBuckets t" by (rule bucket_index_run(3) [OF inv])
  have "bucketArray t ! ?i \<noteq> None" using threadedD(1) [OF th i] k by (cases "bucketArray t ! ?i") simp_all
  then have "\<exists>i \<in> set [0..<numOfBuckets t]. bucketArray t ! i \<noteq> None" using i by auto
  moreover have "\<forall>i \<in> set [0..<numOfBuckets t]. i < length (bucketArray t)" using th by (simp add: threaded_def)
  moreover have "pairs t b \<noteq> None" if "j < numOfBuckets t" "bucketArray t ! j = Some b" for j b
    using threadedD(1) [OF th that(1)] that(2) by (auto simp: chain_Some)
  ultimately have "for_buckets clear_bucket [0..<numOfBuckets t] t = Fault NonTermination"
    using assms(2) by (intro clear_buckets_diverge) auto
  then show ?thesis by (simp add: HashTable_Clear_def bind_def seq_def gets_def)
qed

lemma remove_marked_again:
  assumes inv: "ht_inv same hf t bs" and a: "pairs t a = Some pr" "pair_key pr = Some k" "markedForRemove pr"
    and level: "foreachRecursionLevel t \<noteq> 0"
  shows "HashTable_Remove mok (Some k) t =
    Done () (t\<lparr>pendingRemoves := pendingRemoves t + 1, numOfElements := sub64 (numOfElements t) 1\<rparr>)"
proof -
  have kc: "key_contract same hf (ht_key t)" and uk: "unique_keys same (pairs t)" using inv by (simp_all add: ht_inv_def)
  note step = bucket_index_run(1,2) [OF inv, of k]
  have same: "(pairs t)(a \<mapsto> pr\<lparr>markedForRemove := True\<rparr>) = pairs t"
    using a by (intro fun_upd_idem) simp
  show ?thesis
  proof (cases rule: find_pair_cases [OF inv refl, of k, case_names found absent])
    case (found xs b ys q k2)
    then have "a = b" using uk a(1,2) found(2-4) unfolding unique_keys_def by blast
    then show ?thesis
      unfolding HashTable_Remove_def using level a(1) same
      by (simp add: bind_def seq_def gets_def step found(5) modify_def)
  next
    case (absent q)
    then show ?thesis using absent(1) [OF a(1,2)] key_contractD(1) [OF kc] by simp
  qed
qed

text \<open>
  C9. An iteration whose callback may remove the pair it is called on visits every pair exactly once,
  returns, and leaves a well-formed table, outside of iteration, that maps exactly the keys that were
  not removed, to their old values.
\<close>

theorem foreach_visits_all_and_removes:
  assumes "ht_rep same hf t m" and "foreachRecursionLevel t = 0" and "visits mok sel g I fn" and "I c"
    and "\<forall>x y v. same x y \<longrightarrow> sel (Some x) v = sel (Some y) v"
  shows "\<exists>as t'. distinct as \<and> set as = dom (pairs t) \<and>
    HashTable_Foreach fn (t, c) = Done True (t', fold (effect (pairs t) g) as c) \<and>
    ht_rep same hf t' (restrict sel m) \<and> foreachRecursionLevel t' = 0 \<and>
    (\<forall>k. HashTable_Contains (Some k) t' = Done (\<exists>v. m k = Some v \<and> \<not> sel (Some k) v) t')"
proof -
  obtain as t' where t': "distinct as" "set as = live (pairs t)"
      "HashTable_Foreach fn (t, c) = Done True (t', fold (effect (pairs t) g) as c)"
      "ht_rep same hf t' (restrict sel m)" "foreachRecursionLevel t' = 0"
    using foreach_visits [OF assms] by (elim exE conjE)
  have "doomed (pairs t) = {}" using assms(1,2) by (auto simp: ht_rep_def ht_inv_def ht_counts_def)
  then have "set as = dom (pairs t)" using t'(2) dom_live_doomed [of "pairs t"] by simp
  moreover have "HashTable_Contains (Some k) t' = Done (\<exists>v. m k = Some v \<and> \<not> sel (Some k) v) t'" for k
    using lookup_rep(2) [OF t'(4), of k] by (cases "m k") (simp_all add: restrict_def)
  ultimately show ?thesis using t' by blast
qed

theorem foreach_visits_all_and_removes_witness:
  "\<exists>fn t'. HashTable_Foreach fn (demo_table, 0 :: nat) = Done True (t', 2) \<and>
    HashTable_Contains (Some 16) t' = Done True t' \<and> HashTable_Contains (Some 32) t' = Done False t'"
proof -
  let ?sel = "\<lambda>(k :: u64 pointer) v. v = Some (2 :: u64)"
  let ?fn = "(\<lambda>k v (t, c). if ?sel k v
       then (case HashTable_Remove (\<lambda>_. True) k t of
               Fault e \<Rightarrow> Fault e | Failed t' \<Rightarrow> Done True (t', Suc c) | Done _ t' \<Rightarrow> Done True (t', Suc c))
       else Done True (t, Suc c)) :: (u64, u64, nat) foreach_fn"
  have v: "visits (\<lambda>_. True) ?sel (\<lambda>_ _ c. Suc c) (\<lambda>_. True) ?fn" by (simp add: visits_def)
  have lv: "foreachRecursionLevel demo_table = 0" and dom: "dom (pairs demo_table) = {0, 1}" by (auto simp: demo_table_def)
  from foreach_visits_all_and_removes [OF demo_rep lv v TrueI, of "0 :: nat"] obtain as t' where
      t': "distinct as" "set as = dom (pairs demo_table)"
      "HashTable_Foreach ?fn (demo_table, 0) = Done True (t', fold (effect (pairs demo_table) (\<lambda>_ _ c. Suc c)) as 0)"
      "\<forall>k. HashTable_Contains (Some k) t' = Done (\<exists>v. demo_map k = Some v \<and> v \<noteq> Some 2) t'"
    by auto
  have "fold (effect (pairs demo_table) (\<lambda>_ _ c. Suc c)) bs (n :: nat) = n + length bs" if "set bs \<subseteq> dom (pairs demo_table)" for bs n
    using that by (induction bs arbitrary: n) (auto simp: effect_def)
  then have "fold (effect (pairs demo_table) (\<lambda>_ _ c. Suc c)) as (0 :: nat) = length as" using t'(2) by simp
  also have "\<dots> = 2" using distinct_card [OF t'(1)] t'(2) dom by simp
  finally show ?thesis using t'(3,4) by (intro exI [of _ ?fn] exI [of _ t']) (simp add: demo_map_def)
qed

end
