(* ===== verification/Spec2Isabelle.thy ===== *)
theory Spec2Isabelle
  imports Prelude Stream Per Ber Memory RingBuffer BufferedBio RpcPipe Objects Queue Stack ArrayList StreamPool Base64 Tpkt Transport TransportWrite Mcs HashTable HashTableLists HashTableMap HashTableForeach HashTableSpec
begin

text \<open>
  A verification library for FreeRDP, an implementation of the Remote Desktop Protocol, and for WinPR,
  the portability runtime below it. It covers the way of a PDU: the byte streams it is encoded in,
  the encodings, the frames, the transport with its buffers down to the socket, the MCS domain
  messages sent over it, and the collections the library keeps its objects in.

  \<^bold>\<open>How the parts interact.\<close> A PDU is written into a \<^verbatim>\<open>wStream\<close> taken from the stream pool, by the typed
  writers and the PER and BER encoders, below a TPKT and an X.224 header. \<^verbatim>\<open>transport_default_write\<close>
  hands it to the front BIO, which on a plain connection is the buffered BIO: what the socket does
  not take goes into a ring buffer. In the other direction \<^verbatim>\<open>transport_check_fds\<close> reads from the front
  BIO until the length parsers find a whole PDU, and passes its stream to the receive callback. MCS
  uses both directions to attach users and join channels. Queues, stacks, array lists and hash tables
  hold the objects of the layers above.

  \<^bold>\<open>How code is modelled.\<close> A C function is a program on an explicit state that returns a value
  (\<open>Done\<close>), reports failure, \<^verbatim>\<open>FALSE\<close> or \<^verbatim>\<open>NULL\<close> (\<open>Failed\<close>), or loses the process (\<open>Fault\<close>: a failed
  assertion, an access outside a block or through a dangling pointer, a division by zero, a loop that
  never ends). Fixed width integers are words or naturals with the wrap-around written out
  (\<open>add64\<close>, \<open>sub64\<close>, \<open>mul64\<close>). Allocators are parameters that may refuse. Sockets, the receive callback,
  text conversions and user callbacks are parameters, and what the code relies on of them are
  hypotheses. Locks are taken as serialising the calls of an object.

  \<^bold>\<open>Theories and sources\<close> (paths below \<^verbatim>\<open>src/\<close>):

  \<^item> \<^verbatim>\<open>Prelude\<close>, \<^verbatim>\<open>Memory\<close>, \<^verbatim>\<open>Objects\<close>: integers, outcomes and their combinators, Hoare triples, blocks and
    cyclic segments, pointers and the callbacks of \<^verbatim>\<open>wObject\<close>.
  \<^item> \<^verbatim>\<open>Stream\<close>: \<^verbatim>\<open>winpr/include/winpr/stream.h\<close>, \<^verbatim>\<open>winpr/libwinpr/utils/stream.c\<close>. Round trips of the typed
    accessors, growth of the buffer and exactly when it never ends; the locales \<open>codec\<close> and
    \<open>sized_codec\<close> that encoders are proved against.
  \<^item> \<^verbatim>\<open>Per\<close>, \<^verbatim>\<open>Ber\<close>, \<^verbatim>\<open>Base64\<close>: \<^verbatim>\<open>libfreerdp/crypto/per.c\<close>, \<^verbatim>\<open>ber.c\<close>, \<^verbatim>\<open>base64.c\<close>. Readers are safe on every
    input, what is written is read back, predicted sizes are right; where a round trip fails, exactly
    on which values.
  \<^item> \<^verbatim>\<open>RingBuffer\<close>: \<^verbatim>\<open>libfreerdp/utils/ringbuffer.c\<close>, a byte queue (locale \<open>byte_queue\<close>). Its users are
    \<^verbatim>\<open>BufferedBio\<close> (\<^verbatim>\<open>libfreerdp/core/tcp.c\<close>) and \<^verbatim>\<open>RpcPipe\<close> (\<^verbatim>\<open>libfreerdp/core/gateway/rpc_client.c\<close>).
  \<^item> \<^verbatim>\<open>Queue\<close>, \<^verbatim>\<open>Stack\<close>, \<^verbatim>\<open>ArrayList\<close>, \<^verbatim>\<open>StreamPool\<close>: the files of the same names in
    \<^verbatim>\<open>winpr/libwinpr/utils/collections\<close>. Refinement to lists; for the pool, a step relation over its
    calls in which every stream has one owner.
  \<^item> \<^verbatim>\<open>HashTable\<close>, \<^verbatim>\<open>HashTableLists\<close>, \<^verbatim>\<open>HashTableMap\<close>, \<^verbatim>\<open>HashTableForeach\<close>, \<^verbatim>\<open>HashTableSpec\<close>:
    \<^verbatim>\<open>HashTable.c\<close> of the same directory. The first holds the model, the others show that linked pairs
    in a store represent a map (locale \<open>dictionary\<close>) through rehashing, and what iterations do.
  \<^item> \<^verbatim>\<open>Tpkt\<close>: \<^verbatim>\<open>libfreerdp/core/tpkt.c\<close> and \<^verbatim>\<open>tpdu.c\<close>, the frame headers.
  \<^item> \<^verbatim>\<open>Transport\<close>, \<^verbatim>\<open>TransportWrite\<close>: \<^verbatim>\<open>libfreerdp/core/transport.c\<close> with the length parser of \<^verbatim>\<open>rdstls.c\<close>.
    No byte is lost, duplicated or reordered in either direction; a PDU that has arrived is delivered.
    The properties on receiving are about plain, non-blocking connections in the default mode with a
    receive callback that only looks at its stream; the definitions cover the other modes and any callback.
  \<^item> \<^verbatim>\<open>Mcs\<close>: \<^verbatim>\<open>libfreerdp/core/mcs.c\<close>. Messages reach the receiver over the modelled transport with the
    values meant; the merge of domain parameters stays within the offer.

  \<^bold>\<open>Loops and bounds.\<close> Loops that may run forever are partial functions into options, and \<open>None\<close> becomes
  the fault \<open>NonTermination\<close>; that they return is part of the properties (the transport loops under the
  condition that the socket does not refuse for ever), and that one does not is proved too
  (\<^verbatim>\<open>Stream_EnsureCapacity\<close> on capacity zero, \<^verbatim>\<open>HashTable_Clear\<close> in an iteration). The only fuel is that of
  \<open>float32\<close>, 128 halvings or doublings, enough for any quotient of two \<^verbatim>\<open>size_t\<close> values. A hash table is
  assumed to hold fewer than \<open>2 ^ 32\<close> pairs, the range of its \<^verbatim>\<open>DWORD\<close> counters.

  \<^bold>\<open>Defects shown.\<close> Theorems about errors state what the code does where it does not do what it means
  to: a ring buffer filled in place to the last byte, a queue of capacity one, header-only fast-path
  PDUs, short reads of the early user authorization result, iterations of a hash table ended early.

  \<^bold>\<open>Not modelled.\<close> TLS, NLA, Kerberos and everything that only calls OpenSSL or the operating system
  (sockets, threads, files, smart cards); connecting and accepting; the GCC conference data,
  capabilities, licensing and settings, which are large tables on top of the encodings modelled here;
  drawing orders, image codecs and pixel primitives; virtual channels; clients, servers and the proxy.
  Of modelled files, what is left out is lock wrappers, log messages and functions that format texts.
\<close>

end
